(* ===== verification/Dsm_Prelude.thy ===== *)
theory Dsm_Prelude
  imports Main "HOL-Library.Word"
begin

unbundle bit_operations_syntax

text \<open>
  What every component shares: the machine integers of the C sources, the result type of a
  computation that C or the operating system may refuse to continue, checked array access, the
  shift \<open>1ULL << n\<close> with its undefined cases, and the reading of a 64-bit mask as a set of node
  identifiers.

  A function of the model returns \<open>Inr v\<close> where the code goes on with \<open>v\<close> and \<open>Inl e\<close> where C
  gives the code no meaning (a shift by 64 or more, an array access out of bounds, a null pointer, a
  division by zero) or where the thread does not go on by itself: it touches a page of the region that
  is not mapped, or a blocking call has not returned (\<open>Suspended\<close>).
\<close>

section \<open>Machine integers and pages\<close>

type_synonym u8 = "8 word"
type_synonym u32 = "32 word"
type_synonym u64 = "64 word"
type_synonym page = "u8 list"

definition page_bytes :: nat where
  "page_bytes = 4096"

definition zero_page :: page where
  "zero_page = replicate page_bytes 0"

lemma length_zero_page [simp]: "length zero_page = page_bytes"
  by (simp add: zero_page_def)

section \<open>Computations that may have no continuation\<close>

datatype stuck = BadShift | BadIndex | NullDeref | DivByZero | Suspended

type_synonym 'a comp = "stuck + 'a"

definition andthen :: "'a comp \<Rightarrow> ('a \<Rightarrow> 'b comp) \<Rightarrow> 'b comp" where
  "andthen c f = (case c of Inl e \<Rightarrow> Inl e | Inr v \<Rightarrow> f v)"

named_theorems comp_simps \<open>evaluation of computations\<close>

lemma andthen_Inl [simp, comp_simps]: "andthen (Inl e) f = Inl e"
  by (simp add: andthen_def)

lemma andthen_Inr [simp, comp_simps]: "andthen (Inr v) f = f v"
  by (simp add: andthen_def)

lemma andthen_eq_Inr_iff:
  "andthen c f = Inr r \<longleftrightarrow> (\<exists>v. c = Inr v \<and> f v = Inr r)"
  by (cases c) auto

lemma andthen_InrE [elim!]:
  assumes "andthen c f = Inr r"
  obtains v where "c = Inr v" and "f v = Inr r"
  using assms by (auto simp: andthen_eq_Inr_iff)

lemma Inr_andthenE [elim!]:
  assumes "Inr r = andthen c f"
  obtains v where "c = Inr v" and "f v = Inr r"
  using assms [symmetric] by (rule andthen_InrE)

lemma andthen_cong [fundef_cong]:
  "c = d \<Longrightarrow> (\<And>v. d = Inr v \<Longrightarrow> f v = g v) \<Longrightarrow> andthen c f = andthen d g"
  by (cases d) auto

text \<open>Reading and writing element \<open>i\<close> of a C array held as a list.\<close>

definition get_at :: "'a list \<Rightarrow> nat \<Rightarrow> 'a comp" where
  "get_at xs i = (if i < length xs then Inr (xs ! i) else Inl BadIndex)"

definition put_at :: "'a list \<Rightarrow> nat \<Rightarrow> 'a \<Rightarrow> 'a list comp" where
  "put_at xs i x = (if i < length xs then Inr (xs[i := x]) else Inl BadIndex)"

lemma get_at_in [simp]: "i < length xs \<Longrightarrow> get_at xs i = Inr (xs ! i)"
  by (simp add: get_at_def)

lemma put_at_in [simp]: "i < length xs \<Longrightarrow> put_at xs i x = Inr (xs[i := x])"
  by (simp add: put_at_def)

lemma get_at_Inr_iff [simp]: "get_at xs i = Inr x \<longleftrightarrow> i < length xs \<and> x = xs ! i"
  by (auto simp: get_at_def)

lemma put_at_Inr_iff [simp]: "put_at xs i x = Inr ys \<longleftrightarrow> i < length xs \<and> ys = xs[i := x]"
  by (auto simp: put_at_def)

section \<open>Node masks\<close>

text \<open>\<open>1ULL << n\<close>: C leaves it undefined for \<open>n \<ge> 64\<close>.\<close>

definition node_bit :: "nat \<Rightarrow> u64" where
  "node_bit k = push_bit k 1"

definition shl1 :: "u32 \<Rightarrow> u64 comp" where
  "shl1 n = (if unat n < 64 then Inr (node_bit (unat n)) else Inl BadShift)"

definition nodes_of :: "u64 \<Rightarrow> nat set" where
  "nodes_of m = {i. bit m i}"

named_theorems mask_simps \<open>node masks as sets of node identifiers\<close>

lemma shl1_Inr_iff: "shl1 n = Inr b \<longleftrightarrow> unat n < 64 \<and> b = node_bit (unat n)"
  by (auto simp: shl1_def)

lemma shl1_in [simp]: "unat n < 64 \<Longrightarrow> shl1 n = Inr (node_bit (unat n))"
  by (simp add: shl1_def)

lemma shl1_out [simp]: "\<not> unat n < 64 \<Longrightarrow> shl1 n = Inl BadShift"
  by (simp add: shl1_def)

lemma bit_node_bit [mask_simps]: "bit (node_bit k) i \<longleftrightarrow> i = k \<and> k < 64"
  by (auto simp: node_bit_def bit_simps)

lemma bit_word_less: "bit (m :: u64) i \<Longrightarrow> i < 64"
  using bit_imp_le_length [of m i] by simp

lemma nodes_of_bound: "i \<in> nodes_of m \<Longrightarrow> i < 64"
  by (auto simp: nodes_of_def dest: bit_word_less)

lemma finite_nodes_of [simp]: "finite (nodes_of m)"
  by (rule finite_subset [of _ "{..<64}"]) (auto dest: nodes_of_bound)

lemma in_nodes_of [mask_simps]: "i \<in> nodes_of m \<longleftrightarrow> bit m i"
  by (simp add: nodes_of_def)

lemma nodes_of_0 [simp, mask_simps]: "nodes_of 0 = {}"
  by (simp add: nodes_of_def)

lemma nodes_of_node_bit [mask_simps]: "k < 64 \<Longrightarrow> nodes_of (node_bit k) = {k}"
  by (auto simp: nodes_of_def bit_node_bit)

lemma nodes_of_or [mask_simps]: "nodes_of (a OR b) = nodes_of a \<union> nodes_of b"
  by (auto simp: nodes_of_def bit_or_iff)

lemma nodes_of_and_not [mask_simps]: "nodes_of (a AND NOT b) = nodes_of a - nodes_of b"
  by (auto simp: nodes_of_def bit_and_iff bit_not_iff dest: bit_word_less)

lemma nodes_of_inj: "nodes_of a = nodes_of b \<longleftrightarrow> a = b"
proof
  assume "nodes_of a = nodes_of b"
  then have "bit a i = bit b i" for i by (auto simp: nodes_of_def)
  then show "a = b" by (intro bit_eqI) simp
qed simp

lemma nodes_of_empty_iff [simp]: "nodes_of m = {} \<longleftrightarrow> m = 0"
  using nodes_of_inj [of m 0] by simp

text \<open>The test \<open>mask & (1ULL << m)\<close> of the loops over the 64 node slots.\<close>

lemma and_node_bit_nonzero [mask_simps]:
  assumes "k < 64"
  shows "m AND node_bit k \<noteq> 0 \<longleftrightarrow> bit m k"
proof -
  have "nodes_of (m AND node_bit k) = (if bit m k then {k} else {})"
    using assms by (auto simp: nodes_of_def bit_and_iff bit_node_bit)
  then show ?thesis
    using nodes_of_empty_iff [of "m AND node_bit k"] by (auto split: if_splits)
qed

section \<open>Lists\<close>

lemma length_filter_upt_card:
  "length (filter P [0..<n]) = card {i. i < n \<and> P i}"
proof -
  have "length (filter P [0..<n]) = card (set (filter P [0..<n]))"
    by (subst distinct_card) auto
  also have "set (filter P [0..<n]) = {i. i < n \<and> P i}" by auto
  finally show ?thesis .
qed

end
