(* ===== verification/Dsm_Core.thy ===== *)
theory Dsm_Core
  imports Dsm_Prelude
begin

text \<open>
  The shared region of \<^verbatim>\<open>dsm_core.h\<close> and \<^verbatim>\<open>dsm_core.c\<close>: the local page table, the address
  arithmetic between a faulting address and a page index, and the two calls that set up userfaultfd.
  \<open>page_size\<close>, \<open>region_start\<close> and \<open>num_pages\<close> are the global variables of those names.
\<close>

section \<open>The page table\<close>

definition REGION_SIZE :: nat where
  "REGION_SIZE = 4 * 4096"

text \<open>
  \<open>page_status_t\<close>, with the value 3 that \<^verbatim>\<open>fault_handler.c\<close> stores and \<^verbatim>\<open>network_engine.c\<close>
  names \<open>PAGE_WRITE_PENDING\<close>.
\<close>

datatype page_status = PAGE_EMPTY | PAGE_PENDING | PAGE_VALID | PAGE_WRITE_PENDING

record page_tracker =
  pt_base_addr :: u64
  pt_status :: page_status

text \<open>The loop of \<open>main\<close> that fills \<open>page_table\<close>.\<close>

definition init_page_table :: "u64 \<Rightarrow> u64 \<Rightarrow> nat \<Rightarrow> page_tracker list" where
  "init_page_table region page_size num_pages =
     map (\<lambda>i. \<lparr>pt_base_addr = region + of_nat i * page_size, pt_status = PAGE_EMPTY\<rparr>)
       [0..<num_pages]"

section \<open>Addresses\<close>

definition get_page_base :: "u64 \<Rightarrow> u64 \<Rightarrow> u64" where
  "get_page_base page_size fault_address = fault_address AND NOT (page_size - 1)"

text \<open>The result is a 32-bit \<open>int\<close>: the index is narrowed by the cast \<open>(int)idx\<close>.\<close>

definition get_page_index :: "u64 \<Rightarrow> u64 \<Rightarrow> u64 \<Rightarrow> u64 \<Rightarrow> int comp" where
  "get_page_index region_start page_size num_pages page_base =
     (if page_base < region_start then Inr (- 1)
      else if page_size = 0 then Inl DivByZero
      else let offset = page_base - region_start; idx = offset div page_size
           in Inr (if idx < num_pages then sint (ucast idx :: u32) else - 1))"

section \<open>Setting up userfaultfd\<close>

text \<open>
  The results of the system calls are arguments; the second component says whether \<open>close(uffd)\<close>
  was called.
\<close>

definition create_user_fault_fd :: "int \<Rightarrow> int \<Rightarrow> int \<times> bool" where
  "create_user_fault_fd uffd api_result =
     (if uffd < 0 then (- 1, False)
      else if api_result < 0 then (- 1, True)
      else (uffd, False))"

record uffd_registration =
  reg_start :: u64
  reg_len :: nat
  reg_missing :: bool
  reg_wp :: bool

text \<open>The registration passed to the kernel; \<open>None\<close> when the call fails and the process exits.\<close>

definition register_memory_region :: "u64 \<Rightarrow> int \<Rightarrow> uffd_registration option" where
  "register_memory_region region ioctl_result =
     (if ioctl_result < 0 then None
      else Some \<lparr>reg_start = region, reg_len = REGION_SIZE, reg_missing = True, reg_wp = True\<rparr>)"

section \<open>Address arithmetic\<close>

lemma length_init_page_table [simp]: "length (init_page_table r ps n) = n"
  by (simp add: init_page_table_def)

lemma init_page_table_nth [simp]:
  "i < n \<Longrightarrow> init_page_table r ps n ! i =
     \<lparr>pt_base_addr = r + of_nat i * ps, pt_status = PAGE_EMPTY\<rparr>"
  by (simp add: init_page_table_def)

lemma and_not_mask_word:
  fixes a :: u64
  shows "a AND NOT (mask k) = push_bit k (drop_bit k a)"
  by (rule bit_eqI) (auto simp: bit_simps)

lemma unat_and_not_mask:
  fixes a :: u64
  shows "unat (a AND NOT (mask k)) = unat a div 2 ^ k * 2 ^ k"
proof -
  have le: "unat a div 2 ^ k * 2 ^ k \<le> unat a" by simp
  have "unat a < 2 ^ 64" using unsigned_less [of a] by simp
  with le have lt: "unat a div 2 ^ k * 2 ^ k < 2 ^ 64" by (rule le_less_trans)
  have drop: "unat (drop_bit k a) = unat a div 2 ^ k"
    unfolding unat_drop_bit_eq by (rule drop_bit_eq_div)
  have "unat (push_bit k (drop_bit k a)) = take_bit 64 (push_bit k (unat (drop_bit k a)))"
    by (simp add: unsigned_push_bit_eq)
  also have "\<dots> = (unat a div 2 ^ k * 2 ^ k) mod 2 ^ 64"
    by (simp only: drop take_bit_eq_mod push_bit_eq_mult)
  finally show ?thesis using lt by (simp add: and_not_mask_word)
qed

lemma get_page_base_floor:
  assumes "k < 64"
  shows "unat (get_page_base (2 ^ k) a) = unat a div 2 ^ k * 2 ^ k"
proof -
  have "(2 ^ k - 1 :: u64) = mask k" by (simp add: mask_eq_exp_minus_1)
  then show ?thesis by (simp add: get_page_base_def unat_and_not_mask)
qed

text \<open>The narrowing cast keeps every index below \<open>2 ^ 31\<close>.\<close>

lemma sint_narrow:
  assumes "unat (i :: u64) < 2 ^ 31"
  shows "sint (ucast i :: u32) = int (unat i)"
proof -
  have "int (unat i) < int (2 ^ 31)"
    using assms by (simp only: of_nat_less_iff)
  then have u: "uint i < 2 ^ 31" by simp
  have "- (2 ^ 31) \<le> uint i"
    by (rule order_trans [of _ 0]) simp_all
  then have "signed_take_bit 31 (uint i) = uint i"
    using u by (rule signed_take_bit_int_eq_self)
  then show ?thesis
    by (simp add: signed_ucast_eq)
qed

lemma get_page_index_eq:
  assumes "page_size \<noteq> 0" and "unat num_pages \<le> 2 ^ 31"
  shows "get_page_index region page_size num_pages base =
    Inr (if base < region \<or> unat num_pages \<le> (unat base - unat region) div unat page_size then - 1
         else int ((unat base - unat region) div unat page_size))"
proof (cases "base < region")
  case False
  then have le: "region \<le> base" by simp
  then have idx: "unat ((base - region) div page_size) = (unat base - unat region) div unat page_size"
    by (simp add: unat_div unat_sub_if' word_le_nat_alt)
  then show ?thesis
    using False assms sint_narrow [of "(base - region) div page_size"]
    by (auto simp: get_page_index_def Let_def word_less_nat_alt)
qed (use assms in \<open>simp add: get_page_index_def\<close>)

lemma region_address:
  fixes region :: u64
  assumes "unat region + n * p \<le> 2 ^ 64" and "i < n" and "off < p"
  shows "unat (region + of_nat (i * p + off)) = unat region + i * p + off"
proof -
  have "Suc i * p \<le> n * p" using assms(2) by (intro mult_right_mono) auto
  then have lt: "unat region + i * p + off < 2 ^ 64" using assms by simp
  obtain w :: u64 where w: "w = of_nat (i * p + off)" by blast
  then have off: "unat w = i * p + off"
    using lt by (intro of_nat_inverse) simp_all
  have "unat (region + w) = unat region + unat w"
    using lt off by (intro unat_add_lem [THEN iffD1]) simp
  then show ?thesis by (simp only: w [symmetric] off add.assoc)
qed

text \<open>Rounding down and dividing find the page of every byte of an aligned region.\<close>

lemma page_index_of_address:
  assumes "k < 32" and "2 ^ k dvd unat region" and "n \<le> 2 ^ 31"
    and "unat region + n * 2 ^ k \<le> 2 ^ 64" and "i < n" and "off < 2 ^ k"
  shows "get_page_index region (2 ^ k) (of_nat n)
      (get_page_base (2 ^ k) (region + of_nat (i * 2 ^ k + off))) = Inr (int i)"
proof -
  have ps: "unat (2 ^ k :: u64) = 2 ^ k" 
    using assms(1) power_strict_increasing [of k 64 "2 :: nat"] by (intro of_nat_inverse) simp_all
  have np: "unat (of_nat n :: u64) = n" using assms(3) by (simp add: unat_of_nat)
  obtain r where r: "unat region = r * 2 ^ k"
    using assms(2) by (auto simp: dvd_def mult.commute)
  let ?base = "get_page_base (2 ^ k) (region + of_nat (i * 2 ^ k + off))"
  have "unat ?base = (r * 2 ^ k + i * 2 ^ k + off) div 2 ^ k * 2 ^ k"
    using assms region_address [OF assms(4,5), of off] by (simp add: get_page_base_floor r)
  also have "\<dots> = unat region + i * 2 ^ k"
    using assms(6) by (simp add: r flip: distrib_right)
  finally have base: "unat ?base = unat region + i * 2 ^ k" .
  then have "\<not> ?base < region" by (simp only: word_less_nat_alt not_less le_add1)
  moreover have "(2 ^ k :: u64) \<noteq> 0" using ps by (metis unat_0 power_not_zero zero_neq_numeral)
  moreover have "unat (of_nat n :: u64) \<le> 2 ^ 31" using assms(3) by (simp only: np)
  ultimately have "get_page_index region (2 ^ k) (of_nat n) ?base = Inr (if n \<le> i then - 1 else int i)"
    by (simp only: get_page_index_eq np ps base add_diff_cancel_left' if_False simp_thms
        nonzero_mult_div_cancel_right power_not_zero zero_neq_numeral not_False_eq_True)
  then show ?thesis
    using assms(5) by simp
qed

section \<open>Properties\<close>

text \<open>C33. Any byte of page \<open>i\<close> of a page-aligned region that does not wrap around the address
  space is mapped back to index \<open>i\<close>: rounding the faulting address down and dividing by the page
  size inverts the base addresses that \<open>main\<close> stored in the page table.\<close>

theorem page_index_roundtrip:
  assumes "k < 32" and "2 ^ k dvd unat region" and "n \<le> 2 ^ 31"
    and "unat region + n * 2 ^ k \<le> 2 ^ 64" and "i < n" and "off < 2 ^ k"
  shows "get_page_index region (2 ^ k) (of_nat n)
      (get_page_base (2 ^ k) (pt_base_addr (init_page_table region (2 ^ k) n ! i) + of_nat off)) =
    Inr (int i)"
  using page_index_of_address [OF assms] assms(5) by (simp add: algebra_simps)

theorem page_index_roundtrip_witness:
  "get_page_index 0x7f0000000000 4096 4
     (get_page_base 4096 (pt_base_addr (init_page_table 0x7f0000000000 4096 4 ! 2) + 123)) = Inr 2"
  using page_index_roundtrip [of 12 "0x7f0000000000" 4 2 123] by (simp add: dvd_def)

text \<open>The index is -1 or a valid index of the page table, and it is a valid index exactly for
  the addresses inside the region; with at most \<open>2 ^ 31\<close> pages the cast to \<open>int\<close> never turns an
  index negative.\<close>

lemma page_index_bounds:
  assumes "page_size \<noteq> 0" and "unat num_pages \<le> 2 ^ 31"
  shows "\<exists>r. get_page_index region page_size num_pages base = Inr r \<and>
    (if unat region \<le> unat base \<and> (unat base - unat region) div unat page_size < unat num_pages
     then \<exists>i < unat num_pages. r = int i else r = - 1)"
  using assms by (auto simp: get_page_index_eq word_less_nat_alt)

lemma page_index_bounds_instance:
  "(4096 :: u64) \<noteq> 0 \<and> (\<exists>r. get_page_index 0x10000 4096 4 0x14000 = Inr r \<and> r = - 1)"
  using page_index_bounds [of 4096 4 "0x10000" "0x14000"] by simp

end
