(* ===== verification/Gpd.thy ===== *)
theory Gpd
  imports Dsm_Prelude
begin

text \<open>
  The global page directory of \<^verbatim>\<open>gpd.h\<close> and \<^verbatim>\<open>gpd.c\<close>: one entry per page with its MSI state, its
  owner and the bitmap of the nodes that share it. Each transition is one critical section under the
  entry's \<open>transaction_lock\<close>. The abstract directory \<open>dir_state\<close> says what an entry means;
  the locale \<open>page_directory\<close> is the contract that the coordinator's request handlers rely on.
\<close>

section \<open>State\<close>

datatype msi_state = STATE_MODIFIED | STATE_SHARED | STATE_INVALID

record gpd_entry =
  state :: msi_state
  owner_node_id :: u32
  shared_nodes_bitmap :: u64

type_synonym gpd = "gpd_entry list"

text \<open>
  The states ordered by the access they permit. The array and \<open>gpd_num_pages\<close> are one list, whose
  length is the number of pages.
\<close>

fun permission :: "msi_state \<Rightarrow> nat" where
  "permission STATE_INVALID = 0"
| "permission STATE_SHARED = 1"
| "permission STATE_MODIFIED = 2"

instantiation msi_state :: linorder
begin

definition less_eq_msi_state :: "msi_state \<Rightarrow> msi_state \<Rightarrow> bool" where
  "less_eq_msi_state s t \<longleftrightarrow> permission s \<le> permission t"

definition less_msi_state :: "msi_state \<Rightarrow> msi_state \<Rightarrow> bool" where
  "less_msi_state s t \<longleftrightarrow> permission s < permission t"

instance
proof
  fix s t u :: msi_state
  show "s \<le> t \<Longrightarrow> t \<le> s \<Longrightarrow> s = t"
    by (cases s; cases t) (simp_all add: less_eq_msi_state_def)
qed (auto simp: less_eq_msi_state_def less_msi_state_def)

end

section \<open>Operations\<close>

definition fresh_entry :: gpd_entry where
  "fresh_entry = \<lparr>state = STATE_INVALID, owner_node_id = 0, shared_nodes_bitmap = 0\<rparr>"

text \<open>\<open>None\<close>: the allocation failed and the process exits.\<close>

definition gpd_init :: "nat \<Rightarrow> bool \<Rightarrow> gpd option" where
  "gpd_init total_pages malloc_ok =
     (if \<not> malloc_ok then None else Some (replicate total_pages fresh_entry))"

definition gpd_get_state :: "gpd \<Rightarrow> nat \<Rightarrow> msi_state comp" where
  "gpd_get_state g i = andthen (get_at g i) (\<lambda>e. Inr (state e))"

definition gpd_get_owner :: "gpd \<Rightarrow> nat \<Rightarrow> u32 comp" where
  "gpd_get_owner g i = andthen (get_at g i) (\<lambda>e. Inr (owner_node_id e))"

definition gpd_get_shared_mask :: "gpd \<Rightarrow> nat \<Rightarrow> u64 comp" where
  "gpd_get_shared_mask g i = andthen (get_at g i) (\<lambda>e. Inr (shared_nodes_bitmap e))"

text \<open>
  The transitions take the value the out-parameter had before the call and return the C result, the
  out-parameter and the directory.
\<close>

definition gpd_transition_to_shared ::
  "gpd \<Rightarrow> nat \<Rightarrow> u32 \<Rightarrow> u32 \<Rightarrow> (bool \<times> u32 \<times> gpd) comp" where
  "gpd_transition_to_shared g page_index reading_node out_old_owner =
     (if page_index \<ge> length g then Inr (False, out_old_owner, g)
      else
        let entry = g ! page_index; old = owner_node_id entry in
        if state entry = STATE_MODIFIED then
          andthen (shl1 old) (\<lambda>old_bit. andthen (shl1 reading_node) (\<lambda>new_bit.
            Inr (True, old,
              g[page_index := entry\<lparr>state := STATE_SHARED, owner_node_id := 0,
                                    shared_nodes_bitmap := old_bit OR new_bit\<rparr>])))
        else
          andthen (shl1 reading_node) (\<lambda>new_bit.
            Inr (True, old,
              g[page_index := entry\<lparr>state := STATE_SHARED, owner_node_id := 0,
                                    shared_nodes_bitmap := shared_nodes_bitmap entry OR new_bit\<rparr>])))"

definition gpd_transition_to_modified ::
  "gpd \<Rightarrow> nat \<Rightarrow> u32 \<Rightarrow> u64 \<Rightarrow> (bool \<times> u64 \<times> gpd) comp" where
  "gpd_transition_to_modified g page_index writing_node out_invalidate_mask =
     (if page_index \<ge> length g then Inr (False, out_invalidate_mask, g)
      else
        let entry = g ! page_index; prev_owner = owner_node_id entry in
        andthen
          (case state entry of
             STATE_MODIFIED \<Rightarrow> (if prev_owner \<noteq> 0 then shl1 prev_owner else Inr 0)
           | STATE_SHARED \<Rightarrow> Inr (shared_nodes_bitmap entry)
           | STATE_INVALID \<Rightarrow> Inr 0) (\<lambda>holders_mask.
        andthen (shl1 writing_node) (\<lambda>writer_bit.
          Inr (True, holders_mask AND NOT writer_bit,
            g[page_index := entry\<lparr>state := STATE_MODIFIED, owner_node_id := writing_node,
                                  shared_nodes_bitmap := 0\<rparr>]))))"

section \<open>What an entry means\<close>

datatype dir_state = Uncached | SharedBy "nat set" | OwnedBy nat

fun dir_holders :: "dir_state \<Rightarrow> nat set" where
  "dir_holders Uncached = {}"
| "dir_holders (SharedBy S) = S"
| "dir_holders (OwnedBy n) = {n}"

fun dir_read :: "nat \<Rightarrow> dir_state \<Rightarrow> dir_state" where
  "dir_read n d = SharedBy (insert n (dir_holders d))"

fun dir_write :: "nat \<Rightarrow> dir_state \<Rightarrow> dir_state" where
  "dir_write n d = OwnedBy n"

definition abs_entry :: "gpd_entry \<Rightarrow> dir_state" where
  "abs_entry e =
     (case state e of
        STATE_MODIFIED \<Rightarrow> OwnedBy (unat (owner_node_id e))
      | STATE_SHARED \<Rightarrow> SharedBy (nodes_of (shared_nodes_bitmap e))
      | STATE_INVALID \<Rightarrow> Uncached)"

definition valid_node :: "u32 \<Rightarrow> bool" where
  "valid_node n \<longleftrightarrow> 0 < unat n \<and> unat n < 64"

text \<open>
  The invariant of an entry: node 0 never holds a page, the owner is set exactly in state
  \<open>STATE_MODIFIED\<close>, the bitmap is non-empty exactly in state \<open>STATE_SHARED\<close>.
\<close>

definition entry_ok :: "gpd_entry \<Rightarrow> bool" where
  "entry_ok e \<longleftrightarrow>
     (case state e of
        STATE_MODIFIED \<Rightarrow> valid_node (owner_node_id e) \<and> shared_nodes_bitmap e = 0
      | STATE_SHARED \<Rightarrow> owner_node_id e = 0 \<and> shared_nodes_bitmap e \<noteq> 0 \<and>
          \<not> bit (shared_nodes_bitmap e) 0
      | STATE_INVALID \<Rightarrow> owner_node_id e = 0 \<and> shared_nodes_bitmap e = 0)"

definition gpd_inv :: "gpd \<Rightarrow> bool" where
  "gpd_inv g \<longleftrightarrow> list_all entry_ok g"

definition gpd_holders :: "gpd \<Rightarrow> nat \<Rightarrow> nat set" where
  "gpd_holders g i = (if i < length g then dir_holders (abs_entry (g ! i)) else {})"

definition gpd_exclusive :: "gpd \<Rightarrow> nat \<Rightarrow> nat option" where
  "gpd_exclusive g i =
     (if i < length g \<and> state (g ! i) = STATE_MODIFIED then Some (unat (owner_node_id (g ! i)))
      else None)"

lemmas gpd_op_defs = gpd_transition_to_shared_def gpd_transition_to_modified_def
lemmas entry_defs = entry_ok_def abs_entry_def valid_node_def

lemma fresh_entry_ok [simp]: "entry_ok fresh_entry" "abs_entry fresh_entry = Uncached"
  by (simp_all add: fresh_entry_def entry_ok_def abs_entry_def)

lemma gpd_init_inv: "gpd_init n ok = Some g \<Longrightarrow> gpd_inv g \<and> length g = n"
  by (auto simp: gpd_init_def gpd_inv_def list_all_iff split: if_splits)

lemma gpd_init_holders: "gpd_init n ok = Some g \<Longrightarrow> gpd_holders g = (\<lambda>_. {})"
proof -
  assume "gpd_init n ok = Some g"
  then have g: "g = replicate n fresh_entry" by (simp add: gpd_init_def split: if_splits)
  show ?thesis by (simp add: g gpd_holders_def fun_eq_iff)
qed

lemma gpd_invD: "gpd_inv g \<Longrightarrow> i < length g \<Longrightarrow> entry_ok (g ! i)"
  by (simp add: gpd_inv_def list_all_length)

lemma gpd_inv_update: "gpd_inv g \<Longrightarrow> entry_ok e \<Longrightarrow> gpd_inv (g[i := e])"
  using set_update_subset_insert [of g i e] by (auto simp: gpd_inv_def list_all_iff)

lemma valid_nodeD [dest]: "valid_node n \<Longrightarrow> unat n < 64"
  by (simp add: valid_node_def)

lemma mask_without_0_nonzero: "bit (m :: u64) k \<Longrightarrow> m \<noteq> 0"
  by auto

text \<open>One read transition on a well-formed entry, for a valid reader.\<close>

lemma to_shared_step:
  assumes "gpd_inv g" and "i < length g" and "valid_node n"
  shows "\<exists>e'. gpd_transition_to_shared g i n out = Inr (True, owner_node_id (g ! i), g[i := e']) \<and>
    entry_ok e' \<and> state e' = STATE_SHARED \<and> abs_entry e' = dir_read (unat n) (abs_entry (g ! i))"
proof -
  note ok = gpd_invD [OF assms(1,2)]
  have n: "unat n < 64" "unat n \<noteq> 0" using assms(3) by (auto simp: valid_node_def)
  have nonzero: "m OR node_bit (unat n) \<noteq> 0" "node_bit (unat n) \<noteq> 0" for m
    using n mask_without_0_nonzero [of "m OR node_bit (unat n)" "unat n"]
      mask_without_0_nonzero [of "node_bit (unat n)" "unat n"]
    by (simp_all add: bit_or_iff bit_node_bit)
  show ?thesis
    using ok assms n nonzero
    by (cases "state (g ! i)")
      (auto simp: gpd_transition_to_shared_def Let_def entry_defs mask_simps bit_or_iff intro!: exI)
qed

text \<open>One write transition: the mask names every other holder.\<close>

lemma to_modified_step:
  assumes "gpd_inv g" and "i < length g" and "valid_node n"
  shows "\<exists>e' mask. gpd_transition_to_modified g i n out = Inr (True, mask, g[i := e']) \<and>
    entry_ok e' \<and> state e' = STATE_MODIFIED \<and> owner_node_id e' = n \<and>
    nodes_of mask = dir_holders (abs_entry (g ! i)) - {unat n} \<and>
    abs_entry e' = dir_write (unat n) (abs_entry (g ! i))"
proof -
  note ok = gpd_invD [OF assms(1,2)]
  have n: "unat n < 64" using assms(3) by auto
  show ?thesis
    using ok assms n
    by (cases "state (g ! i)")
      (auto simp: gpd_transition_to_modified_def Let_def entry_defs mask_simps intro!: exI)
qed

section \<open>The contract of the directory\<close>

text \<open>
  A request by a node for a page. \<open>dir_run\<close> serves a list of requests and follows the copies in
  the cluster by what the directory tells its caller alone: the requester of a served request gets a
  copy, and each node named in a returned mask is sent an invalidation and loses its copy.
\<close>

datatype dir_request = ReadReq nat u32 | WriteReq nat u32

fun request_node :: "dir_request \<Rightarrow> u32" where
  "request_node (ReadReq i n) = n"
| "request_node (WriteReq i n) = n"

fun dir_run ::
  "('d \<Rightarrow> nat \<Rightarrow> u32 \<Rightarrow> u32 \<Rightarrow> (bool \<times> u32 \<times> 'd) comp) \<Rightarrow>
   ('d \<Rightarrow> nat \<Rightarrow> u32 \<Rightarrow> u64 \<Rightarrow> (bool \<times> u64 \<times> 'd) comp) \<Rightarrow>
   dir_request list \<Rightarrow> 'd \<Rightarrow> (nat \<Rightarrow> nat set) \<Rightarrow> ('d \<times> (nat \<Rightarrow> nat set)) comp" where
  "dir_run to_shared to_modified [] d copies = Inr (d, copies)"
| "dir_run to_shared to_modified (ReadReq i n # rs) d copies =
     andthen (to_shared d i n 0) (\<lambda>(served, old, d').
       dir_run to_shared to_modified rs d'
         (if served then copies(i := insert (unat n) (copies i)) else copies))"
| "dir_run to_shared to_modified (WriteReq i n # rs) d copies =
     andthen (to_modified d i n 0) (\<lambda>(served, mask, d').
       dir_run to_shared to_modified rs d'
         (if served then copies(i := insert (unat n) (copies i - nodes_of mask)) else copies))"

locale page_directory =
  fixes inv :: "'d \<Rightarrow> bool"
    and pages :: "'d \<Rightarrow> nat"
    and holders :: "'d \<Rightarrow> nat \<Rightarrow> nat set"
    and exclusive :: "'d \<Rightarrow> nat \<Rightarrow> nat option"
    and to_shared :: "'d \<Rightarrow> nat \<Rightarrow> u32 \<Rightarrow> u32 \<Rightarrow> (bool \<times> u32 \<times> 'd) comp"
    and to_modified :: "'d \<Rightarrow> nat \<Rightarrow> u32 \<Rightarrow> u64 \<Rightarrow> (bool \<times> u64 \<times> 'd) comp"
  assumes exclusive_holder: "inv d \<Longrightarrow> exclusive d i = Some owner \<Longrightarrow> holders d i = {owner}"
    and to_shared_served: "inv d \<Longrightarrow> i < pages d \<Longrightarrow> valid_node n \<Longrightarrow>
      \<exists>old d'. to_shared d i n out = Inr (True, old, d') \<and> inv d' \<and> pages d' = pages d \<and>
        unat old = (case exclusive d i of None \<Rightarrow> 0 | Some m \<Rightarrow> m) \<and>
        holders d' = (holders d)(i := insert (unat n) (holders d i)) \<and>
        exclusive d' = (exclusive d)(i := None)"
    and to_modified_served: "inv d \<Longrightarrow> i < pages d \<Longrightarrow> valid_node n \<Longrightarrow>
      \<exists>mask d'. to_modified d i n out' = Inr (True, mask, d') \<and> inv d' \<and> pages d' = pages d \<and>
        nodes_of mask = holders d i - {unat n} \<and>
        holders d' = (holders d)(i := {unat n}) \<and>
        exclusive d' = (exclusive d)(i := Some (unat n))"
    and to_shared_refused: "\<not> i < pages d \<Longrightarrow> to_shared d i n out = Inr (False, out, d)"
    and to_modified_refused: "\<not> i < pages d \<Longrightarrow> to_modified d i n out' = Inr (False, out', d)"
begin

text \<open>The directory's holders are the copies that grants and invalidations leave in the cluster.\<close>

lemma dir_run_tracks:
  "inv d \<Longrightarrow> \<forall>r \<in> set rs. valid_node (request_node r) \<Longrightarrow> holders d = copies \<Longrightarrow>
     \<exists>d' copies'. dir_run to_shared to_modified rs d copies = Inr (d', copies') \<and>
       inv d' \<and> pages d' = pages d \<and> holders d' = copies'"
proof (induction rs arbitrary: d copies)
  case Nil
  then show ?case by simp
next
  case (Cons r rs)
  have rest: "\<forall>r \<in> set rs. valid_node (request_node r)" using Cons.prems(2) by simp
  show ?case
  proof (cases r)
    case (ReadReq i n)
    show ?thesis
    proof (cases "i < pages d")
      case True
      then obtain old d' where d': "to_shared d i n 0 = Inr (True, old, d')" "inv d'"
        "pages d' = pages d" "holders d' = (holders d)(i := insert (unat n) (holders d i))"
        using to_shared_served [of d i n 0] Cons.prems(1,2) ReadReq by auto
      show ?thesis
        using Cons.IH [OF d'(2) rest d'(4)] Cons.prems(3) d' ReadReq by (auto simp: fun_upd_def)
    next
      case False
      then show ?thesis
        using Cons.IH [OF Cons.prems(1) rest Cons.prems(3)] ReadReq by (simp add: to_shared_refused)
    qed
  next
    case (WriteReq i n)
    show ?thesis
    proof (cases "i < pages d")
      case True
      then obtain mask d' where d': "to_modified d i n 0 = Inr (True, mask, d')" "inv d'"
        "pages d' = pages d" "holders d' = (holders d)(i := {unat n})"
        "nodes_of mask = holders d i - {unat n}"
        using to_modified_served [of d i n 0] Cons.prems(1,2) WriteReq by auto
      have eq: "insert (unat n) (copies i - nodes_of mask) = {unat n}"
        using d'(5) Cons.prems(3) by auto
      show ?thesis
        using Cons.IH [OF d'(2) rest d'(4) [unfolded Cons.prems(3)]]
        by (simp only: WriteReq dir_run.simps d'(1,3) andthen_Inr prod.case if_True eq)
    next
      case False
      then show ?thesis
        using Cons.IH [OF Cons.prems(1) rest Cons.prems(3)] WriteReq
        by (simp add: to_modified_refused)
    qed
  qed
qed

end

lemma gpd_holders_update:
  "i < length g \<Longrightarrow> gpd_holders (g[i := e]) = (gpd_holders g)(i := dir_holders (abs_entry e))"
  by (auto simp: gpd_holders_def fun_eq_iff)

lemma gpd_exclusive_update:
  "i < length g \<Longrightarrow> gpd_exclusive (g[i := e]) =
     (gpd_exclusive g)(i := if state e = STATE_MODIFIED then Some (unat (owner_node_id e)) else None)"
  by (auto simp: gpd_exclusive_def fun_eq_iff)

interpretation directory: page_directory gpd_inv length gpd_holders gpd_exclusive
  gpd_transition_to_shared gpd_transition_to_modified
proof unfold_locales
  fix d i n
  assume "gpd_inv d" and "gpd_exclusive d i = Some n"
  then show "gpd_holders d i = {n}"
    by (auto simp: gpd_exclusive_def gpd_holders_def abs_entry_def split: if_splits)
next
  fix d i n out
  assume d: "gpd_inv d" "i < length d" "valid_node n"
  have "unat (owner_node_id (d ! i)) = (case gpd_exclusive d i of None \<Rightarrow> 0 | Some m \<Rightarrow> m)"
    using gpd_invD [OF d(1,2)] d(2)
    by (cases "state (d ! i)") (auto simp: gpd_exclusive_def entry_ok_def)
  moreover have "gpd_holders d i = dir_holders (abs_entry (d ! i))"
    using d(2) by (simp add: gpd_holders_def)
  ultimately show "\<exists>old d'. gpd_transition_to_shared d i n out = Inr (True, old, d') \<and> gpd_inv d' \<and>
      length d' = length d \<and> unat old = (case gpd_exclusive d i of None \<Rightarrow> 0 | Some m \<Rightarrow> m) \<and>
      gpd_holders d' = (gpd_holders d)(i := insert (unat n) (gpd_holders d i)) \<and>
      gpd_exclusive d' = (gpd_exclusive d)(i := None)"
    using to_shared_step [OF d, of out] d gpd_inv_update
    by (auto simp: gpd_holders_update gpd_exclusive_update)
next
  fix d i n out'
  assume d: "gpd_inv d" "i < length d" "valid_node n"
  have "gpd_holders d i = dir_holders (abs_entry (d ! i))"
    using d(2) by (simp add: gpd_holders_def)
  then show "\<exists>mask d'. gpd_transition_to_modified d i n out' = Inr (True, mask, d') \<and> gpd_inv d' \<and>
      length d' = length d \<and> nodes_of mask = gpd_holders d i - {unat n} \<and>
      gpd_holders d' = (gpd_holders d)(i := {unat n}) \<and>
      gpd_exclusive d' = (gpd_exclusive d)(i := Some (unat n))"
    using to_modified_step [OF d, of out'] d gpd_inv_update
    by (fastforce simp: gpd_holders_update gpd_exclusive_update)
qed (simp_all add: gpd_op_defs)

section \<open>What the handlers need of an entry\<close>

text \<open>
  Less than \<open>entry_ok\<close>, and kept by everything that writes to the directory, the eviction thread
  included: an owner that may be shifted by.
\<close>

definition entry_safe :: "gpd_entry \<Rightarrow> bool" where
  "entry_safe e \<longleftrightarrow> unat (owner_node_id e) < 64 \<and> (state e = STATE_MODIFIED \<longrightarrow> owner_node_id e \<noteq> 0)"

definition gpd_safe :: "gpd \<Rightarrow> bool" where
  "gpd_safe g \<longleftrightarrow> list_all entry_safe g"

lemma entry_ok_safe: "entry_ok e \<Longrightarrow> entry_safe e"
  by (cases "state e") (auto simp: entry_ok_def entry_safe_def valid_node_def)

lemma gpd_inv_safe: "gpd_inv g \<Longrightarrow> gpd_safe g"
  by (auto simp: gpd_inv_def gpd_safe_def list_all_iff entry_ok_safe)

lemma gpd_safeD: "gpd_safe g \<Longrightarrow> i < length g \<Longrightarrow> entry_safe (g ! i)"
  by (simp add: gpd_safe_def list_all_length)

lemma gpd_safe_update: "gpd_safe g \<Longrightarrow> entry_safe e \<Longrightarrow> gpd_safe (g[i := e])"
  using set_update_subset_insert [of g i e] by (auto simp: gpd_safe_def list_all_iff)

lemma gpd_safe_bound: "gpd_safe g \<Longrightarrow> m \<in> gpd_holders g i \<Longrightarrow> m < 64"
  using gpd_safeD [of g i]
  by (cases "state (g ! i)")
    (auto simp: gpd_holders_def abs_entry_def entry_safe_def dest: nodes_of_bound split: if_splits)

lemma to_shared_safe:
  assumes "gpd_safe g" and "i < length g" and "valid_node n"
  shows "\<exists>e'. gpd_transition_to_shared g i n out = Inr (True, owner_node_id (g ! i), g[i := e']) \<and>
    entry_safe e' \<and> state e' = STATE_SHARED \<and>
    (entry_ok (g ! i) \<longrightarrow> abs_entry e' = dir_read (unat n) (abs_entry (g ! i)))"
proof -
  have n: "unat n < 64" using assms(3) by auto
  show ?thesis
    using gpd_safeD [OF assms(1,2)] assms(2) n
    by (cases "state (g ! i)")
      (auto simp: gpd_transition_to_shared_def Let_def entry_safe_def abs_entry_def entry_ok_def mask_simps
        intro!: exI)
qed

lemma to_modified_safe:
  assumes "gpd_safe g" and "i < length g" and "valid_node n"
  shows "\<exists>e' mask. gpd_transition_to_modified g i n out = Inr (True, mask, g[i := e']) \<and>
    entry_safe e' \<and> state e' = STATE_MODIFIED \<and> owner_node_id e' = n \<and>
    nodes_of mask = gpd_holders g i - {unat n}"
proof -
  have n: "unat n < 64" "n \<noteq> 0" using assms(3) by (auto simp: valid_node_def)
  show ?thesis
    using gpd_safeD [OF assms(1,2)] assms(2) n
    by (cases "state (g ! i)")
      (auto simp: gpd_transition_to_modified_def Let_def entry_safe_def gpd_holders_def abs_entry_def mask_simps
        intro!: exI)
qed

section \<open>Properties\<close>

text \<open>C9. A read transition implements the abstract read: the page becomes shared by its former
  holders and the reader, the old owner is reported to the caller, and no other entry changes.\<close>

theorem gpd_read_refines:
  assumes "gpd_inv g" and "i < length g" and "valid_node n"
  shows "\<exists>g'. gpd_transition_to_shared g i n out = Inr (True, owner_node_id (g ! i), g') \<and>
    gpd_inv g' \<and> map abs_entry g' = (map abs_entry g)[i := dir_read (unat n) (abs_entry (g ! i))]"
  using to_shared_step [OF assms, of out] assms
  by (auto simp: gpd_inv_update map_update)

theorem gpd_read_refines_witness:
  "\<exists>g'. gpd_transition_to_shared
       [\<lparr>state = STATE_MODIFIED, owner_node_id = 2, shared_nodes_bitmap = 0\<rparr>] 0 5 0 = Inr (True, 2, g') \<and>
     map abs_entry g' = [SharedBy {2, 5}]"
proof -
  let ?g = "[\<lparr>state = STATE_MODIFIED, owner_node_id = 2, shared_nodes_bitmap = 0\<rparr>]"
  have "gpd_inv ?g" by (simp add: gpd_inv_def entry_defs)
  then show ?thesis
    using gpd_read_refines [of ?g 0 5 0] by (auto simp: valid_node_def abs_entry_def insert_commute)
qed

text \<open>C8. A write transition implements the abstract write: the writer becomes the only holder, and
  the mask handed to the caller names every other node that held the page and nobody else.\<close>

theorem gpd_write_refines:
  assumes "gpd_inv g" and "i < length g" and "valid_node n"
  shows "\<exists>mask g'. gpd_transition_to_modified g i n out = Inr (True, mask, g') \<and> gpd_inv g' \<and>
    nodes_of mask = dir_holders (abs_entry (g ! i)) - {unat n} \<and>
    map abs_entry g' = (map abs_entry g)[i := dir_write (unat n) (abs_entry (g ! i))]"
  using to_modified_step [OF assms, of out] assms
  by (fastforce simp: gpd_inv_update map_update)

theorem gpd_write_refines_witness:
  "\<exists>mask g'. gpd_transition_to_modified
       [\<lparr>state = STATE_SHARED, owner_node_id = 0, shared_nodes_bitmap = 14\<rparr>] 0 2 0 = Inr (True, mask, g') \<and>
     nodes_of mask = nodes_of 14 - {2} \<and> map abs_entry g' = [OwnedBy 2]"
proof -
  let ?g = "[\<lparr>state = STATE_SHARED, owner_node_id = 0, shared_nodes_bitmap = 14\<rparr>]"
  have "gpd_inv ?g" by (simp add: gpd_inv_def entry_defs)
  then show ?thesis
    using gpd_write_refines [of ?g 0 2 0] by (auto simp: valid_node_def abs_entry_def)
qed

text \<open>C3. From \<open>gpd_init\<close> on, whatever requests valid nodes make, the copies that grants create and
  the returned invalidation masks destroy are exactly the holders the directory records, and a page
  in state \<open>STATE_MODIFIED\<close> has one copy in the cluster, its owner's: no copy is ever forgotten, and
  a writer is never granted a page that some other node still holds without an invalidation.\<close>

theorem gpd_no_forgotten_copy:
  assumes "gpd_init pages ok = Some g0" and "\<forall>r \<in> set requests. valid_node (request_node r)"
  shows "\<exists>g copies.
    dir_run gpd_transition_to_shared gpd_transition_to_modified requests g0 (\<lambda>_. {}) = Inr (g, copies) \<and>
    gpd_inv g \<and> length g = pages \<and> copies = gpd_holders g \<and>
    (\<forall>i owner. gpd_exclusive g i = Some owner \<longrightarrow> copies i = {owner})"
proof -
  have g0: "gpd_inv g0" "length g0 = pages" "gpd_holders g0 = (\<lambda>_. {})"
    using gpd_init_inv [OF assms(1)] gpd_init_holders [OF assms(1)] by auto
  obtain g copies where r: "dir_run gpd_transition_to_shared gpd_transition_to_modified requests g0
      (\<lambda>_. {}) = Inr (g, copies)" and g: "gpd_inv g" "length g = length g0" "gpd_holders g = copies"
    using directory.dir_run_tracks [OF g0(1) assms(2) g0(3)] by blast
  then show ?thesis
    using g0(2) directory.exclusive_holder [OF g(1)] by blast
qed

theorem gpd_no_forgotten_copy_witness:
  "\<exists>g. dir_run gpd_transition_to_shared gpd_transition_to_modified
     [WriteReq 0 2, ReadReq 0 1, WriteReq 0 3] (replicate 2 fresh_entry) (\<lambda>_. {}) = Inr (g, gpd_holders g)"
  using gpd_no_forgotten_copy [of 2 True "replicate 2 fresh_entry"
      "[WriteReq 0 2, ReadReq 0 1, WriteReq 0 3]"]
  by (auto simp: gpd_init_def valid_node_def)

end
