(* ===== verification/Wire.thy ===== *)
theory Wire
  imports Dsm_Prelude "HOL-Library.Sublist"
begin

text \<open>
  The wire protocol: the packed packet of \<^verbatim>\<open>network.h\<close> as 4109 bytes, the three loops that push
  bytes into a socket (\<^verbatim>\<open>network_engine.c\<close>, \<^verbatim>\<open>coordinator_sequencer.c\<close>, \<^verbatim>\<open>eviction.c\<close>), the loop
  that reads a fixed number of bytes, and the receive loop of a peer session, which puts the packets
  of a TCP stream together again. What the socket calls return is a list given to each loop.
\<close>

section \<open>Packets\<close>

definition MSG_REQUEST_PAGE_READ :: u8 where "MSG_REQUEST_PAGE_READ = 1"
definition MSG_REQUEST_PAGE_WRITE :: u8 where "MSG_REQUEST_PAGE_WRITE = 2"
definition MSG_SEND_PAGE :: u8 where "MSG_SEND_PAGE = 3"
definition MSG_NODE_JOIN :: u8 where "MSG_NODE_JOIN = 4"
definition MSG_INVALIDATE :: u8 where "MSG_INVALIDATE = 5"
definition MSG_INVALIDATE_ACK :: u8 where "MSG_INVALIDATE_ACK = 6"

lemmas msg_defs = MSG_REQUEST_PAGE_READ_def MSG_REQUEST_PAGE_WRITE_def MSG_SEND_PAGE_def
  MSG_NODE_JOIN_def MSG_INVALIDATE_def MSG_INVALIDATE_ACK_def

lemma msg_distinct [simp]:
  "MSG_REQUEST_PAGE_READ \<noteq> MSG_REQUEST_PAGE_WRITE" "MSG_REQUEST_PAGE_WRITE \<noteq> MSG_REQUEST_PAGE_READ"
  "MSG_REQUEST_PAGE_READ \<noteq> MSG_SEND_PAGE" "MSG_SEND_PAGE \<noteq> MSG_REQUEST_PAGE_READ"
  "MSG_REQUEST_PAGE_READ \<noteq> MSG_NODE_JOIN" "MSG_NODE_JOIN \<noteq> MSG_REQUEST_PAGE_READ"
  "MSG_REQUEST_PAGE_READ \<noteq> MSG_INVALIDATE" "MSG_INVALIDATE \<noteq> MSG_REQUEST_PAGE_READ"
  "MSG_REQUEST_PAGE_READ \<noteq> MSG_INVALIDATE_ACK" "MSG_INVALIDATE_ACK \<noteq> MSG_REQUEST_PAGE_READ"
  "MSG_REQUEST_PAGE_WRITE \<noteq> MSG_SEND_PAGE" "MSG_SEND_PAGE \<noteq> MSG_REQUEST_PAGE_WRITE"
  "MSG_REQUEST_PAGE_WRITE \<noteq> MSG_NODE_JOIN" "MSG_NODE_JOIN \<noteq> MSG_REQUEST_PAGE_WRITE"
  "MSG_REQUEST_PAGE_WRITE \<noteq> MSG_INVALIDATE" "MSG_INVALIDATE \<noteq> MSG_REQUEST_PAGE_WRITE"
  "MSG_REQUEST_PAGE_WRITE \<noteq> MSG_INVALIDATE_ACK" "MSG_INVALIDATE_ACK \<noteq> MSG_REQUEST_PAGE_WRITE"
  "MSG_SEND_PAGE \<noteq> MSG_NODE_JOIN" "MSG_NODE_JOIN \<noteq> MSG_SEND_PAGE"
  "MSG_SEND_PAGE \<noteq> MSG_INVALIDATE" "MSG_INVALIDATE \<noteq> MSG_SEND_PAGE"
  "MSG_SEND_PAGE \<noteq> MSG_INVALIDATE_ACK" "MSG_INVALIDATE_ACK \<noteq> MSG_SEND_PAGE"
  "MSG_NODE_JOIN \<noteq> MSG_INVALIDATE" "MSG_INVALIDATE \<noteq> MSG_NODE_JOIN"
  "MSG_NODE_JOIN \<noteq> MSG_INVALIDATE_ACK" "MSG_INVALIDATE_ACK \<noteq> MSG_NODE_JOIN"
  "MSG_INVALIDATE \<noteq> MSG_INVALIDATE_ACK" "MSG_INVALIDATE_ACK \<noteq> MSG_INVALIDATE"
  by (simp_all add: msg_defs)

record dsm_packet =
  pkt_type :: u8
  pkt_page_index :: u64
  pkt_sender_node_id :: u32
  pkt_payload :: page

text \<open>
  The struct is packed and sent as the bytes it has in memory; the hosts are little-endian. A packet
  is well formed when its payload has 4096 bytes, which the array type of the code ensures.
\<close>

definition PACKET_SIZE :: nat where
  "PACKET_SIZE = 4109"

definition packet_ok :: "dsm_packet \<Rightarrow> bool" where
  "packet_ok p \<longleftrightarrow> length (pkt_payload p) = page_bytes"

definition le_bytes :: "nat \<Rightarrow> 'a::len word \<Rightarrow> u8 list" where
  "le_bytes n w = map (\<lambda>i. ucast (drop_bit (8 * i) w)) [0..<n]"

fun le_word :: "u8 list \<Rightarrow> 'a::len word" where
  "le_word [] = 0"
| "le_word (b # bs) = ucast b OR push_bit 8 (le_word bs)"

definition encode_packet :: "dsm_packet \<Rightarrow> u8 list" where
  "encode_packet p =
     pkt_type p # le_bytes 8 (pkt_page_index p) @ le_bytes 4 (pkt_sender_node_id p) @ pkt_payload p"

definition decode_packet :: "u8 list \<Rightarrow> dsm_packet" where
  "decode_packet bs =
     \<lparr>pkt_type = hd bs, pkt_page_index = le_word (take 8 (drop 1 bs)),
      pkt_sender_node_id = le_word (take 4 (drop 9 bs)), pkt_payload = drop 13 bs\<rparr>"

section \<open>Sending: the three loops\<close>

text \<open>
  One \<open>send\<close>: it took so many bytes, it would block (with the answer of the \<open>poll\<close> that
  \<open>send_all_nonblocking\<close> then makes: writable within 100 ms or not), or it failed. The loops
  return the bytes that reached the socket and the C result; \<open>None\<close>: the list of answers ended
  while the loop still wanted to send.
\<close>

datatype send_result = Sent nat | WouldBlock bool | SendFailed

fun send_all_nonblocking :: "send_result list \<Rightarrow> u8 list \<Rightarrow> nat \<Rightarrow> (u8 list \<times> int) option" where
  "send_all_nonblocking answers buf total_sent =
     (if \<not> total_sent < length buf then Some ([], int total_sent)
      else case answers of
          [] \<Rightarrow> None
        | SendFailed # as \<Rightarrow> Some ([], - 1)
        | WouldBlock writable # as \<Rightarrow>
            (if \<not> writable then Some ([], - 1) else send_all_nonblocking as buf total_sent)
        | Sent n # as \<Rightarrow>
            map_option (\<lambda>(w, r). (take n (drop total_sent buf) @ w, r))
              (send_all_nonblocking as buf (total_sent + n)))"

fun send_packet_to_node :: "send_result list \<Rightarrow> u8 list \<Rightarrow> nat \<Rightarrow> (u8 list \<times> nat) option" where
  "send_packet_to_node answers buf total_sent =
     (if \<not> total_sent < length buf then Some ([], total_sent)
      else case answers of
          [] \<Rightarrow> None
        | Sent n # as \<Rightarrow>
            (if n > 0
             then map_option (\<lambda>(w, r). (take n (drop total_sent buf) @ w, r))
                    (send_packet_to_node as buf (total_sent + n))
             else Some ([], total_sent))
        | _ # as \<Rightarrow> Some ([], total_sent))"

fun send_all_bytes :: "send_result list \<Rightarrow> u8 list \<Rightarrow> nat \<Rightarrow> (u8 list \<times> int) option" where
  "send_all_bytes answers buf sent =
     (if \<not> sent < length buf then Some ([], 0)
      else case answers of
          [] \<Rightarrow> None
        | Sent n # as \<Rightarrow>
            (if n = 0 then Some ([], - 1)
             else map_option (\<lambda>(w, r). (take n (drop sent buf) @ w, r))
                    (send_all_bytes as buf (sent + n)))
        | _ # as \<Rightarrow> Some ([], - 1))"

declare send_all_nonblocking.simps [simp del] send_packet_to_node.simps [simp del]
  send_all_bytes.simps [simp del]

section \<open>Receiving\<close>

text \<open>One \<open>recv\<close>: a chunk of bytes, nothing for now, the end of the stream, or an error.\<close>

datatype recv_result = Chunk "u8 list" | RecvAgain | EndOfStream | RecvFailed

fun recv_all_bytes :: "recv_result list \<Rightarrow> nat \<Rightarrow> u8 list \<Rightarrow> (int \<times> u8 list) option" where
  "recv_all_bytes answers len got =
     (if \<not> length got < len then Some (0, got)
      else case answers of
          [] \<Rightarrow> None
        | Chunk bs # as \<Rightarrow> (if bs = [] then Some (- 1, got) else recv_all_bytes as len (got @ bs))
        | _ # as \<Rightarrow> Some (- 1, got))"

declare recv_all_bytes.simps [simp del]

text \<open>
  A peer session: the bytes of \<open>packet_buffer\<close> and how many of them have arrived. A chunk longer
  than the room asked for would write past the buffer.
\<close>

record peer_session =
  ps_fd :: int
  packet_buffer :: "u8 list"
  bytes_read :: nat

definition fresh_session :: "int \<Rightarrow> peer_session" where
  "fresh_session fd =
     \<lparr>ps_fd = fd, packet_buffer = replicate PACKET_SIZE 0, bytes_read = 0\<rparr>"

text \<open>
  The inner loop of the engine over a readable peer: \<open>dispatch\<close> stands for the handling of one
  complete packet. The result says whether the connection is to be closed; \<open>None\<close>: the answers
  ended first.
\<close>

fun recv_loop ::
  "('s \<Rightarrow> dsm_packet \<Rightarrow> 's comp) \<Rightarrow> recv_result list \<Rightarrow> peer_session \<Rightarrow> 's \<Rightarrow>
     (bool \<times> peer_session \<times> 's) option comp" where
  "recv_loop dispatch [] ses s = Inr None"
| "recv_loop dispatch (RecvAgain # as) ses s = Inr (Some (False, ses, s))"
| "recv_loop dispatch (RecvFailed # as) ses s = Inr (Some (True, ses, s))"
| "recv_loop dispatch (EndOfStream # as) ses s = Inr (Some (True, ses, s))"
| "recv_loop dispatch (Chunk bs # as) ses s =
     (let n = bytes_read ses + length bs;
          buf = take (bytes_read ses) (packet_buffer ses) @ bs @ drop n (packet_buffer ses) in
      if bs = [] then Inr (Some (True, ses, s))
      else if n > PACKET_SIZE then Inl BadIndex
      else if n = PACKET_SIZE then
        andthen (dispatch s (decode_packet buf)) (\<lambda>s'.
          recv_loop dispatch as (ses\<lparr>packet_buffer := replicate PACKET_SIZE 0, bytes_read := 0\<rparr>) s')
      else recv_loop dispatch as (ses\<lparr>packet_buffer := buf, bytes_read := n\<rparr>) s)"

section \<open>The packet codec\<close>

lemma bit_le_word:
  "bit (le_word bs :: 'a::len word) i \<longleftrightarrow>
     i < LENGTH('a) \<and> i div 8 < length bs \<and> bit (bs ! (i div 8)) (i mod 8)"
proof (induction bs arbitrary: i)
  case (Cons b bs)
  show ?case
  proof (cases "i < 8")
    case True
    then show ?thesis by (auto simp: bit_simps)
  next
    case False
    then obtain j where j: "i = j + 8" by (metis add.commute le_Suc_ex not_less)
    have "\<not> bit b (j + 8)" using bit_imp_le_length [of b "j + 8"] by auto
    moreover have "(j + 8) div 8 = Suc (j div 8)" by simp
    ultimately show ?thesis by (auto simp: j bit_simps Cons.IH)
  qed
qed simp

lemma length_le_bytes [simp]: "length (le_bytes n w) = n"
  by (simp add: le_bytes_def)

lemma le_word_le_bytes [simp]:
  fixes w :: "'a::len word"
  assumes "LENGTH('a) \<le> 8 * n"
  shows "le_word (le_bytes n w) = w"
proof (rule bit_word_eqI)
  fix i
  assume "i < LENGTH('a)"
  then have "i div 8 < n" using assms by (auto intro: less_mult_imp_div_less)
  then show "bit (le_word (le_bytes n w) :: 'a word) i = bit w i"
    using \<open>i < LENGTH('a)\<close> by (auto simp: bit_le_word le_bytes_def bit_simps)
qed

lemma le_bytes_le_word [simp]:
  assumes "length bs = n" and "8 * n \<le> LENGTH('a::len)"
  shows "le_bytes n (le_word bs :: 'a word) = bs"
proof (rule nth_equalityI)
  fix i
  assume "i < length (le_bytes n (le_word bs :: 'a word))"
  then have i: "i < length bs" using assms(1) by simp
  show "le_bytes n (le_word bs :: 'a word) ! i = bs ! i"
  proof (rule bit_word_eqI)
    fix k
    assume k: "k < LENGTH(8)"
    then have "8 * i + k < LENGTH('a)" using i assms by simp
    moreover have "(8 * i + k) div 8 = i" "(8 * i + k) mod 8 = k" using k by simp_all
    ultimately show "bit (le_bytes n (le_word bs :: 'a word) ! i) k = bit (bs ! i) k"
      using i k assms(1) by (simp add: le_bytes_def bit_simps bit_le_word)
  qed
qed (use assms in simp)

lemma length_encode_packet: "packet_ok p \<Longrightarrow> length (encode_packet p) = PACKET_SIZE"
  by (simp add: packet_ok_def encode_packet_def page_bytes_def PACKET_SIZE_def)

lemma decode_encode_packet: "decode_packet (encode_packet p) = p"
proof -
  let ?i = "le_bytes 8 (pkt_page_index p)" and ?n = "le_bytes 4 (pkt_sender_node_id p)"
  have "take 8 (drop 1 (encode_packet p)) = ?i" "take 4 (drop 9 (encode_packet p)) = ?n"
    "drop 13 (encode_packet p) = pkt_payload p"
    by (simp_all add: encode_packet_def drop_Cons')
  then show ?thesis
    by (simp add: decode_packet_def) (simp add: encode_packet_def)
qed

lemma encode_decode_packet: "length bs = PACKET_SIZE \<Longrightarrow> encode_packet (decode_packet bs) = bs"
proof -
  assume len: "length bs = PACKET_SIZE"
  have "drop 9 bs = take 4 (drop 9 bs) @ drop 13 bs"
    using append_take_drop_id [of 4 "drop 9 bs"] by simp
  moreover have "drop 1 bs = take 8 (drop 1 bs) @ drop 9 bs"
    using append_take_drop_id [of 8 "drop 1 bs"] by simp
  moreover have "bs = hd bs # drop 1 bs"
    using len by (cases bs) (simp_all add: PACKET_SIZE_def)
  ultimately have "bs = hd bs # take 8 (drop 1 bs) @ take 4 (drop 9 bs) @ drop 13 bs" by simp
  then show ?thesis
    using len by (simp add: encode_packet_def decode_packet_def PACKET_SIZE_def)
qed

lemma decode_packet_ok: "length bs = PACKET_SIZE \<Longrightarrow> packet_ok (decode_packet bs)"
  by (simp add: packet_ok_def decode_packet_def PACKET_SIZE_def page_bytes_def)

section \<open>Streams of frames\<close>

text \<open>
  What the receive loop makes of a byte stream: whole frames of \<open>w\<close> bytes, and the bytes left over.
\<close>

function frames :: "nat \<Rightarrow> 'b list \<Rightarrow> 'b list list \<times> 'b list" where
  "frames w bs =
     (if w = 0 \<or> length bs < w then ([], bs)
      else let (fs, rest) = frames w (drop w bs) in (take w bs # fs, rest))"
  by pat_completeness auto
termination
  by (relation "measure (\<lambda>(w, bs). length bs)") auto

declare frames.simps [simp del]

lemma frames_short: "length bs < w \<Longrightarrow> frames w bs = ([], bs)"
  by (simp add: frames.simps)

lemma frames_append:
  "0 < w \<Longrightarrow> length f = w \<Longrightarrow> frames w (f @ bs) = (let (fs, rest) = frames w bs in (f # fs, rest))"
  by (subst frames.simps) simp

text \<open>
  The contract of a codec whose frames all have one width, as the receive loop needs it.
\<close>

locale frame_codec =
  fixes enc :: "'p \<Rightarrow> 'b list"
    and dec :: "'b list \<Rightarrow> 'p"
    and ok :: "'p \<Rightarrow> bool"
    and width :: nat
  assumes width_pos: "0 < width"
    and enc_width: "ok p \<Longrightarrow> length (enc p) = width"
    and dec_enc: "ok p \<Longrightarrow> dec (enc p) = p"
    and enc_dec: "length bs = width \<Longrightarrow> enc (dec bs) = bs"
begin

lemma frames_of_packets:
  "\<forall>p \<in> set ps. ok p \<Longrightarrow> length rest < width \<Longrightarrow>
     frames width (concat (map enc ps) @ rest) = (map enc ps, rest)"
  using width_pos by (induction ps) (simp_all add: frames_short frames_append enc_width)

lemma map_dec_enc: "\<forall>p \<in> set ps. ok p \<Longrightarrow> map (dec \<circ> enc) ps = ps"
  by (simp add: map_idI dec_enc)

lemma enc_inj: "ok p \<Longrightarrow> ok q \<Longrightarrow> enc p = enc q \<Longrightarrow> p = q"
  using dec_enc by metis

end

interpretation packets: frame_codec encode_packet decode_packet packet_ok PACKET_SIZE
  by unfold_locales
    (simp_all add: length_encode_packet decode_encode_packet encode_decode_packet PACKET_SIZE_def)

text \<open>
  The contract the three send loops share: what reached the socket is a prefix of the buffer, and
  all of it exactly when the loop reports success.
\<close>

locale stream_sender =
  fixes send_loop :: "send_result list \<Rightarrow> u8 list \<Rightarrow> (u8 list \<times> 'r) option"
    and success :: "nat \<Rightarrow> 'r \<Rightarrow> bool"
  assumes sent_prefix: "send_loop answers buf = Some (w, r) \<Longrightarrow> prefix w buf"
    and sent_all: "send_loop answers buf = Some (w, r) \<Longrightarrow> success (length buf) r \<Longrightarrow> w = buf"
    and sent_part: "send_loop answers buf = Some (w, r) \<Longrightarrow> \<not> success (length buf) r \<Longrightarrow> w \<noteq> buf"
begin

lemma success_iff: "send_loop answers buf = Some (w, r) \<Longrightarrow> success (length buf) r \<longleftrightarrow> w = buf"
  using sent_all sent_part by blast

end

text \<open>A sender used for frames of one codec: the peer gets the packets back.\<close>

locale packet_link = stream_sender send_loop success + frame_codec enc dec ok width
  for send_loop :: "send_result list \<Rightarrow> u8 list \<Rightarrow> (u8 list \<times> 'r) option"
    and success :: "nat \<Rightarrow> 'r \<Rightarrow> bool"
    and enc :: "'p \<Rightarrow> u8 list" and dec ok width
begin

text \<open>
  After any number of packets sent with success and one that was not, the stream still carries the
  earlier packets, and its remaining bytes are fewer than a frame.
\<close>

lemma stream_after_failure:
  assumes "\<forall>p \<in> set ps. ok p" and "ok q" and "send_loop answers (enc q) = Some (w, r)"
    and "\<not> success (length (enc q)) r"
  shows "frames width (concat (map enc ps) @ w) = (map enc ps, w)"
proof -
  have "prefix w (enc q)" and "w \<noteq> enc q"
    using sent_prefix [OF assms(3)] sent_part [OF assms(3,4)] .
  then have "length w < length (enc q)"
    by (simp add: prefix_length_less prefix_order.less_le)
  then show ?thesis
    using assms(1,2) by (simp add: frames_of_packets enc_width)
qed

end

text \<open>One chunk sent, and the loop's result for the rest.\<close>

lemma chunk_then_rest:
  assumes "k < length buf"
  shows "prefix (take n (drop k buf) @ w) (drop k buf) \<longleftrightarrow> prefix w (drop (k + n) buf)"
    and "take n (drop k buf) @ w = drop k buf \<longleftrightarrow> w = drop (k + n) buf"
proof -
  have "drop k buf = take n (drop k buf) @ drop (k + n) buf"
    by (metis append_take_drop_id add.commute drop_drop)
  then show "prefix (take n (drop k buf) @ w) (drop k buf) \<longleftrightarrow> prefix w (drop (k + n) buf)"
    and "take n (drop k buf) @ w = drop k buf \<longleftrightarrow> w = drop (k + n) buf"
    by (metis same_prefix_prefix, metis same_append_eq)
qed

lemma send_all_nonblocking_sound:
  "send_all_nonblocking as buf k = Some (w, r) \<Longrightarrow>
     prefix w (drop k buf) \<and> (r \<noteq> - 1 \<longleftrightarrow> w = drop k buf)"
proof (induction as arbitrary: k w r)
  case Nil
  then show ?case by (subst (asm) send_all_nonblocking.simps) (auto split: if_splits)
next
  case (Cons a as)
  show ?case
  proof (cases "k < length buf")
    case True
    with Cons.prems show ?thesis
      by (subst (asm) send_all_nonblocking.simps)
        (auto split: send_result.splits if_splits simp: chunk_then_rest [OF True] dest: Cons.IH)
  next
    case False
    with Cons.prems show ?thesis by (subst (asm) send_all_nonblocking.simps) auto
  qed
qed

lemma send_packet_to_node_sound:
  "send_packet_to_node as buf k = Some (w, r) \<Longrightarrow>
     prefix w (drop k buf) \<and> (length buf \<le> r \<longleftrightarrow> w = drop k buf)"
proof (induction as arbitrary: k w r)
  case Nil
  then show ?case by (subst (asm) send_packet_to_node.simps) (auto split: if_splits)
next
  case (Cons a as)
  show ?case
  proof (cases "k < length buf")
    case True
    with Cons.prems show ?thesis
      by (subst (asm) send_packet_to_node.simps)
        (auto split: send_result.splits if_splits simp: chunk_then_rest [OF True] dest: Cons.IH)
  next
    case False
    with Cons.prems show ?thesis by (subst (asm) send_packet_to_node.simps) auto
  qed
qed

lemma send_all_bytes_sound:
  "send_all_bytes as buf k = Some (w, r) \<Longrightarrow>
     prefix w (drop k buf) \<and> (r = 0 \<longleftrightarrow> w = drop k buf)"
proof (induction as arbitrary: k w r)
  case Nil
  then show ?case by (subst (asm) send_all_bytes.simps) (auto split: if_splits)
next
  case (Cons a as)
  show ?case
  proof (cases "k < length buf")
    case True
    with Cons.prems show ?thesis
      by (subst (asm) send_all_bytes.simps)
        (auto split: send_result.splits if_splits simp: chunk_then_rest [OF True] dest: Cons.IH)
  next
    case False
    with Cons.prems show ?thesis by (subst (asm) send_all_bytes.simps) auto
  qed
qed

interpretation engine_link: packet_link
  "\<lambda>as buf. send_all_nonblocking as buf 0" "\<lambda>n r. r \<noteq> - 1"
  encode_packet decode_packet packet_ok PACKET_SIZE
  by unfold_locales (use send_all_nonblocking_sound [where k = 0] in \<open>fastforce simp:
      length_encode_packet decode_encode_packet encode_decode_packet PACKET_SIZE_def\<close>)+

interpretation sequencer_link: packet_link
  "\<lambda>as buf. send_packet_to_node as buf 0" "\<lambda>n r. n \<le> r"
  encode_packet decode_packet packet_ok PACKET_SIZE
  by unfold_locales (use send_packet_to_node_sound [where k = 0] in \<open>fastforce simp:
      length_encode_packet decode_encode_packet encode_decode_packet PACKET_SIZE_def\<close>)+

interpretation eviction_link: packet_link
  "\<lambda>as buf. send_all_bytes as buf 0" "\<lambda>n r. r = 0"
  encode_packet decode_packet packet_ok PACKET_SIZE
  by unfold_locales (use send_all_bytes_sound [where k = 0] in \<open>fastforce simp:
      length_encode_packet decode_encode_packet encode_decode_packet PACKET_SIZE_def\<close>)+

section \<open>The receive loop\<close>

fun dispatch_all :: "('s \<Rightarrow> 'p \<Rightarrow> 's comp) \<Rightarrow> 's \<Rightarrow> 'p list \<Rightarrow> 's comp" where
  "dispatch_all dispatch s [] = Inr s"
| "dispatch_all dispatch s (p # ps) = andthen (dispatch s p) (\<lambda>s'. dispatch_all dispatch s' ps)"

definition session_inv :: "peer_session \<Rightarrow> bool" where
  "session_inv ses \<longleftrightarrow> length (packet_buffer ses) = PACKET_SIZE \<and> bytes_read ses < PACKET_SIZE"

definition received :: "peer_session \<Rightarrow> u8 list" where
  "received ses = take (bytes_read ses) (packet_buffer ses)"

text \<open>
  What \<open>recv\<close> promises: chunks are not empty and no longer than the room asked for, which is what
  the frame under way still lacks.
\<close>

fun chunks_fit :: "nat \<Rightarrow> u8 list list \<Rightarrow> bool" where
  "chunks_fit n [] = True"
| "chunks_fit n (c # cs) =
     (c \<noteq> [] \<and> n + length c \<le> PACKET_SIZE \<and>
      chunks_fit (if n + length c = PACKET_SIZE then 0 else n + length c) cs)"

fun ends_loop :: "recv_result \<Rightarrow> bool \<Rightarrow> bool" where
  "ends_loop RecvAgain closed = (\<not> closed)"
| "ends_loop EndOfStream closed = closed"
| "ends_loop RecvFailed closed = closed"
| "ends_loop (Chunk c) closed = False"

lemma fresh_session_inv [simp]: "session_inv (fresh_session fd)" "received (fresh_session fd) = []"
  by (simp_all add: session_inv_def fresh_session_def received_def PACKET_SIZE_def)

lemma length_received: "session_inv ses \<Longrightarrow> length (received ses) = bytes_read ses"
  by (simp add: session_inv_def received_def)

lemma recv_loop_frames:
  assumes "ends_loop stop closed"
  shows "session_inv ses \<Longrightarrow> chunks_fit (bytes_read ses) cs \<Longrightarrow>
    frames PACKET_SIZE (received ses @ concat cs) = (fs, rest) \<Longrightarrow>
    (case dispatch_all dispatch s (map decode_packet fs) of
       Inl e \<Rightarrow> recv_loop dispatch (map Chunk cs @ [stop]) ses s = Inl e
     | Inr s' \<Rightarrow> \<exists>ses'. recv_loop dispatch (map Chunk cs @ [stop]) ses s = Inr (Some (closed, ses', s')) \<and>
         session_inv ses' \<and> received ses' = rest \<and> ps_fd ses' = ps_fd ses)"
proof (induction cs arbitrary: ses s fs rest)
  case Nil
  then have "fs = []" "rest = received ses"
    using frames_short [of "received ses" PACKET_SIZE]
    by (auto simp: length_received session_inv_def)
  with Nil show ?case using assms by (cases stop) auto
next
  case (Cons c cs)
  let ?n = "bytes_read ses + length c"
  let ?buf = "take (bytes_read ses) (packet_buffer ses) @ c @ drop ?n (packet_buffer ses)"
  have fit: "c \<noteq> []" "?n \<le> PACKET_SIZE"
    "chunks_fit (if ?n = PACKET_SIZE then 0 else ?n) cs"
    using Cons.prems(2) by auto
  have inv: "length (packet_buffer ses) = PACKET_SIZE" "bytes_read ses < PACKET_SIZE"
    using Cons.prems(1) by (auto simp: session_inv_def)
  show ?case
  proof (cases "?n = PACKET_SIZE")
    case True
    let ?ses = "ses\<lparr>packet_buffer := replicate PACKET_SIZE 0, bytes_read := 0\<rparr>"
    have buf: "?buf = received ses @ c" using True inv by (simp add: received_def)
    have "length (received ses @ c) = PACKET_SIZE"
      using True length_received [OF Cons.prems(1)] by simp
    then obtain fs' where fs: "fs = (received ses @ c) # fs'"
      and fr: "frames PACKET_SIZE (concat cs) = (fs', rest)"
      using Cons.prems(3) frames_append [of PACKET_SIZE "received ses @ c" "concat cs"]
      by (auto simp: PACKET_SIZE_def split: prod.splits)
    have ses: "session_inv ?ses" "received ?ses = []" "bytes_read ?ses = 0"
      by (simp_all add: session_inv_def received_def PACKET_SIZE_def)
    have step: "recv_loop dispatch (map Chunk (c # cs) @ [stop]) ses s =
        andthen (dispatch s (decode_packet (received ses @ c)))
          (\<lambda>s'. recv_loop dispatch (map Chunk cs @ [stop]) ?ses s')"
      using True fit buf by (simp add: Let_def)
    show ?thesis
    proof (cases "dispatch s (decode_packet (received ses @ c))")
      case (Inr s1)
      then show ?thesis
        using Cons.IH [OF ses(1), of fs' rest s1] True fit fr ses(2,3)
        unfolding step by (simp add: fs split: sum.splits)
    qed (unfold step, simp add: fs)
  next
    case False
    let ?ses = "ses\<lparr>packet_buffer := ?buf, bytes_read := ?n\<rparr>"
    have ses: "session_inv ?ses" "received ?ses = received ses @ c" "bytes_read ?ses = ?n"
      using False fit inv by (auto simp: session_inv_def received_def)
    have "recv_loop dispatch (map Chunk (c # cs) @ [stop]) ses s =
        recv_loop dispatch (map Chunk cs @ [stop]) ?ses s"
      using False fit by (simp add: Let_def)
    then show ?thesis
      using Cons.IH [OF ses(1), of fs rest s] False fit Cons.prems(3) ses(2,3)
      by (simp split: sum.splits)
  qed
qed

section \<open>Properties\<close>

text \<open>C10. Framing over TCP: whatever sizes the chunks of the stream have, the packets dispatched are
  exactly the packets that were encoded, in order and each once, and the bytes of an unfinished packet
  stay in the session for the next time.\<close>

theorem stream_reassembly:
  assumes "\<forall>p \<in> set packets. packet_ok p" and "length rest < PACKET_SIZE"
    and "concat chunks = concat (map encode_packet packets) @ rest" and "chunks_fit 0 chunks"
    and "ends_loop stop closed" and "dispatch_all dispatch s packets = Inr s'"
  shows "\<exists>ses'. recv_loop dispatch (map Chunk chunks @ [stop]) (fresh_session fd) s =
      Inr (Some (closed, ses', s')) \<and> received ses' = rest \<and> session_inv ses'"
proof -
  have "frames PACKET_SIZE (received (fresh_session fd) @ concat chunks) = (map encode_packet packets, rest)"
    using packets.frames_of_packets [OF assms(1,2)] assms(3) by simp
  moreover have "chunks_fit (bytes_read (fresh_session fd)) chunks"
    using assms(4) by (simp add: fresh_session_def)
  moreover have "map decode_packet (map encode_packet packets) = packets"
    using packets.map_dec_enc [OF assms(1)] by simp
  ultimately show ?thesis
    using recv_loop_frames [OF assms(5) fresh_session_inv(1), of fd chunks _ rest dispatch s]
      assms(6) by fastforce
qed

definition blank_packet :: dsm_packet where
  "blank_packet = \<lparr>pkt_type = MSG_NODE_JOIN, pkt_page_index = 0, pkt_sender_node_id = 2,
     pkt_payload = zero_page\<rparr>"

theorem stream_reassembly_witness:
  "\<exists>ses'. recv_loop (\<lambda>ids p. Inr (ids @ [pkt_sender_node_id p]))
      (map Chunk [take 100 (encode_packet blank_packet), drop 100 (encode_packet blank_packet), [3]] @ [RecvAgain])
      (fresh_session 7) [] = Inr (Some (False, ses', [2])) \<and> received ses' = [3]"
proof -
  have ok: "packet_ok blank_packet" by (simp add: packet_ok_def blank_packet_def)
  have len: "length (encode_packet blank_packet) = 4109"
    using length_encode_packet [OF ok] by (simp add: PACKET_SIZE_def)
  let ?cs = "[take 100 (encode_packet blank_packet), drop 100 (encode_packet blank_packet), [3]]"
  let ?d = "\<lambda>ids p. Inr (ids @ [pkt_sender_node_id p])"
  have "encode_packet blank_packet \<noteq> []" using len by auto
  then have "chunks_fit 0 ?cs" using len by (simp add: PACKET_SIZE_def)
  moreover have "dispatch_all ?d [] [blank_packet] = Inr [2]" by (simp add: blank_packet_def)
  moreover have "concat ?cs = concat (map encode_packet [blank_packet]) @ [3]" by simp
  moreover have "\<forall>p \<in> set [blank_packet]. packet_ok p" "length [3 :: u8] < PACKET_SIZE"
    "ends_loop RecvAgain False"
    using ok by (simp_all add: PACKET_SIZE_def)
  ultimately have "\<exists>ses'. recv_loop ?d (map Chunk ?cs @ [RecvAgain]) (fresh_session 7) [] =
      Inr (Some (False, ses', [2])) \<and> received ses' = [3] \<and> session_inv ses'"
    by (intro stream_reassembly)
  then show ?thesis by blast
qed

text \<open>A packet is its 4109 bytes: decoding inverts encoding, and every 4109 bytes that arrive
  are the encoding of the packet they are read as.\<close>

lemma packet_roundtrip:
  "decode_packet (encode_packet p) = p \<and>
   (packet_ok p \<longrightarrow> length (encode_packet p) = PACKET_SIZE) \<and>
   (length bs = PACKET_SIZE \<longrightarrow> packet_ok (decode_packet bs) \<and> encode_packet (decode_packet bs) = bs)"
  by (simp add: decode_encode_packet length_encode_packet encode_decode_packet decode_packet_ok)

lemma packet_roundtrip_instance:
  "decode_packet (encode_packet blank_packet) = blank_packet \<and>
   length (encode_packet blank_packet) = 4109 \<and>
   encode_packet (decode_packet (replicate 4109 7)) = replicate 4109 7"
proof -
  have "packet_ok blank_packet" "length (replicate 4109 (7 :: u8)) = PACKET_SIZE"
    by (simp_all add: packet_ok_def blank_packet_def PACKET_SIZE_def)
  then show ?thesis
    using packet_roundtrip [of blank_packet "replicate 4109 7"] by (simp add: PACKET_SIZE_def)
qed

text \<open>C30. When \<open>send_all_nonblocking\<close> reports failure for a packet, the packets sent before it are intact in
  the stream, and what is left behind them is a beginning of the packet that is shorter than the whole,
  possibly empty: the stream holds no whole frame beyond those packets.\<close>

theorem failed_send_leaves_partial_frame:
  assumes "\<forall>p \<in> set sent. packet_ok p" and "packet_ok q"
    and "send_all_nonblocking answers (encode_packet q) 0 = Some (w, - 1)"
  shows "frames PACKET_SIZE (concat (map encode_packet sent) @ w) = (map encode_packet sent, w) \<and>
    strict_prefix w (encode_packet q)"
  using engine_link.stream_after_failure [OF assms] engine_link.sent_prefix [OF assms(3)]
    engine_link.sent_part [OF assms(3)] by (simp add: strict_prefix_def)

theorem failed_send_leaves_partial_frame_witness:
  "send_all_nonblocking [Sent 10, WouldBlock True, WouldBlock False] (encode_packet blank_packet) 0 =
     Some (take 10 (encode_packet blank_packet), - 1) \<and>
   frames PACKET_SIZE (concat (map encode_packet [blank_packet]) @ take 10 (encode_packet blank_packet)) =
     (map encode_packet [blank_packet], take 10 (encode_packet blank_packet)) \<and>
   strict_prefix (take 10 (encode_packet blank_packet)) (encode_packet blank_packet)"
proof -
  have ok: "packet_ok blank_packet" by (simp add: packet_ok_def blank_packet_def)
  have len: "length (encode_packet blank_packet) = 4109"
    using length_encode_packet [OF ok] by (simp add: PACKET_SIZE_def)
  have failed: "send_all_nonblocking [Sent 10, WouldBlock True, WouldBlock False] (encode_packet blank_packet) 0 =
      Some (take 10 (encode_packet blank_packet), - 1)"
    using len by (simp add: send_all_nonblocking.simps)
  then show ?thesis
    using failed_send_leaves_partial_frame [OF _ ok failed, of "[blank_packet]"] ok by simp
qed

end
