(* ===== verification/Uffd_Kernel.thy ===== *)
theory Uffd_Kernel
  imports Dsm_Prelude
begin

text \<open>
  The memory of the shared region belongs to the kernel: the code changes it with the ioctls of
  userfaultfd and with \<open>madvise\<close>. These calls are not code of the repository, so they are a
  parameter of the model: a record of functions over an unknown memory type. \<open>kernel_ok\<close> states
  what their documentation promises and is a hypothesis of the theorems that need it; \<open>map_kernel\<close>
  is a concrete memory for which it holds.
\<close>

text \<open>
  \<open>UFFDIO_COPY\<close> succeeds, fails with \<open>EEXIST\<close> because the page is present, or fails otherwise. The code
  looks at \<open>EEXIST\<close> only; \<open>kernel_ok\<close> describes a kernel in which nothing else goes wrong (no \<open>ENOMEM\<close> or
  \<open>EAGAIN\<close>), and \<open>failed_copy_marks_valid\<close> says what the code makes of such a failure.
\<close>

datatype copy_result = CopyOk | CopyExists | CopyFailed

text \<open>
  Per page, named by its base address: is it present, is it write-protected, its bytes, and the
  effects of \<open>UFFDIO_COPY\<close>, \<open>madvise(MADV_DONTNEED)\<close> and \<open>UFFDIO_WRITEPROTECT\<close> (with the
  mode bit \<open>UFFDIO_WRITEPROTECT_MODE_WP\<close> as a boolean).
\<close>

record 'm kernel =
  k_mapped :: "'m \<Rightarrow> u64 \<Rightarrow> bool"
  k_protected :: "'m \<Rightarrow> u64 \<Rightarrow> bool"
  k_bytes :: "'m \<Rightarrow> u64 \<Rightarrow> page"
  k_copy :: "'m \<Rightarrow> u64 \<Rightarrow> page \<Rightarrow> copy_result \<times> 'm"
  k_dontneed :: "'m \<Rightarrow> u64 \<Rightarrow> 'm"
  k_writeprotect :: "'m \<Rightarrow> u64 \<Rightarrow> bool \<Rightarrow> 'm"

text \<open>What user space can see of one page.\<close>

definition view :: "'m kernel \<Rightarrow> 'm \<Rightarrow> u64 \<Rightarrow> (page \<times> bool) option" where
  "view K m a = (if k_mapped K m a then Some (k_bytes K m a, k_protected K m a) else None)"

definition kernel_ok :: "'m kernel \<Rightarrow> bool" where
  "kernel_ok K \<longleftrightarrow>
     (\<forall>m a p. \<not> k_mapped K m a \<longrightarrow>
        fst (k_copy K m a p) = CopyOk \<and>
        view K (snd (k_copy K m a p)) = (view K m)(a \<mapsto> (p, False))) \<and>
     (\<forall>m a p. k_mapped K m a \<longrightarrow> k_copy K m a p = (CopyExists, m)) \<and>
     (\<forall>m a. view K (k_dontneed K m a) = (view K m)(a := None)) \<and>
     (\<forall>m a wp. view K (k_writeprotect K m a wp) =
        (view K m)(a := map_option (\<lambda>(p, _). (p, wp)) (view K m a)))"

text \<open>Reading a page from C: the thread is suspended when the page is not there.\<close>

definition load_page :: "'m kernel \<Rightarrow> 'm \<Rightarrow> u64 \<Rightarrow> page comp" where
  "load_page K m a = (if k_mapped K m a then Inr (k_bytes K m a) else Inl Suspended)"

definition map_kernel :: "(u64 \<Rightarrow> (page \<times> bool) option) kernel" where
  "map_kernel =
     \<lparr>k_mapped = \<lambda>m a. m a \<noteq> None,
      k_protected = \<lambda>m a. (case m a of None \<Rightarrow> False | Some (p, wp) \<Rightarrow> wp),
      k_bytes = \<lambda>m a. (case m a of None \<Rightarrow> zero_page | Some (p, wp) \<Rightarrow> p),
      k_copy = \<lambda>m a p. (if m a = None then (CopyOk, m(a \<mapsto> (p, False))) else (CopyExists, m)),
      k_dontneed = \<lambda>m a. m(a := None),
      k_writeprotect = \<lambda>m a wp. m(a := map_option (\<lambda>(p, _). (p, wp)) (m a))\<rparr>"

lemma map_kernel_view [simp]: "view map_kernel m = m"
  by (auto simp: view_def map_kernel_def fun_eq_iff split: option.splits)

lemma map_kernel_ok [simp]: "kernel_ok map_kernel"
proof -
  have "k_mapped map_kernel m a \<longleftrightarrow> m a \<noteq> None" for m a
    by (simp add: map_kernel_def)
  then show ?thesis
    by (simp add: kernel_ok_def) (simp add: map_kernel_def)
qed

lemma view_None_iff: "view K m a = None \<longleftrightarrow> \<not> k_mapped K m a"
  by (simp add: view_def)

lemma load_page_view: "load_page K m a = (case view K m a of None \<Rightarrow> Inl Suspended | Some (p, _) \<Rightarrow> Inr p)"
  by (simp add: load_page_def view_def)

lemma view_dontneed [simp]: "kernel_ok K \<Longrightarrow> view K (k_dontneed K m a) = (view K m)(a := None)"
  unfolding kernel_ok_def by blast

lemma view_writeprotect [simp]:
  "kernel_ok K \<Longrightarrow> view K (k_writeprotect K m a wp) =
     (view K m)(a := map_option (\<lambda>(p, _). (p, wp)) (view K m a))"
  unfolding kernel_ok_def by blast

lemma k_copy_present: "kernel_ok K \<Longrightarrow> view K m a \<noteq> None \<Longrightarrow> k_copy K m a p = (CopyExists, m)"
  unfolding kernel_ok_def view_None_iff by blast

lemma k_copy_absent:
  "kernel_ok K \<Longrightarrow> view K m a = None \<Longrightarrow>
     fst (k_copy K m a p) = CopyOk \<and> view K (snd (k_copy K m a p)) = (view K m)(a \<mapsto> (p, False))"
  unfolding kernel_ok_def view_None_iff by blast

end
