(* ===== verification/Eviction.thy ===== *)
theory Eviction
  imports Gpd Wire Uffd_Kernel
begin

text \<open>
  The eviction ring of \<^verbatim>\<open>eviction.c\<close> (its types are in \<^verbatim>\<open>dsm_core.h\<close>): the second-chance clock
  over the local pages, the local view of the directory, the write-back of a modified victim, and the
  release of its memory. A call of \<open>dsm_execute_eviction\<close> runs under \<open>clock_hand_mutex\<close>.
\<close>

section \<open>State\<close>

record local_page_tracker =
  lp_base_addr :: u64
  lp_page_index :: u64
  lp_status :: u8
  lp_access_bit :: u8

text \<open>
  What a call of the eviction thread works on: the ring (the null pointer before
  \<open>dsm_init_eviction_ring\<close> is the empty list), the clock hand, the directory of this process, the
  memory of the region, and the bytes written to \<open>network_fd\<close>.
\<close>

record 'm eviction =
  ev_ring :: "local_page_tracker list"
  clock_hand :: nat
  ev_gpd :: gpd
  ev_mem :: 'm
  ev_wire :: "u8 list"

definition init_eviction_ring :: "u64 \<Rightarrow> u64 \<Rightarrow> nat \<Rightarrow> local_page_tracker list" where
  "init_eviction_ring region page_size num_pages =
     map (\<lambda>i. \<lparr>lp_base_addr = region + of_nat i * page_size, lp_page_index = of_nat i,
               lp_status = 1, lp_access_bit = 0\<rparr>) [0..<num_pages]"

definition dsm_init_eviction_ring ::
  "local_page_tracker list \<Rightarrow> 'm eviction \<Rightarrow> 'm eviction" where
  "dsm_init_eviction_ring pages w = w\<lparr>ev_ring := pages, clock_hand := 0\<rparr>"

definition dsm_mark_accessed :: "u64 \<Rightarrow> local_page_tracker list \<Rightarrow> local_page_tracker list" where
  "dsm_mark_accessed page_index ring =
     (if unat page_index < length ring
      then ring[unat page_index := (ring ! unat page_index)\<lparr>lp_access_bit := 1\<rparr>]
      else ring)"

section \<open>The local view of the directory\<close>

definition get_local_msi_state :: "u32 \<Rightarrow> gpd \<Rightarrow> u64 \<Rightarrow> msi_state comp" where
  "get_local_msi_state eviction_node_id g idx =
     (if unat idx \<ge> length g then Inr STATE_INVALID
      else andthen (gpd_get_state g (unat idx)) (\<lambda>global_state.
        if global_state = STATE_INVALID then Inr STATE_INVALID
        else if global_state = STATE_MODIFIED then
          andthen (gpd_get_owner g (unat idx)) (\<lambda>owner.
            Inr (if owner = eviction_node_id then STATE_MODIFIED else STATE_INVALID))
        else
          andthen (gpd_get_shared_mask g (unat idx)) (\<lambda>msk.
          andthen (shl1 eviction_node_id) (\<lambda>own_bit.
            Inr (if msk AND own_bit \<noteq> 0 then STATE_SHARED else STATE_INVALID)))))"

definition set_local_msi_state :: "u32 \<Rightarrow> gpd \<Rightarrow> u64 \<Rightarrow> msi_state \<Rightarrow> gpd comp" where
  "set_local_msi_state eviction_node_id g idx st =
     (if unat idx \<ge> length g then Inr g
      else
        let entry = (g ! unat idx)\<lparr>state := st\<rparr> in
        if st = STATE_INVALID then
          andthen (shl1 eviction_node_id) (\<lambda>own_bit.
            Inr (g[unat idx := entry\<lparr>
                shared_nodes_bitmap := shared_nodes_bitmap entry AND NOT own_bit,
                owner_node_id := (if owner_node_id entry = eviction_node_id then 0
                                  else owner_node_id entry)\<rparr>]))
        else Inr (g[unat idx := entry]))"

section \<open>Evicting one page\<close>

text \<open>
  The results of \<open>send_all_bytes\<close> and of the \<open>recv_all_bytes\<close> of the one-byte acknowledgement are
  computed from the socket answers given; when these run out the thread is still in the call.
\<close>

definition write_back ::
  "send_result list \<Rightarrow> recv_result list \<Rightarrow> dsm_packet \<Rightarrow> u8 list \<Rightarrow> u8 list comp" where
  "write_back sends recvs pkt wire =
     (case send_all_bytes sends (encode_packet pkt) 0 of
        None \<Rightarrow> Inl Suspended
      | Some (w, r) \<Rightarrow>
          (if r = 0 then
             (case recv_all_bytes recvs 1 [] of None \<Rightarrow> Inl Suspended | Some _ \<Rightarrow> Inr (wire @ w))
           else Inr (wire @ w)))"

definition writeback_packet :: "u32 \<Rightarrow> u64 \<Rightarrow> page \<Rightarrow> dsm_packet" where
  "writeback_packet node_id idx bytes =
     \<lparr>pkt_type = MSG_SEND_PAGE, pkt_page_index = idx, pkt_sender_node_id = node_id,
      pkt_payload = bytes\<rparr>"

definition evict_victim ::
  "'m kernel \<Rightarrow> send_result list \<Rightarrow> recv_result list \<Rightarrow> u32 \<Rightarrow> nat \<Rightarrow> 'm eviction \<Rightarrow> 'm eviction comp"
where
  "evict_victim K sends recvs node_id i w =
     (let victim = ev_ring w ! i in
      andthen (get_local_msi_state node_id (ev_gpd w) (lp_page_index victim)) (\<lambda>current_state.
      andthen
        (if current_state = STATE_MODIFIED then
           andthen (load_page K (ev_mem w) (lp_base_addr victim)) (\<lambda>bytes.
             write_back sends recvs (writeback_packet node_id (lp_page_index victim) bytes) (ev_wire w))
         else Inr (ev_wire w)) (\<lambda>wire.
      andthen (set_local_msi_state node_id (ev_gpd w) (lp_page_index victim) STATE_INVALID) (\<lambda>g.
        Inr (w\<lparr>ev_wire := wire, ev_mem := k_dontneed K (ev_mem w) (lp_base_addr victim),
               ev_ring := (ev_ring w)[i := victim\<lparr>lp_status := 0\<rparr>], ev_gpd := g\<rparr>)))))"

text \<open>
  The sweep, with the iterations that are left; \<open>busy k i\<close> says whether \<open>pthread_mutex_trylock\<close>
  fails on page \<open>i\<close> when \<open>k\<close> iterations are left after this one.
\<close>

fun evict_loop ::
  "'m kernel \<Rightarrow> send_result list \<Rightarrow> recv_result list \<Rightarrow> u32 \<Rightarrow> (nat \<Rightarrow> nat \<Rightarrow> bool) \<Rightarrow> nat \<Rightarrow>
     'm eviction \<Rightarrow> (int \<times> 'm eviction) comp"
where
  "evict_loop K sends recvs node_id busy 0 w = Inr (- 1, w)"
| "evict_loop K sends recvs node_id busy (Suc k) w =
     (let i = clock_hand w; w1 = w\<lparr>clock_hand := (clock_hand w + 1) mod length (ev_ring w)\<rparr> in
      if i \<ge> length (ev_ring w) then Inl BadIndex
      else if busy k i then evict_loop K sends recvs node_id busy k w1
      else if lp_access_bit (ev_ring w ! i) = 1 then
        evict_loop K sends recvs node_id busy k
          (w1\<lparr>ev_ring := (ev_ring w)[i := (ev_ring w ! i)\<lparr>lp_access_bit := 0\<rparr>]\<rparr>)
      else if lp_status (ev_ring w ! i) = 0 then evict_loop K sends recvs node_id busy k w1
      else andthen (evict_victim K sends recvs node_id i w1) (\<lambda>w2. Inr (0, w2)))"

definition dsm_execute_eviction ::
  "'m kernel \<Rightarrow> send_result list \<Rightarrow> recv_result list \<Rightarrow> u32 \<Rightarrow> (nat \<Rightarrow> nat \<Rightarrow> bool) \<Rightarrow> 'm eviction \<Rightarrow>
     (int \<times> 'm eviction) comp"
where
  "dsm_execute_eviction K sends recvs node_id busy w =
     (if ev_ring w = [] then Inr (- 1, w)
      else evict_loop K sends recvs node_id busy (length (ev_ring w) * 2) w)"

section \<open>The clock\<close>

definition resident :: "local_page_tracker \<Rightarrow> bool" where
  "resident p \<longleftrightarrow> lp_status p \<noteq> 0"

definition candidate :: "local_page_tracker \<Rightarrow> bool" where
  "candidate p \<longleftrightarrow> resident p \<and> lp_access_bit p \<noteq> 1"

definition clear_access :: "local_page_tracker \<Rightarrow> local_page_tracker" where
  "clear_access p = (if lp_access_bit p = 1 then p\<lparr>lp_access_bit := 0\<rparr> else p)"

text \<open>The pages in the order of the hand, and the victim of the second-chance rule.\<close>

definition clock_order :: "nat \<Rightarrow> nat \<Rightarrow> nat list" where
  "clock_order n hand = map (\<lambda>k. (hand + k) mod n) [0..<n]"

definition clock_victim :: "local_page_tracker list \<Rightarrow> nat \<Rightarrow> nat option" where
  "clock_victim ring hand =
     (case find (\<lambda>i. candidate (ring ! i)) (clock_order (length ring) hand) of
        Some i \<Rightarrow> Some i
      | None \<Rightarrow> find (\<lambda>i. resident (ring ! i)) (clock_order (length ring) hand))"

text \<open>The ring after the hand has passed its first \<open>d\<close> pages without a victim.\<close>

definition swept :: "nat \<Rightarrow> nat \<Rightarrow> local_page_tracker list \<Rightarrow> local_page_tracker list" where
  "swept hand d ring =
     map (\<lambda>i. if \<exists>k < d. i = (hand + k) mod length ring then clear_access (ring ! i) else ring ! i)
       [0..<length ring]"

lemma length_swept [simp]: "length (swept hand d ring) = length ring"
  by (simp add: swept_def)

lemma swept_nth_cases:
  "i < length ring \<Longrightarrow> swept hand d ring ! i = ring ! i \<or> swept hand d ring ! i = clear_access (ring ! i)"
  by (simp add: swept_def)

lemma clear_access_simps [simp]:
  "lp_status (clear_access p) = lp_status p" "lp_base_addr (clear_access p) = lp_base_addr p"
  "lp_page_index (clear_access p) = lp_page_index p" "lp_access_bit (clear_access p) \<noteq> 1"
  "resident (clear_access p) = resident p" "candidate (clear_access p) = resident p"
  "clear_access (clear_access p) = clear_access p"
  by (auto simp: clear_access_def resident_def candidate_def)

lemma swept_0 [simp]: "swept hand 0 ring = ring"
  by (simp add: swept_def map_nth)

lemma swept_Suc:
  assumes "ring \<noteq> []"
  shows "swept hand (Suc d) ring =
    (swept hand d ring)[(hand + d) mod length ring :=
       clear_access (swept hand d ring ! ((hand + d) mod length ring))]"
proof (rule nth_equalityI)
  fix i
  assume i: "i < length (swept hand (Suc d) ring)"
  have "(hand + d) mod length ring < length ring" using assms by simp
  with i show "swept hand (Suc d) ring ! i =
      ((swept hand d ring)[(hand + d) mod length ring :=
         clear_access (swept hand d ring ! ((hand + d) mod length ring))]) ! i"
    by (auto simp: swept_def nth_list_update less_Suc_eq)
qed simp

text \<open>Within one turn of the clock the hand meets every page for the first time.\<close>

lemma mod_offset_inj:
  fixes n :: nat
  assumes "j < k" and "k < n"
  shows "(h + j) mod n \<noteq> (h + k) mod n"
proof
  assume "(h + j) mod n = (h + k) mod n"
  then have "n dvd (h + k) - (h + j)"
    using mod_eq_dvd_iff_nat [of "h + j" "h + k" n] assms(1) by simp
  then have "n \<le> k - j" using assms(1) by (intro dvd_imp_le) auto
  with assms show False by simp
qed

lemma swept_ahead:
  assumes "d \<le> k" and "k < length ring"
  shows "swept hand d ring ! ((hand + k) mod length ring) = ring ! ((hand + k) mod length ring)"
proof -
  have "(hand + k) mod length ring < length ring" using assms(2) by (intro mod_less_divisor) linarith
  moreover have "\<not> (\<exists>j < d. (hand + k) mod length ring = (hand + j) mod length ring)"
    using mod_offset_inj [of _ k "length ring" hand] assms by (metis less_le_trans)
  ultimately show ?thesis by (auto simp: swept_def)
qed

lemma clock_covers:
  fixes n :: nat
  assumes "i < n"
  shows "\<exists>k < n. i = (hand + k) mod n"
proof -
  have "n > 0" using assms by simp
  then have "(hand + (i + n - hand mod n) mod n) mod n = (hand mod n + (i + n - hand mod n)) mod n"
    by (simp add: mod_simps)
  also have "hand mod n + (i + n - hand mod n) = i + n"
    using \<open>n > 0\<close> mod_less_divisor [of n hand] by linarith
  also have "(i + n) mod n = i" using assms by simp
  finally show ?thesis using \<open>n > 0\<close> by (metis mod_less_divisor)
qed

lemma swept_full: "swept hand (length ring) ring = map clear_access ring"
proof (rule nth_equalityI)
  fix i
  assume "i < length (swept hand (length ring) ring)"
  then show "swept hand (length ring) ring ! i = map clear_access ring ! i"
    using clock_covers [of i "length ring" hand] by (auto simp: swept_def)
qed simp

lemma swept_cleared: "swept hand d (map clear_access ring) = map clear_access ring"
  by (rule nth_equalityI) (simp_all add: swept_def)

section \<open>The sweep finds the victim of the clock\<close>

lemma evict_loop_pass:
  assumes "clock_hand w < length (ev_ring w)" and "\<not> busy k (clock_hand w)"
    and "\<not> candidate (ev_ring w ! clock_hand w)"
  shows "evict_loop K sends recvs node_id busy (Suc k) w = evict_loop K sends recvs node_id busy k
    (w\<lparr>clock_hand := (clock_hand w + 1) mod length (ev_ring w),
       ev_ring := (ev_ring w)[clock_hand w := clear_access (ev_ring w ! clock_hand w)]\<rparr>)"
  using assms by (auto simp: Let_def candidate_def resident_def clear_access_def)

lemma evict_loop_hit:
  assumes "clock_hand w < length (ev_ring w)" and "\<not> busy k (clock_hand w)"
    and "candidate (ev_ring w ! clock_hand w)"
  shows "evict_loop K sends recvs node_id busy (Suc k) w =
    andthen (evict_victim K sends recvs node_id (clock_hand w)
        (w\<lparr>clock_hand := (clock_hand w + 1) mod length (ev_ring w)\<rparr>)) (\<lambda>w2. Inr (0, w2))"
  using assms by (simp add: Let_def candidate_def resident_def)

declare evict_loop.simps(2) [simp del]

lemma evict_loop_passes:
  assumes "clock_hand w < length (ev_ring w)" and "\<forall>k i. \<not> busy k i"
  shows "\<forall>k < d. \<not> candidate (swept (clock_hand w) k (ev_ring w) ! ((clock_hand w + k) mod length (ev_ring w))) \<Longrightarrow>
    evict_loop K sends recvs node_id busy (d + m) w = evict_loop K sends recvs node_id busy m
      (w\<lparr>clock_hand := (clock_hand w + d) mod length (ev_ring w),
         ev_ring := swept (clock_hand w) d (ev_ring w)\<rparr>)"
proof (induction d arbitrary: m)
  case 0
  then show ?case using assms(1) by simp
next
  case (Suc d)
  let ?n = "length (ev_ring w)" and ?h = "clock_hand w"
  let ?w = "w\<lparr>clock_hand := (?h + d) mod ?n, ev_ring := swept ?h d (ev_ring w)\<rparr>"
  have ne: "ev_ring w \<noteq> []" using assms(1) by auto
  have "evict_loop K sends recvs node_id busy (Suc d + m) w =
      evict_loop K sends recvs node_id busy (Suc m) ?w"
    using Suc.IH [of "Suc m"] Suc.prems by simp
  also have "\<dots> = evict_loop K sends recvs node_id busy m
      (?w\<lparr>clock_hand := (clock_hand ?w + 1) mod length (ev_ring ?w),
          ev_ring := (ev_ring ?w)[clock_hand ?w := clear_access (ev_ring ?w ! clock_hand ?w)]\<rparr>)"
    using assms Suc.prems ne by (intro evict_loop_pass) simp_all
  also have "\<dots> = evict_loop K sends recvs node_id busy m
      (w\<lparr>clock_hand := (?h + Suc d) mod ?n, ev_ring := swept ?h (Suc d) (ev_ring w)\<rparr>)"
    using ne by (simp add: swept_Suc mod_simps)
  finally show ?case .
qed

lemma find_clock_order:
  "find P (clock_order n hand) = Some i \<longleftrightarrow>
     (\<exists>d < n. i = (hand + d) mod n \<and> P i \<and> (\<forall>k < d. \<not> P ((hand + k) mod n)))"
  by (auto simp: find_Some_iff clock_order_def)

lemma find_clock_order_None:
  "find P (clock_order n hand) = None \<longleftrightarrow> (\<forall>i < n. \<not> P i)"
proof -
  have "set (clock_order n hand) = {..<n}"
    using clock_covers [of _ n hand] by (cases "n = 0") (fastforce simp: clock_order_def)+
  then show ?thesis by (auto simp: find_None_iff)
qed

lemma find_clock_orderD: "find P (clock_order n hand) = Some i \<Longrightarrow> i < n \<and> P i"
proof -
  assume "find P (clock_order n hand) = Some i"
  then obtain d where "d < n" "i = (hand + d) mod n" "P i" by (auto simp: find_clock_order)
  then show ?thesis by (metis mod_less_divisor less_nat_zero_code neq0_conv)
qed

text \<open>A victim at distance \<open>d\<close> of the hand, with nothing to evict before it.\<close>

lemma evict_loop_finds:
  assumes "clock_hand w < length (ev_ring w)" and "\<forall>k i. \<not> busy k i"
    and "find (\<lambda>i. candidate (ev_ring w ! i)) (clock_order (length (ev_ring w)) (clock_hand w)) = Some v"
    and "length (ev_ring w) \<le> fuel"
  shows "\<exists>d < length (ev_ring w). v = (clock_hand w + d) mod length (ev_ring w) \<and>
    evict_loop K sends recvs node_id busy fuel w =
      andthen (evict_victim K sends recvs node_id v
        (w\<lparr>ev_ring := swept (clock_hand w) d (ev_ring w),
           clock_hand := (v + 1) mod length (ev_ring w)\<rparr>)) (\<lambda>w2. Inr (0, w2))"
proof -
  let ?n = "length (ev_ring w)" and ?h = "clock_hand w"
  obtain d where d: "d < ?n" "v = (?h + d) mod ?n" "candidate (ev_ring w ! v)"
    "\<forall>k < d. \<not> candidate (ev_ring w ! ((?h + k) mod ?n))"
    using assms(3) by (auto simp: find_clock_order)
  obtain m where m: "fuel = d + Suc m"
    using d(1) assms(4) by (metis add_Suc_right less_imp_Suc_add less_le_trans)
  let ?w = "w\<lparr>clock_hand := v, ev_ring := swept ?h d (ev_ring w)\<rparr>"
  have "\<forall>k < d. \<not> candidate (swept ?h k (ev_ring w) ! ((?h + k) mod ?n))"
    using d(1,4) by (simp add: swept_ahead)
  then have "evict_loop K sends recvs node_id busy fuel w =
      evict_loop K sends recvs node_id busy (Suc m) ?w"
    using evict_loop_passes [OF assms(1,2), of d _ _ _ _ "Suc m"] d(2) m by simp
  also have "\<dots> = andthen (evict_victim K sends recvs node_id (clock_hand ?w)
      (?w\<lparr>clock_hand := (clock_hand ?w + 1) mod length (ev_ring ?w)\<rparr>)) (\<lambda>w2. Inr (0, w2))"
  proof (rule evict_loop_hit)
    have "0 < ?n" using d(1) by linarith
    then show "clock_hand ?w < length (ev_ring ?w)" using d(2) by simp
    show "candidate (ev_ring ?w ! clock_hand ?w)"
      using swept_ahead [of d d "ev_ring w" ?h] d(1,2,3) by simp
  qed (use assms(2) in simp)
  finally show ?thesis using d(1,2) by auto
qed

lemma find_cong_ring:
  assumes "\<And>i. i < n \<Longrightarrow> P i = Q i"
  shows "find P (clock_order n hand) = find Q (clock_order n hand)"
proof (rule find_cong)
  fix i
  assume "i \<in> set (clock_order n hand)"
  then have "i < n" by (auto simp: clock_order_def)
  then show "P i = Q i" by (rule assms)
qed simp

text \<open>One turn without a candidate clears every access bit and brings the hand back.\<close>

lemma evict_loop_first_turn:
  assumes "clock_hand w < length (ev_ring w)" and "\<forall>k i. \<not> busy k i"
    and "\<forall>i < length (ev_ring w). \<not> candidate (ev_ring w ! i)"
  shows "evict_loop K sends recvs node_id busy (length (ev_ring w) + m) w =
    evict_loop K sends recvs node_id busy m (w\<lparr>ev_ring := map clear_access (ev_ring w)\<rparr>)"
proof -
  let ?n = "length (ev_ring w)" and ?h = "clock_hand w"
  have "0 < ?n" using assms(1) by linarith
  then have "\<not> candidate (swept ?h k (ev_ring w) ! ((?h + k) mod ?n))" if "k < ?n" for k
    using that assms(3) swept_ahead [of k k "ev_ring w" ?h] by simp
  then have "evict_loop K sends recvs node_id busy (?n + m) w =
      evict_loop K sends recvs node_id busy m
        (w\<lparr>clock_hand := (?h + ?n) mod ?n, ev_ring := swept ?h ?n (ev_ring w)\<rparr>)"
    by (intro evict_loop_passes [OF assms(1,2)]) simp
  then show ?thesis using assms(1) by (simp add: swept_full)
qed

lemma evict_loop_idle:
  "clock_hand w < length (ev_ring w) \<Longrightarrow> \<forall>k i. \<not> busy k i \<Longrightarrow>
     \<forall>i < length (ev_ring w). \<not> resident (ev_ring w ! i) \<Longrightarrow> ev_ring w = map clear_access (ev_ring w) \<Longrightarrow>
     evict_loop K sends recvs node_id busy (length (ev_ring w)) w = Inr (- 1, w)"
  using evict_loop_first_turn [of w busy K sends recvs node_id 0]
  by (simp add: candidate_def)

text \<open>
  The whole call: the victim is the clock's, and before it is evicted only access bits have changed.
\<close>

lemma execute_eviction_cases:
  assumes "ev_ring w \<noteq> []" and "clock_hand w < length (ev_ring w)" and "\<forall>k i. \<not> busy k i"
  shows "case clock_victim (ev_ring w) (clock_hand w) of
      None \<Rightarrow> dsm_execute_eviction K sends recvs node_id busy w =
        Inr (- 1, w\<lparr>ev_ring := map clear_access (ev_ring w)\<rparr>)
    | Some v \<Rightarrow> v < length (ev_ring w) \<and> resident (ev_ring w ! v) \<and>
        (\<exists>ring. length ring = length (ev_ring w) \<and>
          (\<forall>i < length ring. ring ! i = ev_ring w ! i \<or> ring ! i = clear_access (ev_ring w ! i)) \<and>
          dsm_execute_eviction K sends recvs node_id busy w =
            andthen (evict_victim K sends recvs node_id v
              (w\<lparr>ev_ring := ring, clock_hand := (v + 1) mod length (ev_ring w)\<rparr>)) (\<lambda>w2. Inr (0, w2)))"
proof -
  let ?n = "length (ev_ring w)" and ?h = "clock_hand w"
  let ?w1 = "w\<lparr>ev_ring := map clear_access (ev_ring w)\<rparr>"
  show ?thesis
  proof (cases "find (\<lambda>i. candidate (ev_ring w ! i)) (clock_order ?n ?h)")
    case (Some v)
    then obtain d where d: "d < ?n" "v = (?h + d) mod ?n"
      and run: "evict_loop K sends recvs node_id busy (?n * 2) w =
        andthen (evict_victim K sends recvs node_id v
          (w\<lparr>ev_ring := swept ?h d (ev_ring w), clock_hand := (v + 1) mod ?n\<rparr>)) (\<lambda>w2. Inr (0, w2))"
      using evict_loop_finds [OF assms(2,3) Some, of "?n * 2" K sends recvs node_id] by auto
    have "candidate (ev_ring w ! v)" using Some by (auto simp: find_Some_iff)
    then show ?thesis
      using d run assms Some
      by (auto simp: clock_victim_def dsm_execute_eviction_def candidate_def
          intro!: exI [of _ "swept ?h d (ev_ring w)"] dest: swept_nth_cases [of _ _ ?h d])
  next
    case None
    then have none: "\<forall>i < ?n. \<not> candidate (ev_ring w ! i)" by (simp add: find_clock_order_None)
    have turn: "dsm_execute_eviction K sends recvs node_id busy w =
        evict_loop K sends recvs node_id busy ?n ?w1"
      using evict_loop_first_turn [OF assms(2,3) none, of K sends recvs node_id ?n] assms(1)
      by (simp add: dsm_execute_eviction_def mult_2_right)
    have same: "find (\<lambda>i. candidate (ev_ring ?w1 ! i)) (clock_order ?n ?h) =
        find (\<lambda>i. resident (ev_ring w ! i)) (clock_order ?n ?h)"
      by (rule find_cong_ring) simp
    show ?thesis
    proof (cases "find (\<lambda>i. resident (ev_ring w ! i)) (clock_order ?n ?h)")
      case (Some v)
      then have "\<exists>d < ?n. v = (?h + d) mod ?n \<and> evict_loop K sends recvs node_id busy ?n ?w1 =
          andthen (evict_victim K sends recvs node_id v (?w1\<lparr>ev_ring := swept ?h d (ev_ring ?w1),
            clock_hand := (v + 1) mod ?n\<rparr>)) (\<lambda>w2. Inr (0, w2))"
        using evict_loop_finds [of ?w1 busy v ?n K sends recvs node_id] assms(2,3) same by simp
      moreover have "resident (ev_ring w ! v)" using Some by (auto simp: find_Some_iff)
      ultimately show ?thesis
        using turn assms(1) Some None
        by (auto simp: clock_victim_def swept_cleared intro!: exI [of _ "map clear_access (ev_ring w)"])
    next
      case none2: None
      then have "\<forall>i < ?n. \<not> resident (ev_ring w ! i)" by (simp add: find_clock_order_None)
      then have "evict_loop K sends recvs node_id busy ?n ?w1 = Inr (- 1, ?w1)"
        using evict_loop_idle [of ?w1 busy K sends recvs node_id] assms(2,3) by simp
      then show ?thesis using turn None none2 by (simp add: clock_victim_def)
    qed
  qed
qed

section \<open>What one eviction changes\<close>

lemma evict_victim_effect:
  assumes "evict_victim K sends recvs node_id i w = Inr w2"
  shows "ev_ring w2 = (ev_ring w)[i := (ev_ring w ! i)\<lparr>lp_status := 0\<rparr>]"
    and "ev_mem w2 = k_dontneed K (ev_mem w) (lp_base_addr (ev_ring w ! i))"
    and "set_local_msi_state node_id (ev_gpd w) (lp_page_index (ev_ring w ! i)) STATE_INVALID = Inr (ev_gpd w2)"
    and "\<exists>st. get_local_msi_state node_id (ev_gpd w) (lp_page_index (ev_ring w ! i)) = Inr st \<and>
      (st \<noteq> STATE_MODIFIED \<longrightarrow> ev_wire w2 = ev_wire w)"
  using assms by (auto simp: evict_victim_def Let_def split: if_splits)

lemma set_local_invalid:
  assumes "set_local_msi_state node_id g idx STATE_INVALID = Inr g'" and "unat idx < length g"
  shows "\<exists>e. g' = g[unat idx := e] \<and> state e = STATE_INVALID"
proof -
  from assms obtain e where "g[unat idx := e] = g'" "state e = STATE_INVALID"
    by (auto simp: set_local_msi_state_def Let_def)
  then show ?thesis by blast
qed

lemma clock_victim_second_chance:
  assumes "clock_victim ring hand = Some v"
  shows "lp_access_bit (ring ! v) = 1 \<Longrightarrow> p \<in> set ring \<Longrightarrow> resident p \<Longrightarrow> lp_access_bit p = 1"
  using assms
  by (auto simp: clock_victim_def find_Some_iff find_clock_order_None candidate_def in_set_conv_nth
      split: option.splits)

lemma clock_victim_None_iff: "clock_victim ring hand = None \<longleftrightarrow> (\<forall>p \<in> set ring. \<not> resident p)"
proof (cases "find (\<lambda>i. candidate (ring ! i)) (clock_order (length ring) hand)")
  case None
  then show ?thesis
    unfolding clock_victim_def None option.case find_clock_order_None
    by (simp add: all_set_conv_all_nth)
next
  case (Some v)
  then have "v < length ring" "resident (ring ! v)"
    by (auto dest!: find_clock_orderD simp: candidate_def)
  then show ?thesis
    using Some by (auto simp: clock_victim_def all_set_conv_all_nth)
qed

text \<open>An eviction that reports success has taken one resident page off the ring.\<close>

lemma execute_eviction_success:
  assumes "ev_ring w \<noteq> []" and "clock_hand w < length (ev_ring w)" and "\<forall>k i. \<not> busy k i"
    and "dsm_execute_eviction K sends recvs node_id busy w = Inr (0, w')"
  obtains v ring where "clock_victim (ev_ring w) (clock_hand w) = Some v"
    and "v < length (ev_ring w)" and "resident (ev_ring w ! v)" and "length ring = length (ev_ring w)"
    and "\<forall>i < length ring. ring ! i = ev_ring w ! i \<or> ring ! i = clear_access (ev_ring w ! i)"
    and "evict_victim K sends recvs node_id v
      (w\<lparr>ev_ring := ring, clock_hand := (v + 1) mod length (ev_ring w)\<rparr>) = Inr w'"
proof (cases "clock_victim (ev_ring w) (clock_hand w)")
  case None
  then show thesis
    using execute_eviction_cases [OF assms(1-3), of K sends recvs node_id] assms(4) by simp
next
  case (Some v)
  then obtain ring where v: "v < length (ev_ring w)" "resident (ev_ring w ! v)"
    "length ring = length (ev_ring w)"
    "\<forall>i < length ring. ring ! i = ev_ring w ! i \<or> ring ! i = clear_access (ev_ring w ! i)"
    and run: "dsm_execute_eviction K sends recvs node_id busy w =
      andthen (evict_victim K sends recvs node_id v
        (w\<lparr>ev_ring := ring, clock_hand := (v + 1) mod length (ev_ring w)\<rparr>)) (\<lambda>w2. Inr (0, w2))"
    using execute_eviction_cases [OF assms(1-3), of K sends recvs node_id] by auto
  have "evict_victim K sends recvs node_id v
      (w\<lparr>ev_ring := ring, clock_hand := (v + 1) mod length (ev_ring w)\<rparr>) = Inr w'"
    using assms(4) unfolding run by auto
  with Some v show thesis by (rule that)
qed

definition residents :: "local_page_tracker list \<Rightarrow> nat set" where
  "residents ring = {i. i < length ring \<and> resident (ring ! i)}"

lemma finite_residents [simp]: "finite (residents ring)"
  by (simp add: residents_def)

section \<open>Histories of the ring\<close>

text \<open>
  What happens to the ring of a process: the engine marks pages as accessed, the other threads
  change the directory and the memory as they like, and the eviction thread makes its calls. The
  result counts the calls that reported an eviction.
\<close>

datatype 'm ring_event =
    Accessed u64
  | Elsewhere gpd 'm
  | Evict "send_result list" "recv_result list" "nat \<Rightarrow> nat \<Rightarrow> bool"

fun ring_history ::
  "'m kernel \<Rightarrow> u32 \<Rightarrow> 'm ring_event list \<Rightarrow> 'm eviction \<Rightarrow> (nat \<times> 'm eviction) comp"
where
  "ring_history K node_id [] w = Inr (0, w)"
| "ring_history K node_id (Accessed p # es) w =
     ring_history K node_id es (w\<lparr>ev_ring := dsm_mark_accessed p (ev_ring w)\<rparr>)"
| "ring_history K node_id (Elsewhere g m # es) w =
     ring_history K node_id es (w\<lparr>ev_gpd := g, ev_mem := m\<rparr>)"
| "ring_history K node_id (Evict sends recvs busy # es) w =
     andthen (dsm_execute_eviction K sends recvs node_id busy w) (\<lambda>(r, w1).
     andthen (ring_history K node_id es w1) (\<lambda>(n, w2).
       Inr (if r = 0 then n + 1 else n, w2)))"

definition ring_ok :: "'m eviction \<Rightarrow> bool" where
  "ring_ok w \<longleftrightarrow> ev_ring w = [] \<or> clock_hand w < length (ev_ring w)"

lemma residents_update:
  "i < length ring \<Longrightarrow> residents (ring[i := p]) =
     (if resident p then insert i (residents ring) else residents ring - {i})"
  by (auto simp: residents_def nth_list_update split: if_splits)

lemma residents_access [simp]:
  "residents (ring[i := (ring ! i)\<lparr>lp_access_bit := b\<rparr>]) = residents ring"
proof -
  have "lp_status (ring[i := (ring ! i)\<lparr>lp_access_bit := b\<rparr>] ! x) = lp_status (ring ! x)"
    if "x < length ring" for x
    using that by (cases "x = i") auto
  then show ?thesis by (auto simp: residents_def resident_def)
qed

lemma residents_mark [simp]:
  "residents (dsm_mark_accessed p ring) = residents ring"
  "length (dsm_mark_accessed p ring) = length ring"
  by (simp_all add: dsm_mark_accessed_def)

lemma evict_loop_residents:
  "clock_hand w < length (ev_ring w) \<Longrightarrow>
     evict_loop K sends recvs node_id busy k w = Inr (r, w') \<Longrightarrow>
     clock_hand w' < length (ev_ring w') \<and>
     (if r = 0 then \<exists>v \<in> residents (ev_ring w). residents (ev_ring w') = residents (ev_ring w) - {v}
      else residents (ev_ring w') = residents (ev_ring w))"
proof (induction k arbitrary: w)
  case (Suc k)
  let ?i = "clock_hand w" and ?n = "length (ev_ring w)"
  have "ev_ring w \<noteq> []" using Suc.prems(1) by auto
  then have hand: "(?i + 1) mod ?n < ?n" by (intro mod_less_divisor) simp
  consider (skip) "busy k ?i \<or> lp_status (ev_ring w ! ?i) = 0 \<and> lp_access_bit (ev_ring w ! ?i) \<noteq> 1"
    | (clear) "\<not> busy k ?i" "lp_access_bit (ev_ring w ! ?i) = 1"
    | (evict) "\<not> busy k ?i" "lp_access_bit (ev_ring w ! ?i) \<noteq> 1" "lp_status (ev_ring w ! ?i) \<noteq> 0"
    by blast
  then show ?case
  proof cases
    case skip
    then have "evict_loop K sends recvs node_id busy k (w\<lparr>clock_hand := (?i + 1) mod ?n\<rparr>) = Inr (r, w')"
      using Suc.prems by (auto simp: evict_loop.simps Let_def split: if_splits)
    from Suc.IH [OF _ this] show ?thesis using hand by (simp split: if_splits)
  next
    case clear
    then have "evict_loop K sends recvs node_id busy k (w\<lparr>clock_hand := (?i + 1) mod ?n,
        ev_ring := (ev_ring w)[?i := (ev_ring w ! ?i)\<lparr>lp_access_bit := 0\<rparr>]\<rparr>) = Inr (r, w')"
      using Suc.prems by (simp add: evict_loop.simps Let_def)
    from Suc.IH [OF _ this] show ?thesis using hand by (simp split: if_splits)
  next
    case evict
    then have "evict_victim K sends recvs node_id ?i (w\<lparr>clock_hand := (?i + 1) mod ?n\<rparr>) = Inr w'"
      and "r = 0"
      using Suc.prems by (auto simp: evict_loop.simps Let_def)
    then have ring: "ev_ring w' = (ev_ring w)[?i := (ev_ring w ! ?i)\<lparr>lp_status := 0\<rparr>]"
      and "clock_hand w' = (?i + 1) mod ?n"
      by (auto simp: evict_victim_def Let_def)
    moreover have "?i \<in> residents (ev_ring w)"
      using Suc.prems(1) evict by (simp add: residents_def resident_def)
    moreover have "residents (ev_ring w') = residents (ev_ring w) - {?i}"
      using Suc.prems(1) by (simp add: ring residents_update resident_def)
    ultimately show ?thesis
      using hand \<open>r = 0\<close> by auto
  qed
qed simp

lemma execute_eviction_residents:
  assumes "ring_ok w" and "dsm_execute_eviction K sends recvs node_id busy w = Inr (r, w')"
  shows "ring_ok w' \<and> card (residents (ev_ring w)) =
    card (residents (ev_ring w')) + (if r = 0 then 1 else 0)"
proof (cases "ev_ring w = []")
  case False
  then have "clock_hand w' < length (ev_ring w') \<and>
     (if r = 0 then \<exists>v \<in> residents (ev_ring w). residents (ev_ring w') = residents (ev_ring w) - {v}
      else residents (ev_ring w') = residents (ev_ring w))"
    using assms evict_loop_residents [of w K sends recvs node_id busy "length (ev_ring w) * 2" r w']
    by (simp add: ring_ok_def dsm_execute_eviction_def)
  then show ?thesis
    using card_Suc_Diff1 [OF finite_residents, of _ "ev_ring w"]
    by (auto simp: ring_ok_def split: if_splits)
qed (use assms in \<open>auto simp: dsm_execute_eviction_def\<close>)

section \<open>What an eviction keeps\<close>

lemma set_local_safe:
  assumes "set_local_msi_state node_id g idx STATE_INVALID = Inr g'" and "gpd_safe g"
  shows "gpd_safe g' \<and> length g' = length g"
proof (cases "unat idx < length g")
  case True
  then have safe: "entry_safe (g ! unat idx)" using gpd_safeD assms(2) by blast
  obtain own_bit where "g' = g[unat idx := (g ! unat idx)\<lparr>state := STATE_INVALID,
      shared_nodes_bitmap := shared_nodes_bitmap (g ! unat idx) AND NOT own_bit,
      owner_node_id := (if owner_node_id (g ! unat idx) = node_id then 0
        else owner_node_id ((g ! unat idx)\<lparr>state := STATE_INVALID\<rparr>))\<rparr>]"
    using assms(1) True by (auto simp: set_local_msi_state_def Let_def)
  then show ?thesis using safe by (auto intro!: gpd_safe_update [OF assms(2)] simp: entry_safe_def)
qed (use assms in \<open>auto simp: set_local_msi_state_def\<close>)

text \<open>A call that returns has evicted one page, or has changed neither directory, memory nor wire.\<close>

definition evicted_one ::
  "'m kernel \<Rightarrow> send_result list \<Rightarrow> recv_result list \<Rightarrow> u32 \<Rightarrow> 'm eviction \<Rightarrow> 'm eviction \<Rightarrow> bool"
where
  "evicted_one K sends recvs node_id w w' \<longleftrightarrow>
     (\<exists>i w1. evict_victim K sends recvs node_id i w1 = Inr w' \<and> i < length (ev_ring w1) \<and> ev_gpd w1 = ev_gpd w \<and>
        ev_mem w1 = ev_mem w \<and> ev_wire w1 = ev_wire w)"

lemma evict_loop_run:
  "evict_loop K sends recvs node_id busy k w = Inr (r, w') \<Longrightarrow>
     if r = 0 then evicted_one K sends recvs node_id w w'
     else ev_gpd w' = ev_gpd w \<and> ev_mem w' = ev_mem w \<and> ev_wire w' = ev_wire w"
proof (induction k arbitrary: w)
  case (Suc k)
  let ?i = "clock_hand w" and ?w1 = "w\<lparr>clock_hand := (clock_hand w + 1) mod length (ev_ring w)\<rparr>"
  consider (skip) "evict_loop K sends recvs node_id busy k ?w1 = Inr (r, w')"
    | (clear) "evict_loop K sends recvs node_id busy k (?w1\<lparr>ev_ring := (ev_ring w)[?i :=
        (ev_ring w ! ?i)\<lparr>lp_access_bit := 0\<rparr>]\<rparr>) = Inr (r, w')"
    | (evict) "evict_victim K sends recvs node_id ?i ?w1 = Inr w'" "?i < length (ev_ring ?w1)" "r = 0"
    using Suc.prems(1) by (auto simp: evict_loop.simps Let_def split: if_splits)
  then show ?case
  proof cases
    case evict
    then have "evicted_one K sends recvs node_id w w'"
      unfolding evicted_one_def by (intro exI [of _ ?i] exI [of _ ?w1]) simp
    then show ?thesis using evict(3) by simp
  qed (use Suc.IH in \<open>force simp: evicted_one_def\<close>)+
qed simp

lemma execute_eviction_run:
  assumes "dsm_execute_eviction K sends recvs node_id busy w = Inr (r, w')"
  obtains (idle) "r \<noteq> 0" and "ev_gpd w' = ev_gpd w" and "ev_mem w' = ev_mem w" and "ev_wire w' = ev_wire w"
  | (victim) i w1 where "r = 0" and "evict_victim K sends recvs node_id i w1 = Inr w'" and "i < length (ev_ring w1)"
    and "ev_gpd w1 = ev_gpd w" and "ev_mem w1 = ev_mem w" and "ev_wire w1 = ev_wire w"
  using assms evict_loop_run [of K sends recvs node_id busy "length (ev_ring w) * 2" w r w']
  by (fastforce simp: dsm_execute_eviction_def evicted_one_def split: if_splits)

lemma set_local_length: "set_local_msi_state node_id g idx st = Inr g' \<Longrightarrow> length g' = length g"
  by (auto simp: set_local_msi_state_def Let_def split: if_splits)

lemma execute_eviction_length:
  "dsm_execute_eviction K sends recvs node_id busy w = Inr (r, w') \<Longrightarrow> length (ev_gpd w') = length (ev_gpd w)"
  by (erule execute_eviction_run) (simp_all add: set_local_length [OF evict_victim_effect(3)])

lemma execute_eviction_safe:
  "dsm_execute_eviction K sends recvs node_id busy w = Inr (r, w') \<Longrightarrow> gpd_safe (ev_gpd w) \<Longrightarrow>
     gpd_safe (ev_gpd w') \<and> length (ev_gpd w') = length (ev_gpd w)"
  by (erule execute_eviction_run) (use set_local_safe [OF evict_victim_effect(3)] in fastforce)+

section \<open>Properties\<close>

text \<open>C18. Second chance: the evicted page is resident, no other page changes its residency, and a
  page whose access bit is set is evicted only when the access bit of every resident page is set.\<close>

theorem eviction_second_chance:
  assumes "ev_ring w \<noteq> []" and "clock_hand w < length (ev_ring w)" and "\<forall>k i. \<not> busy k i"
    and "dsm_execute_eviction K sends recvs node_id busy w = Inr (0, w')"
  shows "\<exists>v \<in> residents (ev_ring w). residents (ev_ring w') = residents (ev_ring w) - {v} \<and>
    (lp_access_bit (ev_ring w ! v) = 1 \<longrightarrow>
       (\<forall>p \<in> set (ev_ring w). resident p \<longrightarrow> lp_access_bit p = 1))"
proof -
  obtain v ring where v: "clock_victim (ev_ring w) (clock_hand w) = Some v"
    "v < length (ev_ring w)" "resident (ev_ring w ! v)" "length ring = length (ev_ring w)"
    and same: "\<forall>i < length ring. ring ! i = ev_ring w ! i \<or> ring ! i = clear_access (ev_ring w ! i)"
    and e: "evict_victim K sends recvs node_id v
      (w\<lparr>ev_ring := ring, clock_hand := (v + 1) mod length (ev_ring w)\<rparr>) = Inr w'"
    using execute_eviction_success [OF assms] .
  have "resident (ring ! i) = resident (ev_ring w ! i)" if "i < length ring" for i
    using same that by (metis clear_access_simps(5))
  moreover have "ev_ring w' = ring[v := (ring ! v)\<lparr>lp_status := 0\<rparr>]"
    using evict_victim_effect(1) [OF e] by simp
  ultimately have "residents (ev_ring w') = residents (ev_ring w) - {v}"
    using v(2,4) by (auto simp: residents_def nth_list_update resident_def)
  then show ?thesis
    using v clock_victim_second_chance [OF v(1)] by (auto simp: residents_def)
qed

definition small_world :: "(u64 \<Rightarrow> (page \<times> bool) option) eviction" where
  "small_world = \<lparr>ev_ring = [\<lparr>lp_base_addr = 0, lp_page_index = 0, lp_status = 1, lp_access_bit = 1\<rparr>,
       \<lparr>lp_base_addr = 4096, lp_page_index = 1, lp_status = 1, lp_access_bit = 0\<rparr>],
     clock_hand = 0, ev_gpd = [fresh_entry, fresh_entry], ev_mem = (\<lambda>_. None), ev_wire = []\<rparr>"

lemma small_world_eviction:
  "\<exists>w'. dsm_execute_eviction map_kernel [] [] 2 (\<lambda>_ _. False) small_world = Inr (0, w') \<and>
     residents (ev_ring w') = {0}"
proof -
  have "length (ev_ring small_world) * 2 = Suc (Suc (Suc (Suc 0)))" "ev_ring small_world \<noteq> []"
    by (simp_all add: small_world_def)
  then have "dsm_execute_eviction map_kernel [] [] 2 (\<lambda>_ _. False) small_world =
      evict_loop map_kernel [] [] 2 (\<lambda>_ _. False) (Suc (Suc (Suc (Suc 0)))) small_world"
    by (simp only: dsm_execute_eviction_def if_False)
  then show ?thesis
    by (auto simp: small_world_def evict_loop.simps Let_def evict_victim_def get_local_msi_state_def
        set_local_msi_state_def gpd_get_state_def fresh_entry_def residents_def resident_def
        less_Suc_eq nth_Cons' shl1_def)
qed

theorem eviction_second_chance_witness:
  "\<exists>w' v. dsm_execute_eviction map_kernel [] [] 2 (\<lambda>_ _. False) small_world = Inr (0, w') \<and>
     v \<in> residents (ev_ring small_world) \<and>
     residents (ev_ring w') = residents (ev_ring small_world) - {v}"
proof -
  obtain w' where w': "dsm_execute_eviction map_kernel [] [] 2 (\<lambda>_ _. False) small_world = Inr (0, w')"
    using small_world_eviction by blast
  have "ev_ring small_world \<noteq> []" "clock_hand small_world < length (ev_ring small_world)"
    by (simp_all add: small_world_def)
  then show ?thesis
    using eviction_second_chance [OF _ _ _ w'] w' by auto
qed

text \<open>C20. Two turns of the clock are enough: a call evicts a page or is stuck in the write-back of one
  when some page is resident; it reports failure (-1) exactly when no page is resident, and then
  nothing but access bits has changed.\<close>

theorem eviction_fails_iff_nothing_resident:
  assumes "ev_ring w \<noteq> []" and "clock_hand w < length (ev_ring w)" and "\<forall>k i. \<not> busy k i"
  shows "((\<exists>w'. dsm_execute_eviction K sends recvs node_id busy w = Inr (- 1, w')) \<longleftrightarrow>
      residents (ev_ring w) = {}) \<and>
    (residents (ev_ring w) = {} \<longrightarrow> dsm_execute_eviction K sends recvs node_id busy w =
      Inr (- 1, w\<lparr>ev_ring := map clear_access (ev_ring w)\<rparr>))"
proof -
  have none: "clock_victim (ev_ring w) (clock_hand w) = None \<longleftrightarrow> residents (ev_ring w) = {}"
    by (auto simp: clock_victim_None_iff residents_def all_set_conv_all_nth)
  show ?thesis
    using execute_eviction_cases [OF assms, of K sends recvs node_id] none
    by (cases "clock_victim (ev_ring w) (clock_hand w)") auto
qed

theorem eviction_fails_iff_nothing_resident_witness:
  "dsm_execute_eviction map_kernel [] [] 2 (\<lambda>_ _. False)
     (small_world\<lparr>ev_ring := [\<lparr>lp_base_addr = 0, lp_page_index = 0, lp_status = 0, lp_access_bit = 1\<rparr>]\<rparr>) =
   Inr (- 1, small_world\<lparr>ev_ring := [\<lparr>lp_base_addr = 0, lp_page_index = 0, lp_status = 0, lp_access_bit = 0\<rparr>]\<rparr>)"
proof -
  let ?w = "small_world\<lparr>ev_ring := [\<lparr>lp_base_addr = 0, lp_page_index = 0, lp_status = 0, lp_access_bit = 1\<rparr>]\<rparr>"
  have "ev_ring ?w \<noteq> []" "clock_hand ?w < length (ev_ring ?w)" "residents (ev_ring ?w) = {}"
    by (auto simp: small_world_def residents_def resident_def intro!: gr0I)
  then show ?thesis
    using eviction_fails_iff_nothing_resident [of ?w "\<lambda>_ _. False" map_kernel "[]" "[]" 2]
    by (simp add: clear_access_def)
qed

text \<open>C21. Each slot of the ring is evicted at most once in the life of a process: the evictions
  counted and the pages still resident add up to the pages that were resident at the start, whatever
  the engine marks and whatever the other threads map again in between. Nothing sets the status of a
  slot back to 1.\<close>

theorem each_page_evicted_at_most_once:
  assumes "ring_ok w" and "ring_history K node_id events w = Inr (n, w')"
  shows "n + card (residents (ev_ring w')) = card (residents (ev_ring w))"
  using assms
proof (induction events arbitrary: w n)
  case (Cons e events)
  show ?case
  proof (cases e)
    case (Accessed p)
    then show ?thesis
      using Cons.IH [of "w\<lparr>ev_ring := dsm_mark_accessed p (ev_ring w)\<rparr>" n] Cons.prems
      by (auto simp: ring_ok_def dsm_mark_accessed_def split: if_splits)
  next
    case (Elsewhere g m)
    then show ?thesis
      using Cons.IH [of "w\<lparr>ev_gpd := g, ev_mem := m\<rparr>" n] Cons.prems by (auto simp: ring_ok_def)
  next
    case (Evict sends recvs busy)
    then obtain r w1 n1 where r: "dsm_execute_eviction K sends recvs node_id busy w = Inr (r, w1)"
      and n1: "ring_history K node_id events w1 = Inr (n1, w')" "n = (if r = 0 then n1 + 1 else n1)"
      using Cons.prems(2) by (auto split: if_splits)
    then show ?thesis
      using Cons.IH [OF _ n1(1)] execute_eviction_residents [OF Cons.prems(1) r] by auto
  qed
qed simp

theorem each_page_evicted_at_most_once_witness:
  "\<exists>w'. ring_history map_kernel 2 [Accessed 1, Evict [] [] (\<lambda>_ _. False)]
     (small_world\<lparr>ev_ring := dsm_mark_accessed 0 (ev_ring small_world)\<rparr>) = Inr (1, w') \<and>
   card (residents (ev_ring w')) = 1"
proof -
  let ?w = "small_world\<lparr>ev_ring := dsm_mark_accessed 0 (ev_ring small_world)\<rparr>"
  let ?w1 = "?w\<lparr>ev_ring := dsm_mark_accessed 1 (ev_ring ?w)\<rparr>"
  have ne: "ev_ring ?w1 \<noteq> []" "length (ev_ring ?w1) * 2 = Suc (Suc (Suc (Suc 0)))"
    by (auto simp: small_world_def dsm_mark_accessed_def)
  have "\<exists>w'. evict_loop map_kernel [] [] 2 (\<lambda>_ _. False) (Suc (Suc (Suc (Suc 0)))) ?w1 = Inr (0, w')"
    by (auto simp: small_world_def evict_loop.simps Let_def evict_victim_def get_local_msi_state_def
        set_local_msi_state_def gpd_get_state_def fresh_entry_def dsm_mark_accessed_def shl1_def)
  then obtain w' where h: "ring_history map_kernel 2 [Accessed 1, Evict [] [] (\<lambda>_ _. False)] ?w = Inr (1, w')"
    using ne by (auto simp: dsm_execute_eviction_def simp del: evict_loop.simps)
  have "residents (ev_ring small_world) = {0, 1}"
    by (auto simp: small_world_def residents_def resident_def less_Suc_eq nth_Cons')
  then have "card (residents (ev_ring ?w)) = 2" by simp
  moreover have "ring_ok ?w" by (simp add: small_world_def ring_ok_def)
  ultimately show ?thesis
    using each_page_evicted_at_most_once [OF _ h] h by auto
qed

text \<open>C19. An eviction releases one page of the region, tells the directory that this node no longer
  holds it, and writes to the network only when the local state is \<open>STATE_MODIFIED\<close>: then exactly a
  prefix of the page's packet, the whole packet when \<open>send_all_bytes\<close> succeeds. A failed write-back
  does not stop the page from being dropped.\<close>

theorem eviction_releases_page:
  assumes "kernel_ok K" and "valid_node node_id" and "evict_victim K sends recvs node_id i w = Inr w'"
    and "unat (lp_page_index (ev_ring w ! i)) < length (ev_gpd w)"
  shows "view K (ev_mem w') = (view K (ev_mem w))(lp_base_addr (ev_ring w ! i) := None) \<and>
    get_local_msi_state node_id (ev_gpd w') (lp_page_index (ev_ring w ! i)) = Inr STATE_INVALID \<and>
    (if get_local_msi_state node_id (ev_gpd w) (lp_page_index (ev_ring w ! i)) = Inr STATE_MODIFIED then
       \<exists>bytes pkt sent r. load_page K (ev_mem w) (lp_base_addr (ev_ring w ! i)) = Inr bytes \<and>
         pkt = encode_packet (writeback_packet node_id (lp_page_index (ev_ring w ! i)) bytes) \<and>
         send_all_bytes sends pkt 0 = Some (sent, r) \<and> ev_wire w' = ev_wire w @ sent \<and>
         prefix sent pkt \<and> (r = 0 \<longleftrightarrow> sent = pkt)
     else ev_wire w' = ev_wire w)"
proof -
  let ?p = "lp_page_index (ev_ring w ! i)"
  note eff = evict_victim_effect [OF assms(3)]
  obtain e where "ev_gpd w' = (ev_gpd w)[unat ?p := e]" "state e = STATE_INVALID"
    using set_local_invalid [OF eff(3) assms(4)] by blast
  then have "get_local_msi_state node_id (ev_gpd w') ?p = Inr STATE_INVALID"
    using assms(4) by (simp add: get_local_msi_state_def gpd_get_state_def)
  moreover have "view K (ev_mem w') = (view K (ev_mem w))(lp_base_addr (ev_ring w ! i) := None)"
    using eff(2) assms(1) by simp
  moreover obtain st where st: "get_local_msi_state node_id (ev_gpd w) ?p = Inr st"
    "st \<noteq> STATE_MODIFIED \<longrightarrow> ev_wire w' = ev_wire w"
    using eff(4) by blast
  moreover have "\<exists>bytes sent r. load_page K (ev_mem w) (lp_base_addr (ev_ring w ! i)) = Inr bytes \<and>
      send_all_bytes sends (encode_packet (writeback_packet node_id ?p bytes)) 0 = Some (sent, r) \<and>
      ev_wire w' = ev_wire w @ sent" if "st = STATE_MODIFIED"
    using assms(3) st that
    by (auto simp: evict_victim_def write_back_def Let_def split: option.splits prod.splits if_splits)
  ultimately show ?thesis
    using send_all_bytes_sound [where k = 0] by (cases "st = STATE_MODIFIED") fastforce+
qed

definition owner_world :: "(u64 \<Rightarrow> (page \<times> bool) option) eviction" where
  "owner_world = small_world\<lparr>
     ev_gpd := [\<lparr>state = STATE_MODIFIED, owner_node_id = 2, shared_nodes_bitmap = 0\<rparr>],
     ev_mem := [0 \<mapsto> (zero_page, False)]\<rparr>"

theorem eviction_releases_page_witness:
  "\<exists>w'. evict_victim map_kernel [Sent 5000] [Chunk [1]] 2 0 owner_world = Inr w' \<and>
     ev_mem w' = Map.empty \<and> ev_wire w' = encode_packet (writeback_packet 2 0 zero_page)"
proof -
  let ?pkt = "encode_packet (writeback_packet 2 0 zero_page)"
  have len: "length ?pkt = 4109"
    using length_encode_packet [of "writeback_packet 2 0 zero_page"]
    by (simp add: packet_ok_def writeback_packet_def PACKET_SIZE_def)
  have send: "send_all_bytes [Sent 5000] ?pkt 0 = Some (?pkt, 0)"
    using len by (simp add: send_all_bytes.simps)
  have mem: "load_page map_kernel [0 \<mapsto> (zero_page, False)] 0 = Inr zero_page"
    by (simp add: load_page_view)
  have st: "get_local_msi_state 2 (ev_gpd owner_world) 0 = Inr STATE_MODIFIED"
    by (simp add: owner_world_def get_local_msi_state_def gpd_get_state_def gpd_get_owner_def)
  have fields: "ev_ring owner_world ! 0 = \<lparr>lp_base_addr = 0, lp_page_index = 0, lp_status = 1, lp_access_bit = 1\<rparr>"
    "ev_mem owner_world = [0 \<mapsto> (zero_page, False)]" "ev_wire owner_world = []"
    by (simp_all add: owner_world_def small_world_def)
  have set: "\<exists>g. set_local_msi_state 2 (ev_gpd owner_world) 0 STATE_INVALID = Inr g"
    by (simp add: owner_world_def set_local_msi_state_def Let_def)
  have ack: "recv_all_bytes [Chunk [1]] (Suc 0) [] = Some (0, [1])"
    by (simp add: recv_all_bytes.simps)
  obtain w' where w': "evict_victim map_kernel [Sent 5000] [Chunk [1]] 2 0 owner_world = Inr w'"
    using set by (auto simp: evict_victim_def Let_def fields mem st send ack write_back_def)
  have "valid_node 2" "unat (lp_page_index (ev_ring owner_world ! 0)) < length (ev_gpd owner_world)"
    by (simp_all add: valid_node_def owner_world_def small_world_def)
  note rel = eviction_releases_page [OF map_kernel_ok this(1) w' this(2)]
  have "ev_mem w' = Map.empty"
    using rel [THEN conjunct1] by (simp add: fields)
  moreover obtain bytes pkt sent r where
      "load_page map_kernel (ev_mem owner_world) (lp_base_addr (ev_ring owner_world ! 0)) = Inr bytes"
      "pkt = encode_packet (writeback_packet 2 (lp_page_index (ev_ring owner_world ! 0)) bytes)"
      "send_all_bytes [Sent 5000] pkt 0 = Some (sent, r)" "ev_wire w' = ev_wire owner_world @ sent"
    using rel [THEN conjunct2, THEN conjunct2] st by (force simp: fields)
  then have "ev_wire w' = ?pkt" using mem send by (simp add: fields)
  ultimately show ?thesis using w' by blast
qed

text \<open>C23. Evicting this node's copy of a shared page marks the whole entry invalid: the bitmap still
  names the other sharers, but the next writer gets an empty invalidation mask and they keep their
  copies.\<close>

theorem eviction_forgets_other_sharers:
  assumes "unat idx < length g" and "state (g ! unat idx) = STATE_SHARED"
    and "valid_node node_id" and "valid_node writer"
  shows "\<exists>g' g''. set_local_msi_state node_id g idx STATE_INVALID = Inr g' \<and>
    nodes_of (shared_nodes_bitmap (g' ! unat idx)) =
      nodes_of (shared_nodes_bitmap (g ! unat idx)) - {unat node_id} \<and>
    gpd_transition_to_modified g' (unat idx) writer out = Inr (True, 0, g'')"
proof -
  have "unat node_id < 64" "unat writer < 64" using assms(3,4) by auto
  then show ?thesis
    using assms(1,2)
    by (simp add: set_local_msi_state_def Let_def gpd_transition_to_modified_def nodes_of_and_not
        nodes_of_node_bit)
qed

theorem eviction_forgets_other_sharers_witness:
  "\<exists>g' g''. set_local_msi_state 1 [\<lparr>state = STATE_SHARED, owner_node_id = 0, shared_nodes_bitmap = 14\<rparr>] 0
       STATE_INVALID = Inr g' \<and>
     nodes_of (shared_nodes_bitmap (g' ! 0)) = nodes_of 14 - {1} \<and>
     gpd_transition_to_modified g' 0 3 0 = Inr (True, 0, g'')"
  using eviction_forgets_other_sharers [of 0
      "[\<lparr>state = STATE_SHARED, owner_node_id = 0, shared_nodes_bitmap = 14\<rparr>]" 1 3 0]
  by (simp add: valid_node_def)

end
