(* ===== verification/Node_State.thy ===== *)
theory Node_State
  imports Dsm_Core Gpd Wire Uffd_Kernel Eviction
begin

text \<open>
  The state of one process that the network engine of \<^verbatim>\<open>network_engine.c\<close> works on, and the
  pieces its packet handlers are made of: the sockets of the nodes, the pending requests of the
  coordinator, the changes to a local page, and the packets it hands to \<open>send_all_nonblocking\<close>.
\<close>

section \<open>State\<close>

record coord_pending =
  cp_requester_node_id :: u32
  cp_type :: u8
  cp_client_fd :: int
  cp_expected_acks :: u32
  cp_deferred_payload :: page

text \<open>
  The globals \<open>local_node_id\<close>, \<open>coordinator_fd\<close>, \<open>node_fds\<close>, \<open>page_table\<close>, the directory,
  \<open>gpd_pending_reqs\<close> (\<open>None\<close>: the null pointer), the eviction ring, the memory of the region; and
  the packets sent so far with the descriptor each went to. The engine ignores the results of its
  sends, so its state does not depend on them: what a send leaves in the stream is the business of
  \<^verbatim>\<open>Wire\<close>. \<open>num_pages\<close> is the length of the page table and \<open>page_size\<close> is 4096.
\<close>

record 'm node =
  local_node_id :: u32
  coordinator_fd :: int
  node_fds :: "int list"
  page_table :: "page_tracker list"
  node_gpd :: gpd
  gpd_pending_reqs :: "coord_pending list option"
  eviction_ring :: "local_page_tracker list"
  node_mem :: 'm
  sent_packets :: "(int \<times> dsm_packet) list"

definition NODE_SLOTS :: nat where
  "NODE_SLOTS = 64"

definition num_pages :: "'m node \<Rightarrow> nat" where
  "num_pages n = length (page_table n)"

section \<open>Packets\<close>

definition make_packet :: "u8 \<Rightarrow> u64 \<Rightarrow> u32 \<Rightarrow> page \<Rightarrow> dsm_packet" where
  "make_packet ty idx sender bytes =
     \<lparr>pkt_type = ty, pkt_page_index = idx, pkt_sender_node_id = sender, pkt_payload = bytes\<rparr>"

text \<open>
  A call of \<open>send_all_nonblocking\<close>, whose result the engine ignores: the packet handed to it is logged. How
  much of it reaches the stream is the subject of \<^verbatim>\<open>Wire\<close>; that the call returns (it may wait 100 ms for
  the socket at each try, and a \<open>SIGPIPE\<close> would end the process) is taken for granted.
\<close>

definition send_packet :: "int \<Rightarrow> dsm_packet \<Rightarrow> 'm node \<Rightarrow> 'm node" where
  "send_packet fd pkt n = n\<lparr>sent_packets := sent_packets n @ [(fd, pkt)]\<rparr>"

section \<open>The local copy of a page\<close>

text \<open>\<open>UFFDIO_COPY\<close>; when the page is already present it is dropped and copied again.\<close>

definition copy_in :: "'m kernel \<Rightarrow> 'm \<Rightarrow> u64 \<Rightarrow> page \<Rightarrow> 'm" where
  "copy_in K m a bytes =
     (case k_copy K m a bytes of
        (CopyExists, m1) \<Rightarrow> snd (k_copy K (k_dontneed K m1 a) a bytes)
      | (_, m1) \<Rightarrow> m1)"

definition set_status :: "nat \<Rightarrow> page_status \<Rightarrow> 'm node \<Rightarrow> 'm node" where
  "set_status i st n = n\<lparr>page_table := (page_table n)[i := (page_table n ! i)\<lparr>pt_status := st\<rparr>]\<rparr>"

definition install_page :: "'m kernel \<Rightarrow> nat \<Rightarrow> page \<Rightarrow> 'm node \<Rightarrow> 'm node comp" where
  "install_page K i bytes n =
     andthen (get_at (page_table n) i) (\<lambda>p.
       let n1 = set_status i PAGE_VALID
                  (n\<lparr>node_mem := copy_in K (node_mem n) (pt_base_addr p) bytes\<rparr>)
       in Inr (n1\<lparr>eviction_ring := dsm_mark_accessed (of_nat i) (eviction_ring n1)\<rparr>))"

text \<open>Lifting the write protection; \<open>mark\<close>: the places that also call \<open>dsm_mark_accessed\<close>.\<close>

definition lift_protection :: "'m kernel \<Rightarrow> nat \<Rightarrow> bool \<Rightarrow> 'm node \<Rightarrow> 'm node comp" where
  "lift_protection K i mark n =
     andthen (get_at (page_table n) i) (\<lambda>p.
       let n1 = set_status i PAGE_VALID
                  (n\<lparr>node_mem := k_writeprotect K (node_mem n) (pt_base_addr p) False\<rparr>)
       in Inr (if mark
               then n1\<lparr>eviction_ring := dsm_mark_accessed (of_nat i) (eviction_ring n1)\<rparr>
               else n1))"

definition invalidate_local_page_copy :: "'m kernel \<Rightarrow> nat \<Rightarrow> 'm node \<Rightarrow> 'm node" where
  "invalidate_local_page_copy K i n =
     (if i \<ge> num_pages n then n
      else set_status i PAGE_EMPTY
             (n\<lparr>node_mem := k_dontneed K (node_mem n) (pt_base_addr (page_table n ! i))\<rparr>))"

definition writeprotect_local_page_copy :: "'m kernel \<Rightarrow> nat \<Rightarrow> 'm node \<Rightarrow> 'm node" where
  "writeprotect_local_page_copy K i n =
     (if i \<ge> num_pages n then n
      else if pt_status (page_table n ! i) = PAGE_VALID then
        n\<lparr>node_mem := k_writeprotect K (node_mem n) (pt_base_addr (page_table n ! i)) True\<rparr>
      else n)"

section \<open>The directory and the pending requests\<close>

definition to_shared :: "nat \<Rightarrow> u32 \<Rightarrow> 'm node \<Rightarrow> (u32 \<times> 'm node) comp" where
  "to_shared i reader n =
     andthen (gpd_transition_to_shared (node_gpd n) i reader 0) (\<lambda>(_, old, g).
       Inr (old, n\<lparr>node_gpd := g\<rparr>))"

definition to_modified :: "nat \<Rightarrow> u32 \<Rightarrow> 'm node \<Rightarrow> (u64 \<times> 'm node) comp" where
  "to_modified i writer n =
     andthen (gpd_transition_to_modified (node_gpd n) i writer 0) (\<lambda>(_, msk, g).
       Inr (msk, n\<lparr>node_gpd := g\<rparr>))"

definition get_pending :: "nat \<Rightarrow> 'm node \<Rightarrow> coord_pending comp" where
  "get_pending i n =
     (case gpd_pending_reqs n of None \<Rightarrow> Inl NullDeref | Some ps \<Rightarrow> get_at ps i)"

definition put_pending :: "nat \<Rightarrow> (coord_pending \<Rightarrow> coord_pending) \<Rightarrow> 'm node \<Rightarrow> 'm node comp" where
  "put_pending i f n =
     (case gpd_pending_reqs n of
        None \<Rightarrow> Inl NullDeref
      | Some ps \<Rightarrow> andthen (get_at ps i) (\<lambda>c.
          Inr (n\<lparr>gpd_pending_reqs := Some (ps[i := f c])\<rparr>)))"

text \<open>
  The loops over the 64 slots that count and then notify the nodes of a mask; the requester is
  skipped, except when the request comes from the coordinator's own queue.
\<close>

definition inval_targets :: "u64 \<Rightarrow> u32 option \<Rightarrow> 'm node \<Rightarrow> nat list" where
  "inval_targets msk requester n =
     filter (\<lambda>m. msk AND node_bit m \<noteq> 0 \<and> node_fds n ! m \<noteq> - 1 \<and> Some m \<noteq> map_option unat requester)
       [0..<NODE_SLOTS]"

definition send_invalidates :: "nat \<Rightarrow> nat list \<Rightarrow> 'm node \<Rightarrow> 'm node" where
  "send_invalidates i targets n =
     n\<lparr>sent_packets := sent_packets n @
        map (\<lambda>m. (node_fds n ! m, make_packet MSG_INVALIDATE (of_nat i) 0 zero_page)) targets\<rparr>"

text \<open>The loops that remember or forget the socket of a node.\<close>

definition learn_node_fd :: "u32 \<Rightarrow> int \<Rightarrow> 'm node \<Rightarrow> 'm node" where
  "learn_node_fd sender fd n =
     (if unat sender < NODE_SLOTS then n\<lparr>node_fds := (node_fds n)[unat sender := fd]\<rparr> else n)"

definition forget_fd :: "int \<Rightarrow> 'm node \<Rightarrow> 'm node" where
  "forget_fd fd n =
     n\<lparr>node_fds := map (\<lambda>f. if f = fd then - 1 else f) (node_fds n),
       coordinator_fd := (if fd = coordinator_fd n then - 1 else coordinator_fd n)\<rparr>"

section \<open>Well-formed nodes\<close>

definition node_inv :: "'m node \<Rightarrow> bool" where
  "node_inv n \<longleftrightarrow>
     valid_node (local_node_id n) \<and> length (node_fds n) = NODE_SLOTS \<and>
     gpd_safe (node_gpd n) \<and> length (node_gpd n) = num_pages n \<and> num_pages n < 2 ^ 31 \<and>
     (case gpd_pending_reqs n of
        None \<Rightarrow> True
      | Some ps \<Rightarrow> length ps = num_pages n \<and>
          (\<forall>c \<in> set ps. cp_requester_node_id c = 0 \<or> valid_node (cp_requester_node_id c)))"

lemmas local_ops = install_page_def lift_protection_def invalidate_local_page_copy_def
  writeprotect_local_page_copy_def set_status_def learn_node_fd_def forget_fd_def send_packet_def
  send_invalidates_def

lemma num_pages_simps [simp]:
  "num_pages (n\<lparr>node_mem := m\<rparr>) = num_pages n" "num_pages (n\<lparr>node_gpd := g\<rparr>) = num_pages n"
  "num_pages (n\<lparr>gpd_pending_reqs := ps\<rparr>) = num_pages n"
  "num_pages (n\<lparr>eviction_ring := r\<rparr>) = num_pages n"
  "num_pages (n\<lparr>sent_packets := o'\<rparr>) = num_pages n" "num_pages (n\<lparr>node_fds := fds\<rparr>) = num_pages n"
  "num_pages (n\<lparr>coordinator_fd := c\<rparr>) = num_pages n"
  "num_pages (set_status i st n) = num_pages n"
  by (simp_all add: num_pages_def set_status_def)

text \<open>
  Operations that leave the node's descriptors, directory and pending requests alone, change the page
  table only at page \<open>i\<close>, and never the base addresses: the local half of every handler.
\<close>

definition local_change :: "nat \<Rightarrow> 'm node \<Rightarrow> 'm node \<Rightarrow> bool" where
  "local_change i n n' \<longleftrightarrow>
     local_node_id n' = local_node_id n \<and> coordinator_fd n' = coordinator_fd n \<and>
     node_fds n' = node_fds n \<and> node_gpd n' = node_gpd n \<and>
     gpd_pending_reqs n' = gpd_pending_reqs n \<and> sent_packets n' = sent_packets n \<and>
     length (eviction_ring n') = length (eviction_ring n) \<and>
     (\<exists>st. page_table n' = (page_table n)[i := (page_table n ! i)\<lparr>pt_status := st\<rparr>])"

lemma local_change_pages: "local_change i n n' \<Longrightarrow> num_pages n' = num_pages n"
  by (auto simp: local_change_def num_pages_def)

lemma local_change_inv: "local_change i n n' \<Longrightarrow> node_inv n \<Longrightarrow> node_inv n'"
  using local_change_pages [of i n n']
  by (cases "gpd_pending_reqs n") (simp_all add: local_change_def node_inv_def)

lemma status_update_self: "(page_table n)[i := (page_table n ! i)\<lparr>pt_status := pt_status (page_table n ! i)\<rparr>] =
    page_table n"
  by simp

lemma install_page_change:
  "install_page K i bytes n = Inr n' \<Longrightarrow> local_change i n n'"
  by (auto simp: local_ops local_change_def Let_def)

lemma lift_protection_change:
  "lift_protection K i mark n = Inr n' \<Longrightarrow> local_change i n n'"
  by (auto simp: local_ops local_change_def Let_def)

lemma invalidate_change: "local_change i n (invalidate_local_page_copy K i n)"
  by (cases "i < num_pages n") (auto simp: local_ops local_change_def num_pages_def not_less list_update_beyond)

lemma writeprotect_change: "local_change i n (writeprotect_local_page_copy K i n)"
  by (auto simp: local_ops local_change_def intro: exI [of _ "pt_status (page_table n ! i)"])

lemma install_page_returns: "i < num_pages n \<Longrightarrow> \<exists>n'. install_page K i bytes n = Inr n'"
  by (simp add: install_page_def num_pages_def Let_def)

lemma lift_protection_returns: "i < num_pages n \<Longrightarrow> \<exists>n'. lift_protection K i mark n = Inr n'"
  by (simp add: lift_protection_def num_pages_def Let_def)

section \<open>What the operations do to the memory\<close>

lemma view_copy_in [simp]:
  assumes "kernel_ok K"
  shows "view K (copy_in K m a bytes) = (view K m)(a \<mapsto> (bytes, False))"
proof (cases "view K m a")
  case None
  obtain r m1 where r: "k_copy K m a bytes = (r, m1)" by (cases "k_copy K m a bytes")
  then have "r = CopyOk" "view K m1 = (view K m)(a \<mapsto> (bytes, False))"
    using k_copy_absent [OF assms None, of bytes] by auto
  then show ?thesis using r by (simp add: copy_in_def)
next
  case (Some pb)
  have gone: "view K (k_dontneed K m a) a = None" using assms by simp
  have "view K (snd (k_copy K (k_dontneed K m a) a bytes)) = (view K m)(a \<mapsto> (bytes, False))"
    using k_copy_absent [OF assms gone, of bytes] assms by simp
  then show ?thesis using k_copy_present [OF assms, of m a bytes] Some by (simp add: copy_in_def)
qed

lemma install_page_view:
  "kernel_ok K \<Longrightarrow> install_page K i bytes n = Inr n' \<Longrightarrow>
     view K (node_mem n') = (view K (node_mem n))(pt_base_addr (page_table n ! i) \<mapsto> (bytes, False)) \<and>
     pt_status (page_table n' ! i) = PAGE_VALID"
  by (auto simp: local_ops Let_def)

lemma lift_protection_view:
  "kernel_ok K \<Longrightarrow> lift_protection K i mark n = Inr n' \<Longrightarrow>
     view K (node_mem n') = (view K (node_mem n))(pt_base_addr (page_table n ! i) :=
       map_option (\<lambda>(p, _). (p, False)) (view K (node_mem n) (pt_base_addr (page_table n ! i)))) \<and>
     pt_status (page_table n' ! i) = PAGE_VALID"
  by (auto simp: local_ops Let_def)

lemma invalidate_view:
  "kernel_ok K \<Longrightarrow> i < num_pages n \<Longrightarrow>
     view K (node_mem (invalidate_local_page_copy K i n)) =
       (view K (node_mem n))(pt_base_addr (page_table n ! i) := None) \<and>
     pt_status (page_table (invalidate_local_page_copy K i n) ! i) = PAGE_EMPTY"
  by (auto simp: local_ops num_pages_def)

section \<open>The targets of an invalidation\<close>

lemma set_inval_targets:
  "set (inval_targets msk requester n) =
     {m \<in> nodes_of msk. node_fds n ! m \<noteq> - 1 \<and> Some m \<noteq> map_option unat requester}"
proof -
  have "x < 64 \<and> msk AND node_bit x \<noteq> 0 \<longleftrightarrow> bit msk x" for x
    using and_node_bit_nonzero [of x msk] bit_word_less [of msk x] by blast
  then show ?thesis by (auto simp: inval_targets_def NODE_SLOTS_def in_nodes_of)
qed

lemma distinct_inval_targets [simp]: "distinct (inval_targets msk requester n)"
  by (simp add: inval_targets_def)

lemma length_inval_targets: "length (inval_targets msk requester n) \<le> 64"
  using length_filter_le [of _ "[0..<NODE_SLOTS]"] by (simp add: inval_targets_def NODE_SLOTS_def)

lemma inval_count_zero_iff [simp]:
  "(of_nat (length (inval_targets msk requester n)) :: u32) = 0 \<longleftrightarrow> inval_targets msk requester n = []"
proof -
  have "length (inval_targets msk requester n) < 2 ^ LENGTH(32)"
    by (rule le_less_trans [OF length_inval_targets]) simp
  then have "unat (of_nat (length (inval_targets msk requester n)) :: u32) =
      length (inval_targets msk requester n)"
    by (rule of_nat_inverse [OF refl])
  then show ?thesis by (simp only: unat_0_iff [symmetric] length_0_conv)
qed

section \<open>Steps that keep a node well formed\<close>

definition kept :: "'m node \<Rightarrow> 'm node \<Rightarrow> bool" where
  "kept n n' \<longleftrightarrow> (node_inv n \<longrightarrow> node_inv n') \<and> num_pages n' = num_pages n \<and>
     local_node_id n' = local_node_id n \<and>
     (gpd_pending_reqs n' = None \<longleftrightarrow> gpd_pending_reqs n = None)"

text \<open>The same for operations that also leave the sockets alone.\<close>

definition steady :: "'m node \<Rightarrow> 'm node \<Rightarrow> bool" where
  "steady n n' \<longleftrightarrow> kept n n' \<and> node_fds n' = node_fds n \<and> coordinator_fd n' = coordinator_fd n"

lemma keptD:
  "kept n n' \<Longrightarrow> node_inv n \<Longrightarrow> node_inv n'" "kept n n' \<Longrightarrow> num_pages n' = num_pages n"
  "kept n n' \<Longrightarrow> local_node_id n' = local_node_id n"
  "kept n n' \<Longrightarrow> gpd_pending_reqs n' = None \<longleftrightarrow> gpd_pending_reqs n = None"
  by (simp_all add: kept_def)

lemma kept_trans: "kept n n1 \<Longrightarrow> kept n1 n2 \<Longrightarrow> kept n n2"
  by (auto simp: kept_def)

lemma steady_kept: "steady n n' \<Longrightarrow> kept n n'"
  by (simp add: steady_def)

named_theorems steady_intros \<open>operations that keep a node well formed\<close>

lemma steady_refl [steady_intros]: "steady n n"
  by (simp add: steady_def kept_def)

lemma steady_trans: "steady n n1 \<Longrightarrow> steady n1 n2 \<Longrightarrow> steady n n2"
  by (auto simp: steady_def kept_def)

lemma local_change_steady: "local_change i n n' \<Longrightarrow> steady n n'"
  using local_change_inv [of i n n'] local_change_pages [of i n n']
  by (auto simp: steady_def kept_def local_change_def)

lemmas install_page_steady [steady_intros] = install_page_change [THEN local_change_steady]
lemmas lift_protection_steady [steady_intros] = lift_protection_change [THEN local_change_steady]
lemmas invalidate_steady [steady_intros] = invalidate_change [THEN local_change_steady]
lemmas writeprotect_steady [steady_intros] = writeprotect_change [THEN local_change_steady]

lemma send_steady [steady_intros]: "steady n (send_packet fd pkt n)"
  by (auto simp: steady_def kept_def node_inv_def send_packet_def num_pages_def split: option.splits)

lemma send_invalidates_steady [steady_intros]: "steady n (send_invalidates i targets n)"
  by (auto simp: steady_def kept_def node_inv_def send_invalidates_def num_pages_def split: option.splits)

lemma learn_node_fd_kept: "kept n (learn_node_fd sender fd n)"
  by (auto simp: kept_def node_inv_def learn_node_fd_def num_pages_def split: option.splits)

lemma forget_fd_kept: "kept n (forget_fd fd n)"
  by (auto simp: kept_def node_inv_def forget_fd_def num_pages_def split: option.splits)

lemma to_shared_returns:
  assumes "node_inv n" and "i < num_pages n" and "valid_node reader"
  obtains e n' where "to_shared i reader n = Inr (owner_node_id (node_gpd n ! i), n')"
    and "n' = n\<lparr>node_gpd := (node_gpd n)[i := e]\<rparr>" and "entry_safe e" and "state e = STATE_SHARED"
    and "entry_ok (node_gpd n ! i) \<longrightarrow> abs_entry e = dir_read (unat reader) (abs_entry (node_gpd n ! i))"
  using assms to_shared_safe [of "node_gpd n" i reader 0]
  by (auto simp: to_shared_def node_inv_def)

lemma to_modified_returns:
  assumes "node_inv n" and "i < num_pages n" and "valid_node writer"
  obtains e msk n' where "to_modified i writer n = Inr (msk, n')"
    and "n' = n\<lparr>node_gpd := (node_gpd n)[i := e]\<rparr>" and "entry_safe e"
    and "nodes_of msk = gpd_holders (node_gpd n) i - {unat writer}"
    and "state e = STATE_MODIFIED" and "owner_node_id e = writer"
  using assms to_modified_safe [of "node_gpd n" i writer 0]
  by (auto simp: to_modified_def node_inv_def)

lemma gpd_update_steady:
  "entry_safe e \<Longrightarrow> steady n (n\<lparr>node_gpd := (node_gpd n)[i := e]\<rparr>)"
  by (auto simp: steady_def kept_def node_inv_def gpd_safe_update num_pages_def split: option.splits)

lemma to_shared_steady:
  "to_shared i reader n = Inr (old, n') \<Longrightarrow> node_inv n \<Longrightarrow> i < num_pages n \<Longrightarrow> valid_node reader \<Longrightarrow>
     steady n n'"
  using to_shared_returns [of n i reader] gpd_update_steady by (metis Pair_inject sum.inject(2))

lemma to_modified_steady:
  "to_modified i writer n = Inr (msk, n') \<Longrightarrow> node_inv n \<Longrightarrow> i < num_pages n \<Longrightarrow> valid_node writer \<Longrightarrow>
     steady n n'"
  using to_modified_returns [of n i writer] gpd_update_steady by (metis Pair_inject sum.inject(2))

lemma put_pending_steady:
  assumes "put_pending i f n = Inr n'"
    and "\<And>c. cp_requester_node_id c = 0 \<or> valid_node (cp_requester_node_id c) \<Longrightarrow>
      cp_requester_node_id (f c) = 0 \<or> valid_node (cp_requester_node_id (f c))"
  shows "steady n n'"
proof (cases "gpd_pending_reqs n")
  case (Some ps)
  then have n': "n' = n\<lparr>gpd_pending_reqs := Some (ps[i := f (ps ! i)])\<rparr>" "i < length ps"
    using assms(1) by (auto simp: put_pending_def)
  have "\<forall>c \<in> set (ps[i := f (ps ! i)]). cp_requester_node_id c = 0 \<or> valid_node (cp_requester_node_id c)"
    if "\<forall>c \<in> set ps. cp_requester_node_id c = 0 \<or> valid_node (cp_requester_node_id c)"
    using that assms(2) [of "ps ! i"] n'(2) set_update_subset_insert [of ps i "f (ps ! i)"]
    by (auto dest: subsetD)
  then show ?thesis
    using Some n' by (auto simp: steady_def kept_def node_inv_def)
qed (use assms in \<open>simp add: put_pending_def\<close>)

lemma get_pending_ok:
  "node_inv n \<Longrightarrow> get_pending i n = Inr c \<Longrightarrow> cp_requester_node_id c = 0 \<or> valid_node (cp_requester_node_id c)"
  by (auto simp: node_inv_def get_pending_def split: option.splits)

lemma get_pending_returns:
  "node_inv n \<Longrightarrow> gpd_pending_reqs n \<noteq> None \<Longrightarrow> i < num_pages n \<Longrightarrow> \<exists>c. get_pending i n = Inr c"
  by (auto simp: node_inv_def get_pending_def)

lemma put_pending_returns:
  "node_inv n \<Longrightarrow> gpd_pending_reqs n \<noteq> None \<Longrightarrow> i < num_pages n \<Longrightarrow> \<exists>n'. put_pending i f n = Inr n'"
  by (auto simp: node_inv_def put_pending_def)

lemma put_then_get:
  "put_pending i f n = Inr n' \<Longrightarrow> \<exists>c. get_pending i n = Inr c \<and> get_pending i n' = Inr (f c)"
  by (auto simp: put_pending_def get_pending_def split: option.splits)

lemma put_pending_frame:
  assumes "put_pending i f n = Inr n'"
  shows "sent_packets n' = sent_packets n" "node_mem n' = node_mem n" "page_table n' = page_table n"
    "node_gpd n' = node_gpd n" "node_fds n' = node_fds n" "local_node_id n' = local_node_id n"
    "coordinator_fd n' = coordinator_fd n" "eviction_ring n' = eviction_ring n"
    "num_pages n' = num_pages n"
  using assms by (auto simp: put_pending_def num_pages_def split: option.splits)

end
