(* ===== verification/Request_Queue.thy ===== *)
theory Request_Queue
  imports Dsm_Prelude
begin

text \<open>
  The page request queue of \<^verbatim>\<open>queue.h\<close> and \<^verbatim>\<open>queue.c\<close>: a ring of 128 slots between the fault handler
  (\<open>queue_push\<close>) and the network engine (\<open>queue_pop\<close>), each call one critical section under
  \<open>q->lock\<close>. The contract the two clients rely on is the locale \<open>bounded_fifo\<close>; its client lemmas
  are about histories of calls and about the loop that pops until the queue is empty.
\<close>

section \<open>State and operations\<close>

definition QUEUE_CAPACITY :: nat where
  "QUEUE_CAPACITY = 128"

record page_request =
  rq_page_index :: u64
  rq_is_write :: bool

text \<open>
  \<open>notify_log\<close> records the values written to the eventfd \<open>notify_fd\<close>, oldest first; the result
  of that \<open>write\<close> is ignored by the code.
\<close>

record request_queue =
  q_data :: "page_request list"
  q_head :: nat
  q_tail :: nat
  q_size :: nat
  notify_fd :: int
  notify_log :: "u64 list"

text \<open>\<open>None\<close>: \<open>eventfd\<close> failed and the process exits. The slots keep their old values.\<close>

definition queue_init :: "request_queue \<Rightarrow> int \<Rightarrow> request_queue option" where
  "queue_init q fd =
     (let q' = q\<lparr>q_head := 0, q_tail := 0, q_size := 0, notify_fd := fd, notify_log := []\<rparr>
      in if fd < 0 then None else Some q')"

definition queue_push :: "request_queue \<Rightarrow> page_request \<Rightarrow> int \<times> request_queue" where
  "queue_push q req =
     (if q_size q = QUEUE_CAPACITY then (- 1, q)
      else (0, q\<lparr>q_data := (q_data q)[q_tail q := req],
                 q_tail := (q_tail q + 1) mod QUEUE_CAPACITY,
                 q_size := q_size q + 1,
                 notify_log := notify_log q @ [1]\<rparr>))"

text \<open>\<open>None\<close> stands for the result -1, which leaves \<open>*out_req\<close> alone.\<close>

definition queue_pop :: "request_queue \<Rightarrow> page_request option \<times> request_queue" where
  "queue_pop q =
     (if q_size q = 0 then (None, q)
      else (Some (q_data q ! q_head q),
            q\<lparr>q_head := (q_head q + 1) mod QUEUE_CAPACITY, q_size := q_size q - 1\<rparr>))"

section \<open>The contract of a bounded queue and its clients\<close>

datatype 'a queue_call = Push 'a | Pop

text \<open>
  A history of calls on a queue: the values the pushes were accepted with, the values the pops
  returned, and the queue at the end. \<open>pop_loop\<close> is the shape
  \<open>while (queue_pop(q, &r) == 0) { s = body(s, r); }\<close> of the network engine, with fuel.
\<close>

fun run_calls ::
  "('q \<Rightarrow> 'a \<Rightarrow> int \<times> 'q) \<Rightarrow> ('q \<Rightarrow> 'a option \<times> 'q) \<Rightarrow> 'q \<Rightarrow> 'a queue_call list \<Rightarrow>
     'a list \<times> 'a list \<times> 'q" where
  "run_calls push pop q [] = ([], [], q)"
| "run_calls push pop q (Push x # cs) =
     (let (r, q') = push q x; (acc, out, q'') = run_calls push pop q' cs
      in (if r = 0 then x # acc else acc, out, q''))"
| "run_calls push pop q (Pop # cs) =
     (let (r, q') = pop q; (acc, out, q'') = run_calls push pop q' cs
      in (acc, (case r of None \<Rightarrow> out | Some x \<Rightarrow> x # out), q''))"

fun pop_loop ::
  "('q \<Rightarrow> 'a option \<times> 'q) \<Rightarrow> ('s \<Rightarrow> 'a \<Rightarrow> 's) \<Rightarrow> nat \<Rightarrow> 'q \<Rightarrow> 's \<Rightarrow> ('q \<times> 's) option" where
  "pop_loop pop body 0 q s = None"
| "pop_loop pop body (Suc fuel) q s =
     (case pop q of
        (None, q') \<Rightarrow> Some (q', s)
      | (Some x, q') \<Rightarrow> pop_loop pop body fuel q' (body s x))"

locale bounded_fifo =
  fixes inv :: "'q \<Rightarrow> bool"
    and contents :: "'q \<Rightarrow> 'a list"
    and cap :: nat
    and push :: "'q \<Rightarrow> 'a \<Rightarrow> int \<times> 'q"
    and pop :: "'q \<Rightarrow> 'a option \<times> 'q"
  assumes push_full: "inv q \<Longrightarrow> length (contents q) = cap \<Longrightarrow> push q x = (- 1, q)"
    and push_room: "inv q \<Longrightarrow> length (contents q) \<noteq> cap \<Longrightarrow>
          fst (push q x) = 0 \<and> inv (snd (push q x)) \<and>
          contents (snd (push q x)) = contents q @ [x]"
    and pop_empty: "inv q \<Longrightarrow> contents q = [] \<Longrightarrow> pop q = (None, q)"
    and pop_some: "inv q \<Longrightarrow> contents q = x # xs \<Longrightarrow>
          fst (pop q) = Some x \<and> inv (snd (pop q)) \<and> contents (snd (pop q)) = xs"
    and within_cap: "inv q \<Longrightarrow> length (contents q) \<le> cap"
begin

lemma push_inv: "inv q \<Longrightarrow> inv (snd (push q x))"
  by (cases "length (contents q) = cap") (auto simp: push_full push_room)

lemma push_zero_iff: "inv q \<Longrightarrow> fst (push q x) = 0 \<longleftrightarrow> length (contents q) < cap"
  using push_full [of q x] push_room [of q x] within_cap [of q]
  by (cases "length (contents q) = cap") auto

lemma pop_inv: "inv q \<Longrightarrow> inv (snd (pop q))"
  by (cases "contents q") (auto simp: pop_empty pop_some)

text \<open>Every accepted value comes out once, in the order of the pushes.\<close>

lemma run_calls_fifo:
  "inv q \<Longrightarrow> run_calls push pop q cs = (acc, out, q') \<Longrightarrow>
     inv q' \<and> contents q @ acc = out @ contents q'"
proof (induction cs arbitrary: q acc out)
  case Nil
  then show ?case by simp
next
  case (Cons c cs)
  show ?case
  proof (cases c)
    case (Push x)
    obtain r q1 where q1: "push q x = (r, q1)" by fastforce
    obtain acc1 where r: "run_calls push pop q1 cs = (acc1, out, q')"
      and acc: "acc = (if r = 0 then x # acc1 else acc1)"
      using Cons.prems(2) q1 Push by (auto split: prod.splits if_splits)
    have "inv q1" and "contents q1 = contents q @ (if r = 0 then [x] else [])"
      using push_full [OF Cons.prems(1), of x] push_room [OF Cons.prems(1), of x] q1 Cons.prems(1)
      by (cases "length (contents q) = cap"; simp)+
    then show ?thesis
      using Cons.IH [OF _ r] acc by (simp split: if_splits)
  next
    case Pop
    obtain r q1 where q1: "pop q = (r, q1)" by fastforce
    obtain out1 where r: "run_calls push pop q1 cs = (acc, out1, q')"
      and out: "out = (case r of None \<Rightarrow> out1 | Some x \<Rightarrow> x # out1)"
      using Cons.prems(2) q1 Pop by (auto split: prod.splits)
    have "inv q1" and "contents q = (case r of None \<Rightarrow> [] | Some x \<Rightarrow> [x]) @ contents q1"
      using pop_empty [OF Cons.prems(1)] pop_some [OF Cons.prems(1)] q1 Cons.prems(1)
      by (cases "contents q"; simp)+
    then show ?thesis
      using Cons.IH [OF _ r] out by (cases r) auto
  qed
qed

text \<open>The loop returns, has handled the contents in order and leaves the queue empty.\<close>

lemma pop_loop_drains:
  "inv q \<Longrightarrow> length (contents q) < fuel \<Longrightarrow>
     \<exists>q'. pop_loop pop body fuel q s = Some (q', foldl body s (contents q)) \<and>
          inv q' \<and> contents q' = []"
proof (induction fuel arbitrary: q s)
  case 0
  then show ?case by simp
next
  case (Suc fuel)
  show ?case
  proof (cases "contents q")
    case Nil
    with Suc.prems show ?thesis by (simp add: pop_empty)
  next
    case (Cons x xs)
    obtain q1 where q1: "pop q = (Some x, q1)" "inv q1" "contents q1 = xs"
      using pop_some [OF Suc.prems(1) Cons] by (cases "pop q") auto
    then show ?thesis
      using Suc.IH [of q1 "body s x"] Suc.prems Cons by simp
  qed
qed

end

section \<open>The ring implements the contract\<close>

definition queue_inv :: "request_queue \<Rightarrow> bool" where
  "queue_inv q \<longleftrightarrow>
     length (q_data q) = QUEUE_CAPACITY \<and> q_head q < QUEUE_CAPACITY \<and>
     q_size q \<le> QUEUE_CAPACITY \<and> q_tail q = (q_head q + q_size q) mod QUEUE_CAPACITY"

definition queue_contents :: "request_queue \<Rightarrow> page_request list" where
  "queue_contents q =
     map (\<lambda>k. q_data q ! ((q_head q + k) mod QUEUE_CAPACITY)) [0..<q_size q]"

lemma length_queue_contents [simp]: "length (queue_contents q) = q_size q"
  by (simp add: queue_contents_def)

lemma ring_slot_differs:
  "k < n \<Longrightarrow> n < QUEUE_CAPACITY \<Longrightarrow> (h + k) mod QUEUE_CAPACITY \<noteq> (h + n) mod QUEUE_CAPACITY"
proof
  assume k: "k < n" and n: "n < QUEUE_CAPACITY"
    and eq: "(h + k) mod QUEUE_CAPACITY = (h + n) mod QUEUE_CAPACITY"
  have "QUEUE_CAPACITY dvd (h + n) - (h + k)"
    using eq mod_eq_dvd_iff_nat [of "h + k" "h + n" QUEUE_CAPACITY] k by simp
  then have "QUEUE_CAPACITY \<le> n - k"
    using k by (intro dvd_imp_le) auto
  with n show False by simp
qed

lemma queue_push_contents:
  assumes "queue_inv q" and "q_size q \<noteq> QUEUE_CAPACITY"
  shows "queue_contents (snd (queue_push q x)) = queue_contents q @ [x]"
proof (rule nth_equalityI)
  let ?q = "snd (queue_push q x)"
  show "length (queue_contents ?q) = length (queue_contents q @ [x])"
    using assms by (simp add: queue_push_def)
  fix i
  assume "i < length (queue_contents ?q)"
  then have i: "i < Suc (q_size q)"
    using assms by (simp add: queue_push_def)
  have bound: "q_size q < QUEUE_CAPACITY"
    using assms by (simp add: queue_inv_def)
  show "queue_contents ?q ! i = (queue_contents q @ [x]) ! i"
  proof (cases "i < q_size q")
    case True
    then have "(q_head q + i) mod QUEUE_CAPACITY \<noteq> q_tail q"
      using ring_slot_differs [OF True bound] assms(1) by (simp add: queue_inv_def)
    with True assms show ?thesis
      by (simp add: queue_contents_def queue_push_def nth_append del: upt_Suc)
  next
    case False
    with i have "i = q_size q" by simp
    then show ?thesis
      using assms by (simp add: queue_contents_def queue_push_def queue_inv_def nth_append
          QUEUE_CAPACITY_def del: upt_Suc)
  qed
qed

lemma queue_pop_contents:
  assumes "q_size q \<noteq> 0" and "q_head q < QUEUE_CAPACITY"
  shows "queue_contents q = q_data q ! q_head q # queue_contents (snd (queue_pop q))"
proof -
  have "[0..<q_size q] = 0 # map Suc [0..<q_size q - 1]"
    using assms(1) by (simp add: map_Suc_upt upt_conv_Cons)
  moreover have "(q_head q + Suc k) mod QUEUE_CAPACITY =
      ((q_head q + 1) mod QUEUE_CAPACITY + k) mod QUEUE_CAPACITY" for k
    by (simp add: mod_simps)
  ultimately show ?thesis
    using assms by (simp add: queue_contents_def queue_pop_def comp_def)
qed

lemma queue_push_inv: "queue_inv q \<Longrightarrow> queue_inv (snd (queue_push q x))"
  by (auto simp: queue_inv_def queue_push_def mod_Suc_eq Suc_le_eq)

lemma queue_pop_inv: "queue_inv q \<Longrightarrow> queue_inv (snd (queue_pop q))"
proof -
  assume inv: "queue_inv q"
  have "(Suc h mod n + k) mod n = (h + Suc k) mod n" for h k n :: nat
    by (simp add: mod_add_left_eq)
  then show ?thesis
    using inv by (cases "q_size q") (auto simp: queue_inv_def queue_pop_def QUEUE_CAPACITY_def)
qed

interpretation rq: bounded_fifo queue_inv queue_contents QUEUE_CAPACITY queue_push queue_pop
proof unfold_locales
  fix q x xs
  assume inv: "queue_inv q" and c: "queue_contents q = x # xs"
  have "q_size q \<noteq> 0" and "q_head q < QUEUE_CAPACITY"
    using inv arg_cong [OF c, of length] by (auto simp: queue_inv_def)
  then show "fst (queue_pop q) = Some x \<and> queue_inv (snd (queue_pop q)) \<and>
      queue_contents (snd (queue_pop q)) = xs"
    using queue_pop_contents [of q] c queue_pop_inv [OF inv] by (simp add: queue_pop_def)
next
  fix q
  assume "queue_contents q = []"
  then have "length (queue_contents q) = 0" by simp
  then show "queue_pop q = (None, q)" by (simp add: queue_pop_def)
next
  fix q x
  assume "queue_inv q" and "length (queue_contents q) \<noteq> QUEUE_CAPACITY"
  then show "fst (queue_push q x) = 0 \<and> queue_inv (snd (queue_push q x)) \<and>
      queue_contents (snd (queue_push q x)) = queue_contents q @ [x]"
    by (auto simp: queue_push_contents queue_push_inv) (simp add: queue_push_def)
qed (auto simp: queue_push_def queue_inv_def)

section \<open>Properties\<close>

lemma queue_init_inv:
  "queue_init q fd = Some q' \<Longrightarrow> length (q_data q) = QUEUE_CAPACITY \<Longrightarrow>
     queue_inv q' \<and> queue_contents q' = [] \<and> notify_log q' = []"
  by (auto simp: queue_init_def queue_inv_def queue_contents_def QUEUE_CAPACITY_def Let_def
      split: if_splits)

lemma queue_push_notify:
  "notify_log (snd (queue_push q x)) =
     notify_log q @ (if fst (queue_push q x) = 0 then [1] else [])"
  by (simp add: queue_push_def)

lemma run_calls_notify:
  "run_calls queue_push queue_pop q cs = (acc, out, q') \<Longrightarrow>
     notify_log q' = notify_log q @ replicate (length acc) 1"
proof (induction cs arbitrary: q acc out)
  case (Cons c cs)
  show ?case
  proof (cases c)
    case (Push x)
    with Cons.prems show ?thesis
      using queue_push_notify [of q x]
      by (auto split: prod.splits if_splits dest!: Cons.IH)
  next
    case Pop
    then have "notify_log (snd (queue_pop q)) = notify_log q"
      by (simp add: queue_pop_def)
    with Pop Cons.prems show ?thesis
      by (auto split: prod.splits dest!: Cons.IH)
  qed
qed simp

text \<open>C15. From \<open>queue_init\<close> on, whatever the order of pushes and pops, the values popped so far
  followed by the values still queued are exactly the accepted pushes in order: no request is lost,
  duplicated or reordered, and the engine's eventfd has been written once per accepted request.\<close>

theorem queue_history_fifo:
  assumes "queue_init q0 fd = Some q" and "length (q_data q0) = QUEUE_CAPACITY"
    and "run_calls queue_push queue_pop q calls = (accepted, popped, q')"
  shows "accepted = popped @ queue_contents q' \<and>
    notify_log q' = replicate (length accepted) 1 \<and> q_size q' \<le> QUEUE_CAPACITY"
proof -
  note init = queue_init_inv [OF assms(1,2)]
  have "queue_inv q' \<and> queue_contents q @ accepted = popped @ queue_contents q'"
    using rq.run_calls_fifo [OF _ assms(3)] init by blast
  with init show ?thesis
    using run_calls_notify [OF assms(3)] by (simp add: queue_inv_def)
qed

definition blank_queue :: request_queue where
  "blank_queue = \<lparr>q_data = replicate QUEUE_CAPACITY \<lparr>rq_page_index = 0, rq_is_write = False\<rparr>,
     q_head = 0, q_tail = 0, q_size = 0, notify_fd = -1, notify_log = []\<rparr>"

theorem queue_history_fifo_witness:
  "\<exists>q q'. queue_init blank_queue 5 = Some q \<and>
     run_calls queue_push queue_pop q
       [Push \<lparr>rq_page_index = 3, rq_is_write = True\<rparr>, Push \<lparr>rq_page_index = 1, rq_is_write = False\<rparr>, Pop] =
       ([\<lparr>rq_page_index = 3, rq_is_write = True\<rparr>, \<lparr>rq_page_index = 1, rq_is_write = False\<rparr>],
        [\<lparr>rq_page_index = 3, rq_is_write = True\<rparr>], q') \<and>
     queue_contents q' = [\<lparr>rq_page_index = 1, rq_is_write = False\<rparr>]"
proof -
  let ?a = "\<lparr>rq_page_index = 3, rq_is_write = True\<rparr>"
  let ?b = "\<lparr>rq_page_index = 1, rq_is_write = False\<rparr>"
  obtain q where q: "queue_init blank_queue 5 = Some q"
    by (simp add: queue_init_def Let_def)
  obtain q' where r: "run_calls queue_push queue_pop q [Push ?a, Push ?b, Pop] = ([?a, ?b], [?a], q')"
    using q by (auto simp: queue_init_def queue_push_def queue_pop_def blank_queue_def Let_def
        QUEUE_CAPACITY_def)
  have "length (q_data blank_queue) = QUEUE_CAPACITY" by (simp add: blank_queue_def)
  from queue_history_fifo [OF q this r] have "queue_contents q' = [?b]" by simp
  with q r show ?thesis by blast
qed

end
