(* ===== verification/Net_Handlers.thy ===== *)
theory Net_Handlers
  imports Node_State Request_Queue
begin

text \<open>
  What the engine of \<^verbatim>\<open>network_engine.c\<close> does with one complete packet from a peer, by packet
  type, and with one request of this process' own fault handler. Each handler is the code between the
  completion of a packet and the reset of the session; \<open>client_fd\<close> is the socket it came from.
\<close>

section \<open>Granting a write\<close>

text \<open>
  The code that follows every write transition for a remote node: notify the other holders, and
  either remember the grant until they have answered or make it now. \<open>remember\<close> updates the
  pending entry, \<open>grant\<close> is the immediate grant.
\<close>

definition invalidate_then_grant ::
  "u64 \<Rightarrow> nat list \<Rightarrow> (coord_pending \<Rightarrow> coord_pending) \<Rightarrow> ('m node \<Rightarrow> 'm node comp) \<Rightarrow> 'm node \<Rightarrow>
     'm node comp" where
  "invalidate_then_grant idx targets remember grant n =
     (let ack_count = of_nat (length targets) :: u32 in
      if ack_count > 0 then
        andthen (put_pending (unat idx) (\<lambda>c. (remember c)\<lparr>cp_expected_acks := ack_count\<rparr>) n) (\<lambda>n1.
          Inr (send_invalidates (unat idx) targets n1))
      else grant n)"

section \<open>Joining and invalidation\<close>

definition on_node_join :: "int \<Rightarrow> dsm_packet \<Rightarrow> 'm node \<Rightarrow> 'm node comp" where
  "on_node_join client_fd pkt n = Inr (learn_node_fd (pkt_sender_node_id pkt) client_fd n)"

definition on_invalidate :: "'m kernel \<Rightarrow> int \<Rightarrow> dsm_packet \<Rightarrow> 'm node \<Rightarrow> 'm node comp" where
  "on_invalidate K client_fd pkt n =
     (let idx = pkt_page_index pkt in
      if unat idx < num_pages n then
        andthen (get_at (page_table n) (unat idx)) (\<lambda>p.
          let n1 = set_status (unat idx) PAGE_EMPTY
                (n\<lparr>node_mem := k_dontneed K (node_mem n) (pt_base_addr p)\<rparr>);
              ack_pkt = make_packet MSG_INVALIDATE_ACK idx (local_node_id n) zero_page
          in Inr (send_packet (if coordinator_fd n1 \<noteq> - 1 then coordinator_fd n1 else client_fd) ack_pkt n1))
      else Inr n)"

lemma on_invalidate_eq:
  "on_invalidate K client_fd pkt n =
     Inr (if unat (pkt_page_index pkt) < num_pages n
          then send_packet (if coordinator_fd n \<noteq> - 1 then coordinator_fd n else client_fd)
            (make_packet MSG_INVALIDATE_ACK (pkt_page_index pkt) (local_node_id n) zero_page)
            (invalidate_local_page_copy K (unat (pkt_page_index pkt)) n)
          else n)"
  by (simp add: on_invalidate_def Let_def num_pages_def invalidate_local_page_copy_def set_status_def)

section \<open>A page arrives\<close>

text \<open>The coordinator passes a fetched page on: to itself or to the node that asked for it.\<close>

definition deliver_fetched :: "'m kernel \<Rightarrow> u32 \<Rightarrow> int \<Rightarrow> dsm_packet \<Rightarrow> 'm node \<Rightarrow> 'm node comp" where
  "deliver_fetched K req_node req_fd pkt n =
     andthen
       (if req_node = local_node_id n then install_page K (unat (pkt_page_index pkt)) (pkt_payload pkt) n
        else Inr (send_packet req_fd pkt n)) (\<lambda>n1.
     put_pending (unat (pkt_page_index pkt)) (\<lambda>c. c\<lparr>cp_requester_node_id := 0\<rparr>) n1)"

text \<open>The coordinator's own copy is dropped when the mask names it and it is not the writer.\<close>

definition drop_own_copy :: "'m kernel \<Rightarrow> u64 \<Rightarrow> u32 \<Rightarrow> u64 \<Rightarrow> 'm node \<Rightarrow> (u64 \<times> 'm node) comp" where
  "drop_own_copy K idx writer msk n =
     andthen (shl1 (local_node_id n)) (\<lambda>own_bit.
       Inr (if msk AND own_bit \<noteq> 0 \<and> local_node_id n \<noteq> writer
            then (msk AND NOT own_bit, invalidate_local_page_copy K (unat idx) n)
            else (msk, n)))"

definition complete_fetch :: "'m kernel \<Rightarrow> dsm_packet \<Rightarrow> coord_pending \<Rightarrow> 'm node \<Rightarrow> 'm node comp" where
  "complete_fetch K pkt c n =
     (let idx = pkt_page_index pkt; req_node = cp_requester_node_id c; req_fd = cp_client_fd c in
      if cp_type c = MSG_REQUEST_PAGE_WRITE then
        andthen (to_modified (unat idx) req_node n) (\<lambda>(msk, n1).
        andthen (drop_own_copy K idx req_node msk n1) (\<lambda>(msk2, n2).
          invalidate_then_grant idx (inval_targets msk2 (Some req_node) n2)
            (\<lambda>c. c\<lparr>cp_deferred_payload := pkt_payload pkt\<rparr>)
            (deliver_fetched K req_node req_fd pkt) n2))
      else
        andthen (to_shared (unat idx) req_node n) (\<lambda>(old, n1).
          deliver_fetched K req_node req_fd pkt n1))"

text \<open>The faulting node gets its page.\<close>

definition accept_page :: "'m kernel \<Rightarrow> dsm_packet \<Rightarrow> 'm node \<Rightarrow> 'm node comp" where
  "accept_page K pkt n =
     (let i = unat (pkt_page_index pkt) in
      andthen (get_at (page_table n) i) (\<lambda>p.
        if pt_status p = PAGE_PENDING \<or> pt_status p = PAGE_WRITE_PENDING \<or> pt_status p = PAGE_EMPTY then
          if pt_status p = PAGE_WRITE_PENDING then lift_protection K i True n
          else install_page K i (pkt_payload pkt) n
        else Inr n))"

definition on_send_page :: "'m kernel \<Rightarrow> int \<Rightarrow> dsm_packet \<Rightarrow> 'm node \<Rightarrow> 'm node comp" where
  "on_send_page K client_fd pkt n =
     (let i = unat (pkt_page_index pkt) in
      if i < num_pages n then
        if coordinator_fd n = - 1 \<and> gpd_pending_reqs n \<noteq> None then
          andthen (get_pending i n) (\<lambda>c.
            if cp_requester_node_id c \<noteq> 0 then complete_fetch K pkt c n else accept_page K pkt n)
        else accept_page K pkt n
      else Inr n)"

section \<open>Acknowledgements\<close>

text \<open>The last acknowledgement releases the remembered grant.\<close>

definition release_grant :: "'m kernel \<Rightarrow> u64 \<Rightarrow> coord_pending \<Rightarrow> 'm node \<Rightarrow> 'm node comp" where
  "release_grant K idx c n =
     andthen (get_at (page_table n) (unat idx)) (\<lambda>p.
     andthen
       (if cp_requester_node_id c = local_node_id n then
          if pt_status p = PAGE_WRITE_PENDING then lift_protection K (unat idx) True n
          else install_page K (unat idx) (cp_deferred_payload c) n
        else
          Inr (send_packet (cp_client_fd c)
            (make_packet MSG_SEND_PAGE idx (local_node_id n) (cp_deferred_payload c)) n)) (\<lambda>n1.
     put_pending (unat idx) (\<lambda>c. c\<lparr>cp_requester_node_id := 0\<rparr>) n1))"

definition on_invalidate_ack :: "'m kernel \<Rightarrow> int \<Rightarrow> dsm_packet \<Rightarrow> 'm node \<Rightarrow> 'm node comp" where
  "on_invalidate_ack K client_fd pkt n =
     (let idx = pkt_page_index pkt in
      if unat idx < num_pages n \<and> gpd_pending_reqs n \<noteq> None then
        andthen (get_pending (unat idx) n) (\<lambda>c.
          if cp_expected_acks c > 0 then
            andthen (put_pending (unat idx) (\<lambda>c. c\<lparr>cp_expected_acks := cp_expected_acks c - 1\<rparr>) n) (\<lambda>n1.
            andthen (get_pending (unat idx) n1) (\<lambda>c1.
              if cp_expected_acks c1 = 0 then release_grant K idx c1 n1 else Inr n1))
          else Inr n)
      else Inr n)"

section \<open>Requests for a page\<close>

text \<open>This node holds a valid copy and serves it.\<close>

definition serve_valid_copy ::
  "'m kernel \<Rightarrow> int \<Rightarrow> u64 \<Rightarrow> u32 \<Rightarrow> bool \<Rightarrow> 'm node \<Rightarrow> 'm node comp" where
  "serve_valid_copy K client_fd idx requester is_write n =
     andthen (get_at (page_table n) (unat idx)) (\<lambda>p.
     andthen (load_page K (node_mem n) (pt_base_addr p)) (\<lambda>bytes.
       let response = make_packet MSG_SEND_PAGE idx (local_node_id n) bytes in
       if is_write then
         andthen (to_modified (unat idx) requester n) (\<lambda>(msk, n1).
           let n2 = invalidate_local_page_copy K (unat idx) n1 in
           andthen (shl1 (local_node_id n2)) (\<lambda>own_bit.
             invalidate_then_grant idx (inval_targets (msk AND NOT own_bit) (Some requester) n2)
               (\<lambda>c. c\<lparr>cp_requester_node_id := requester, cp_type := MSG_REQUEST_PAGE_WRITE,
                      cp_client_fd := client_fd, cp_deferred_payload := bytes\<rparr>)
               (\<lambda>n3. Inr (send_packet client_fd response n3)) n2))
       else
         andthen (to_shared (unat idx) requester n) (\<lambda>(prev_owner, n1).
           Inr (send_packet client_fd response
             (if prev_owner = local_node_id n1 then writeprotect_local_page_copy K (unat idx) n1
              else n1)))))"

text \<open>
  Ask the recorded owner for the page and remember who wants it; the pending entries are only written
  when they were allocated.
\<close>

definition fetch_from_owner ::
  "u64 \<Rightarrow> u32 \<Rightarrow> u32 \<Rightarrow> u8 \<Rightarrow> int \<Rightarrow> 'm node \<Rightarrow> 'm node comp" where
  "fetch_from_owner idx old_owner requester req_type client_fd n =
     andthen
       (if gpd_pending_reqs n \<noteq> None then
          put_pending (unat idx) (\<lambda>c. c\<lparr>cp_requester_node_id := requester, cp_type := req_type,
            cp_client_fd := client_fd, cp_expected_acks := 0\<rparr>) n
        else Inr n) (\<lambda>n1.
     andthen (get_at (node_fds n1) (unat old_owner)) (\<lambda>fd.
       Inr (send_packet fd (make_packet MSG_REQUEST_PAGE_READ idx (local_node_id n1) zero_page) n1)))"

text \<open>Nobody is known to hold the page: the requester gets zeros.\<close>

definition serve_zero_page ::
  "'m kernel \<Rightarrow> int \<Rightarrow> u64 \<Rightarrow> u32 \<Rightarrow> bool \<Rightarrow> 'm node \<Rightarrow> 'm node comp" where
  "serve_zero_page K client_fd idx requester is_write n =
     (let response = make_packet MSG_SEND_PAGE idx (local_node_id n) zero_page in
      if is_write then
        andthen (to_modified (unat idx) requester n) (\<lambda>(msk, n1).
        andthen (drop_own_copy K idx requester msk n1) (\<lambda>(msk2, n2).
          invalidate_then_grant idx (inval_targets msk2 (Some requester) n2)
            (\<lambda>c. c\<lparr>cp_requester_node_id := requester, cp_type := MSG_REQUEST_PAGE_WRITE,
                   cp_client_fd := client_fd, cp_deferred_payload := zero_page\<rparr>)
            (\<lambda>n3. Inr (send_packet client_fd response n3)) n2))
      else
        andthen (to_shared (unat idx) requester n) (\<lambda>(dummy, n1).
          Inr (send_packet client_fd response n1)))"

text \<open>The node slot of the recorded owner has an open socket.\<close>

definition owner_reachable :: "u32 \<Rightarrow> 'm node \<Rightarrow> bool comp" where
  "owner_reachable old_owner n =
     (if old_owner \<noteq> 0 \<and> unat old_owner < NODE_SLOTS
      then andthen (get_at (node_fds n) (unat old_owner)) (\<lambda>fd. Inr (fd \<noteq> - 1))
      else Inr False)"

definition on_request :: "'m kernel \<Rightarrow> int \<Rightarrow> dsm_packet \<Rightarrow> 'm node \<Rightarrow> 'm node comp" where
  "on_request K client_fd pkt n =
     (let idx = pkt_page_index pkt; requester = pkt_sender_node_id pkt;
          req_type = pkt_type pkt; is_write = (req_type = MSG_REQUEST_PAGE_WRITE) in
      if unat idx < num_pages n then
        let n1 = learn_node_fd requester client_fd n in
        andthen (gpd_get_owner (node_gpd n1) (unat idx)) (\<lambda>old_owner.
        andthen (get_at (page_table n1) (unat idx)) (\<lambda>p.
          if pt_status p = PAGE_VALID then serve_valid_copy K client_fd idx requester is_write n1
          else andthen (owner_reachable old_owner n1) (\<lambda>reachable.
            if reachable \<and> old_owner \<noteq> requester
            then fetch_from_owner idx old_owner requester req_type client_fd n1
            else serve_zero_page K client_fd idx requester is_write n1)))
      else Inr n)"

section \<open>Dispatch\<close>

definition dispatch :: "'m kernel \<Rightarrow> int \<Rightarrow> 'm node \<Rightarrow> dsm_packet \<Rightarrow> 'm node comp" where
  "dispatch K client_fd n pkt =
     (if pkt_type pkt = MSG_NODE_JOIN then on_node_join client_fd pkt n
      else if pkt_type pkt = MSG_SEND_PAGE then on_send_page K client_fd pkt n
      else if pkt_type pkt = MSG_INVALIDATE then on_invalidate K client_fd pkt n
      else if pkt_type pkt = MSG_INVALIDATE_ACK then on_invalidate_ack K client_fd pkt n
      else if pkt_type pkt = MSG_REQUEST_PAGE_READ \<or> pkt_type pkt = MSG_REQUEST_PAGE_WRITE
        then on_request K client_fd pkt n
      else Inr n)"

section \<open>A request of the local fault handler\<close>

text \<open>The page is here: a write makes this node its owner, once the other holders have answered.\<close>

definition upgrade_local_copy :: "'m kernel \<Rightarrow> u64 \<Rightarrow> 'm node \<Rightarrow> 'm node comp" where
  "upgrade_local_copy K idx n =
     andthen (to_modified (unat idx) (local_node_id n) n) (\<lambda>(msk, n1).
       invalidate_then_grant idx (inval_targets msk None n1)
         (\<lambda>c. c\<lparr>cp_requester_node_id := local_node_id n1, cp_type := MSG_REQUEST_PAGE_WRITE,
                cp_client_fd := - 1\<rparr>)
         (lift_protection K (unat idx) False) n1)"

definition install_zero_page :: "'m kernel \<Rightarrow> u64 \<Rightarrow> bool \<Rightarrow> 'm node \<Rightarrow> 'm node comp" where
  "install_zero_page K idx is_write n =
     andthen (install_page K (unat idx) zero_page n) (\<lambda>n1.
       if is_write then andthen (to_modified (unat idx) (local_node_id n1) n1) (\<lambda>(_, n2). Inr n2)
       else andthen (to_shared (unat idx) (local_node_id n1) n1) (\<lambda>(_, n2). Inr n2))"

definition serve_local_request :: "'m kernel \<Rightarrow> page_request \<Rightarrow> 'm node \<Rightarrow> 'm node comp" where
  "serve_local_request K r n =
     (let idx = rq_page_index r;
          ty = (if rq_is_write r then MSG_REQUEST_PAGE_WRITE else MSG_REQUEST_PAGE_READ) in
      if coordinator_fd n \<noteq> - 1 then
        Inr (send_packet (coordinator_fd n) (make_packet ty idx (local_node_id n) zero_page) n)
      else
        andthen (gpd_get_owner (node_gpd n) (unat idx)) (\<lambda>old_owner.
        andthen (get_at (page_table n) (unat idx)) (\<lambda>p.
          if pt_status p = PAGE_VALID \<or> pt_status p = PAGE_WRITE_PENDING then
            if rq_is_write r then upgrade_local_copy K idx n else Inr n
          else andthen (owner_reachable old_owner n) (\<lambda>reachable.
            if reachable then fetch_from_owner idx old_owner (local_node_id n) ty (- 1) n
            else install_zero_page K idx (rq_is_write r) n))))"

text \<open>
  The drain of the queue once its eventfd is readable; with \<open>QUEUE_CAPACITY + 1\<close> iterations the
  loop always ends.
\<close>

definition drain_queue ::
  "'m kernel \<Rightarrow> request_queue \<Rightarrow> 'm node \<Rightarrow> (request_queue \<times> 'm node) comp" where
  "drain_queue K q n =
     (case pop_loop queue_pop (\<lambda>c r. andthen c (serve_local_request K r)) (QUEUE_CAPACITY + 1) q (Inr n) of
        None \<Rightarrow> Inl Suspended
      | Some (q', c) \<Rightarrow> andthen c (\<lambda>n'. Inr (q', n')))"

section \<open>Every handler keeps the node well formed\<close>

definition requester_ok :: "coord_pending \<Rightarrow> bool" where
  "requester_ok c \<longleftrightarrow> cp_requester_node_id c = 0 \<or> valid_node (cp_requester_node_id c)"

lemma put_pending_steady': 
  "put_pending i f n = Inr n' \<Longrightarrow> (\<And>c. requester_ok c \<Longrightarrow> requester_ok (f c)) \<Longrightarrow> steady n n'"
  using put_pending_steady [of i f n n'] by (simp add: requester_ok_def)

lemma steadyD:
  "steady n n' \<Longrightarrow> node_inv n \<Longrightarrow> node_inv n'" "steady n n' \<Longrightarrow> num_pages n' = num_pages n"
  "steady n n' \<Longrightarrow> local_node_id n' = local_node_id n"
  "steady n n' \<Longrightarrow> gpd_pending_reqs n' = None \<longleftrightarrow> gpd_pending_reqs n = None"
  by (simp_all add: steady_def kept_def)

lemma invalidate_then_grant_steady:
  assumes "invalidate_then_grant idx targets remember grant n = Inr n'"
    and "\<And>c. requester_ok c \<Longrightarrow> requester_ok (remember c)"
    and "\<And>n'. grant n = Inr n' \<Longrightarrow> steady n n'"
  shows "steady n n'"
proof (cases "targets = []")
  case True
  then show ?thesis using assms by (simp add: invalidate_then_grant_def)
next
  case False
  show ?thesis
  proof (cases "(of_nat (length targets) :: u32) > 0")
    case True
    then obtain n1 where n1: "put_pending (unat idx) (\<lambda>c. (remember c)\<lparr>cp_expected_acks := of_nat (length targets)\<rparr>) n = Inr n1"
      and n': "n' = send_invalidates (unat idx) targets n1"
      using assms(1) by (auto simp: invalidate_then_grant_def Let_def)
    have "steady n n1"
      using put_pending_steady' [OF n1] assms(2) by (auto simp: requester_ok_def)
    then show ?thesis using n' send_invalidates_steady steady_trans by blast
  next
    case False
    then show ?thesis using assms by (simp add: invalidate_then_grant_def)
  qed
qed

lemma deliver_fetched_steady:
  assumes "deliver_fetched K req_node req_fd pkt n = Inr n'"
  shows "steady n n'"
proof -
  obtain n1 where n1: "(if req_node = local_node_id n then install_page K (unat (pkt_page_index pkt)) (pkt_payload pkt) n
        else Inr (send_packet req_fd pkt n)) = Inr n1"
    and n': "put_pending (unat (pkt_page_index pkt)) (\<lambda>c. c\<lparr>cp_requester_node_id := 0\<rparr>) n1 = Inr n'"
    using assms by (auto simp: deliver_fetched_def)
  have "steady n n1" using n1 by (auto split: if_splits intro: steady_intros)
  moreover have "steady n1 n'" using put_pending_steady' [OF n'] by (simp add: requester_ok_def)
  ultimately show ?thesis by (rule steady_trans)
qed

lemma drop_own_copy_steady:
  "drop_own_copy K idx writer msk n = Inr (msk', n') \<Longrightarrow> steady n n'"
  by (auto simp: drop_own_copy_def intro: steady_intros split: if_splits)

lemma complete_fetch_steady:
  assumes "complete_fetch K pkt c n = Inr n'" and "node_inv n"
    and "unat (pkt_page_index pkt) < num_pages n" and "valid_node (cp_requester_node_id c)"
  shows "steady n n'"
proof (cases "cp_type c = MSG_REQUEST_PAGE_WRITE")
  case True
  obtain msk n1 msk2 n2 where
    n1: "to_modified (unat (pkt_page_index pkt)) (cp_requester_node_id c) n = Inr (msk, n1)" and
    n2: "drop_own_copy K (pkt_page_index pkt) (cp_requester_node_id c) msk n1 = Inr (msk2, n2)" and
    n': "invalidate_then_grant (pkt_page_index pkt) (inval_targets msk2 (Some (cp_requester_node_id c)) n2)
        (\<lambda>c. c\<lparr>cp_deferred_payload := pkt_payload pkt\<rparr>)
        (deliver_fetched K (cp_requester_node_id c) (cp_client_fd c) pkt) n2 = Inr n'"
    using assms(1) True by (auto simp: complete_fetch_def Let_def)
  have "steady n2 n'"
    by (rule invalidate_then_grant_steady [OF n']) (auto simp: requester_ok_def deliver_fetched_steady)
  then show ?thesis
    using to_modified_steady [OF n1 assms(2-4)] drop_own_copy_steady [OF n2] steady_trans by blast
next
  case False
  then obtain old n1 where
    n1: "to_shared (unat (pkt_page_index pkt)) (cp_requester_node_id c) n = Inr (old, n1)" and
    n': "deliver_fetched K (cp_requester_node_id c) (cp_client_fd c) pkt n1 = Inr n'"
    using assms(1) by (auto simp: complete_fetch_def Let_def)
  show ?thesis
    using to_shared_steady [OF n1 assms(2-4)] deliver_fetched_steady [OF n'] steady_trans by blast
qed

lemma accept_page_steady: "accept_page K pkt n = Inr n' \<Longrightarrow> steady n n'"
  by (auto simp: accept_page_def Let_def split: if_splits intro: steady_intros)

lemma on_send_page_steady:
  assumes "on_send_page K fd pkt n = Inr n'" and "node_inv n"
  shows "steady n n'"
proof (cases "unat (pkt_page_index pkt) < num_pages n \<and> coordinator_fd n = - 1 \<and> gpd_pending_reqs n \<noteq> None")
  case True
  then obtain c where c: "get_pending (unat (pkt_page_index pkt)) n = Inr c"
    and n': "(if cp_requester_node_id c \<noteq> 0 then complete_fetch K pkt c n else accept_page K pkt n) = Inr n'"
    using assms(1) unfolding on_send_page_def Let_def by auto
  show ?thesis
  proof (cases "cp_requester_node_id c = 0")
    case False
    then have "valid_node (cp_requester_node_id c)" using get_pending_ok [OF assms(2) c] by simp
    then show ?thesis using complete_fetch_steady [of K pkt c n n'] assms(2) True n' False by simp
  qed (use n' accept_page_steady in auto)
next
  case False
  then have "accept_page K pkt n = Inr n' \<or> n' = n"
    using assms(1) unfolding on_send_page_def Let_def by (auto split: if_splits)
  then show ?thesis using accept_page_steady steady_refl by blast
qed

lemma on_invalidate_steady: "on_invalidate K fd pkt n = Inr n' \<Longrightarrow> steady n n'"
proof -
  assume r: "on_invalidate K fd pkt n = Inr n'"
  have "steady n (invalidate_local_page_copy K (unat (pkt_page_index pkt)) n)"
    by (rule invalidate_steady)
  then show ?thesis
    using r steady_trans [OF _ send_steady]
    by (auto simp: on_invalidate_eq invalidate_local_page_copy_def Let_def split: if_splits
        intro: steady_refl)
qed

lemma release_grant_steady:
  assumes "release_grant K idx c n = Inr n'"
  shows "steady n n'"
proof -
  obtain n1 where "steady n n1"
    and n': "put_pending (unat idx) (\<lambda>c. c\<lparr>cp_requester_node_id := 0\<rparr>) n1 = Inr n'"
    using assms
    by (fastforce simp: release_grant_def split: if_splits intro: steady_intros)
  moreover have "steady n1 n'" using put_pending_steady' [OF n'] by (simp add: requester_ok_def)
  ultimately show ?thesis using steady_trans by blast
qed

lemma on_invalidate_ack_steady:
  assumes "on_invalidate_ack K fd pkt n = Inr n'"
  shows "steady n n'"
proof -
  let ?i = "unat (pkt_page_index pkt)"
  show ?thesis
  proof (cases "?i < num_pages n \<and> gpd_pending_reqs n \<noteq> None")
    case True
    then obtain c :: coord_pending where step: "(if cp_expected_acks c > 0 then
            andthen (put_pending ?i (\<lambda>c. c\<lparr>cp_expected_acks := cp_expected_acks c - 1\<rparr>) n) (\<lambda>n1.
            andthen (get_pending ?i n1) (\<lambda>c1.
              if cp_expected_acks c1 = 0 then release_grant K (pkt_page_index pkt) c1 n1 else Inr n1))
          else Inr n) = Inr n'"
      using assms unfolding on_invalidate_ack_def Let_def by auto
    show ?thesis
    proof (cases "cp_expected_acks c > 0")
      case True
      then obtain n1 c1 where n1: "put_pending ?i (\<lambda>c. c\<lparr>cp_expected_acks := cp_expected_acks c - 1\<rparr>) n = Inr n1"
        and n': "(if cp_expected_acks c1 = 0 then release_grant K (pkt_page_index pkt) c1 n1 else Inr n1) = Inr n'"
        using step unfolding if_P [OF True] by blast
      have "steady n n1" using put_pending_steady' [OF n1] by (simp add: requester_ok_def)
      moreover have "steady n1 n'"
        using n' release_grant_steady steady_refl by (cases "cp_expected_acks c1 = 0") auto
      ultimately show ?thesis by (rule steady_trans)
    qed (use step steady_refl in auto)
  qed (use assms steady_refl in \<open>auto simp: on_invalidate_ack_def Let_def\<close>)
qed

lemma serve_valid_copy_steady:
  assumes "serve_valid_copy K fd idx requester w n = Inr n'" and "node_inv n"
    and "unat idx < num_pages n" and "valid_node requester"
  shows "steady n n'"
proof -
  obtain bytes where
    r: "(if w then
         andthen (to_modified (unat idx) requester n) (\<lambda>(msk, n1).
           let n2 = invalidate_local_page_copy K (unat idx) n1 in
           andthen (shl1 (local_node_id n2)) (\<lambda>own_bit.
             invalidate_then_grant idx (inval_targets (msk AND NOT own_bit) (Some requester) n2)
               (\<lambda>c. c\<lparr>cp_requester_node_id := requester, cp_type := MSG_REQUEST_PAGE_WRITE,
                      cp_client_fd := fd, cp_deferred_payload := bytes\<rparr>)
               (\<lambda>n3. Inr (send_packet fd (make_packet MSG_SEND_PAGE idx (local_node_id n) bytes) n3)) n2))
       else
         andthen (to_shared (unat idx) requester n) (\<lambda>(prev_owner, n1).
           Inr (send_packet fd (make_packet MSG_SEND_PAGE idx (local_node_id n) bytes)
             (if prev_owner = local_node_id n1 then writeprotect_local_page_copy K (unat idx) n1
              else n1)))) = Inr n'"
    using assms(1) by (auto simp: serve_valid_copy_def Let_def)
  show ?thesis
  proof (cases w)
    case True
    then obtain msk n1 own_bit where n1: "to_modified (unat idx) requester n = Inr (msk, n1)"
      and g: "invalidate_then_grant idx
        (inval_targets (msk AND NOT own_bit) (Some requester) (invalidate_local_page_copy K (unat idx) n1))
         (\<lambda>c. c\<lparr>cp_requester_node_id := requester, cp_type := MSG_REQUEST_PAGE_WRITE,
                cp_client_fd := fd, cp_deferred_payload := bytes\<rparr>)
         (\<lambda>n3. Inr (send_packet fd (make_packet MSG_SEND_PAGE idx (local_node_id n) bytes) n3))
         (invalidate_local_page_copy K (unat idx) n1) = Inr n'"
      using r by (auto simp: Let_def)
    have "steady (invalidate_local_page_copy K (unat idx) n1) n'"
      by (rule invalidate_then_grant_steady [OF g])
        (use assms(4) in \<open>auto simp: requester_ok_def intro: steady_intros\<close>)
    then show ?thesis
      using to_modified_steady [OF n1 assms(2-4)] invalidate_steady steady_trans by blast
  next
    case False
    then obtain old n1 where n1: "to_shared (unat idx) requester n = Inr (old, n1)"
      and n': "n' = send_packet fd (make_packet MSG_SEND_PAGE idx (local_node_id n) bytes)
        (if old = local_node_id n1 then writeprotect_local_page_copy K (unat idx) n1 else n1)"
      using r by auto
    have "steady n1 n'"
      unfolding n' by (auto intro: steady_trans [OF writeprotect_steady send_steady] send_steady)
    then show ?thesis using to_shared_steady [OF n1 assms(2-4)] steady_trans by blast
  qed
qed

lemma fetch_from_owner_steady:
  assumes "fetch_from_owner idx old_owner requester ty fd n = Inr n'" and "valid_node requester"
  shows "steady n n'"
proof -
  obtain n1 where n1: "(if gpd_pending_reqs n \<noteq> None then
          put_pending (unat idx) (\<lambda>c. c\<lparr>cp_requester_node_id := requester, cp_type := ty,
            cp_client_fd := fd, cp_expected_acks := 0\<rparr>) n
        else Inr n) = Inr n1" and "steady n1 n'"
    using assms(1) by (auto simp: fetch_from_owner_def intro: steady_intros)
  moreover have "steady n n1"
    using n1 put_pending_steady' [of _ _ n n1] assms(2)
    by (auto simp: requester_ok_def steady_refl split: if_splits)
  ultimately show ?thesis using steady_trans by blast
qed

lemma serve_zero_page_steady:
  assumes "serve_zero_page K fd idx requester w n = Inr n'" and "node_inv n"
    and "unat idx < num_pages n" and "valid_node requester"
  shows "steady n n'"
proof (cases w)
  case True
  obtain msk n1 msk2 n2 where n1: "to_modified (unat idx) requester n = Inr (msk, n1)"
    and n2: "drop_own_copy K idx requester msk n1 = Inr (msk2, n2)"
    and g: "invalidate_then_grant idx (inval_targets msk2 (Some requester) n2)
        (\<lambda>c. c\<lparr>cp_requester_node_id := requester, cp_type := MSG_REQUEST_PAGE_WRITE,
                   cp_client_fd := fd, cp_deferred_payload := zero_page\<rparr>)
        (\<lambda>n3. Inr (send_packet fd (make_packet MSG_SEND_PAGE idx (local_node_id n) zero_page) n3)) n2 = Inr n'"
    using assms(1) True by (auto simp: serve_zero_page_def Let_def)
  have "steady n2 n'"
    by (rule invalidate_then_grant_steady [OF g])
      (use assms(4) in \<open>auto simp: requester_ok_def intro: steady_intros\<close>)
  then show ?thesis
    using to_modified_steady [OF n1 assms(2-4)] drop_own_copy_steady [OF n2] steady_trans by blast
next
  case False
  then obtain old n1 where n1: "to_shared (unat idx) requester n = Inr (old, n1)"
    and "n' = send_packet fd (make_packet MSG_SEND_PAGE idx (local_node_id n) zero_page) n1"
    using assms(1) by (auto simp: serve_zero_page_def Let_def)
  then show ?thesis
    using to_shared_steady [OF n1 assms(2-4)] send_steady steady_trans by blast
qed

lemma on_request_steady:
  assumes "on_request K fd pkt n = Inr n'" and "node_inv n" and "valid_node (pkt_sender_node_id pkt)"
  shows "n' = n \<or> steady (learn_node_fd (pkt_sender_node_id pkt) fd n) n'"
proof (cases "unat (pkt_page_index pkt) < num_pages n")
  case True
  let ?n1 = "learn_node_fd (pkt_sender_node_id pkt) fd n"
  have s1: "kept n ?n1" by (rule learn_node_fd_kept)
  note inv1 = keptD(1) [OF s1 assms(2)]
  have i: "unat (pkt_page_index pkt) < num_pages ?n1" using True keptD(2) [OF s1] by simp
  consider w where "serve_valid_copy K fd (pkt_page_index pkt) (pkt_sender_node_id pkt) w ?n1 = Inr n'"
    | own where "fetch_from_owner (pkt_page_index pkt) own (pkt_sender_node_id pkt) (pkt_type pkt) fd ?n1 = Inr n'"
    | w where "serve_zero_page K fd (pkt_page_index pkt) (pkt_sender_node_id pkt) w ?n1 = Inr n'"
    using assms(1) True unfolding on_request_def Let_def by (auto split: if_splits)
  then have "steady ?n1 n'"
    using serve_valid_copy_steady [OF _ inv1 i assms(3)] fetch_from_owner_steady [OF _ assms(3)]
      serve_zero_page_steady [OF _ inv1 i assms(3)] by cases blast+
  then show ?thesis by blast
qed (use assms in \<open>simp add: on_request_def Let_def\<close>)

text \<open>Requests must come from a node identifier that \<open>main\<close> accepts.\<close>

definition sender_ok :: "dsm_packet \<Rightarrow> bool" where
  "sender_ok pkt \<longleftrightarrow>
     (pkt_type pkt = MSG_REQUEST_PAGE_READ \<or> pkt_type pkt = MSG_REQUEST_PAGE_WRITE \<longrightarrow>
      valid_node (pkt_sender_node_id pkt))"

lemma dispatch_steady:
  assumes "dispatch K fd n pkt = Inr n'" and "node_inv n" and "sender_ok pkt"
  shows "steady n n' \<or> steady (learn_node_fd (pkt_sender_node_id pkt) fd n) n'"
  using assms
  by (auto simp: dispatch_def sender_ok_def on_node_join_def steady_refl
      on_send_page_steady on_invalidate_steady on_invalidate_ack_steady split: if_splits
      dest!: on_request_steady)

lemma dispatch_kept:
  assumes "dispatch K fd n pkt = Inr n'" and "node_inv n" and "sender_ok pkt"
  shows "kept n n'"
  using dispatch_steady [OF assms] steady_kept kept_trans learn_node_fd_kept by metis

lemma serve_local_request_steady:
  assumes "serve_local_request K r n = Inr n'" and "node_inv n"
  shows "steady n n'"
proof (cases "coordinator_fd n = - 1")
  case True
  let ?i = "unat (rq_page_index r)"
  have me: "valid_node (local_node_id n)" using assms(2) by (simp add: node_inv_def)
  obtain own p where "gpd_get_owner (node_gpd n) ?i = Inr own" and p: "?i < num_pages n" "p = page_table n ! ?i"
    and step: "(if pt_status p = PAGE_VALID \<or> pt_status p = PAGE_WRITE_PENDING then
            if rq_is_write r then upgrade_local_copy K (rq_page_index r) n else Inr n
          else andthen (owner_reachable own n) (\<lambda>reachable.
            if reachable then fetch_from_owner (rq_page_index r) own (local_node_id n)
              (if rq_is_write r then MSG_REQUEST_PAGE_WRITE else MSG_REQUEST_PAGE_READ) (- 1) n
            else install_zero_page K (rq_page_index r) (rq_is_write r) n)) = Inr n'"
    using assms(1) True unfolding serve_local_request_def Let_def by (auto simp: num_pages_def)
  consider (same) "n' = n" | (up) "upgrade_local_copy K (rq_page_index r) n = Inr n'"
    | (fetch) ty where "fetch_from_owner (rq_page_index r) own (local_node_id n) ty (- 1) n = Inr n'"
    | (zero) "install_zero_page K (rq_page_index r) (rq_is_write r) n = Inr n'"
  proof (cases "pt_status p = PAGE_VALID \<or> pt_status p = PAGE_WRITE_PENDING")
    case True
    then show ?thesis using step that(1,2) by (cases "rq_is_write r") auto
  next
    case False
    then obtain reachable where "(if reachable then fetch_from_owner (rq_page_index r) own (local_node_id n)
          (if rq_is_write r then MSG_REQUEST_PAGE_WRITE else MSG_REQUEST_PAGE_READ) (- 1) n
        else install_zero_page K (rq_page_index r) (rq_is_write r) n) = Inr n'"
      using step unfolding if_not_P [OF False] by blast
    then show ?thesis using that(3,4) by (cases reachable) auto
  qed
  then show ?thesis
  proof cases
    case up
    then obtain msk n1 where n1: "to_modified ?i (local_node_id n) n = Inr (msk, n1)"
      and g: "invalidate_then_grant (rq_page_index r) (inval_targets msk None n1)
         (\<lambda>c. c\<lparr>cp_requester_node_id := local_node_id n1, cp_type := MSG_REQUEST_PAGE_WRITE,
                cp_client_fd := - 1\<rparr>) (lift_protection K ?i False) n1 = Inr n'"
      by (auto simp: upgrade_local_copy_def)
    have s1: "steady n n1" using to_modified_steady [OF n1 assms(2) p(1) me] .
    have "steady n1 n'"
      by (rule invalidate_then_grant_steady [OF g])
        (use me steadyD(3) [OF s1] in \<open>auto simp: requester_ok_def intro: steady_intros\<close>)
    with s1 show ?thesis by (rule steady_trans)
  next
    case zero
    then obtain n1 where n1: "install_page K ?i zero_page n = Inr n1"
      and t: "(if rq_is_write r then andthen (to_modified ?i (local_node_id n1) n1) (\<lambda>(_, n2). Inr n2)
       else andthen (to_shared ?i (local_node_id n1) n1) (\<lambda>(_, n2). Inr n2)) = Inr n'"
      by (auto simp: install_zero_page_def)
    have s1: "steady n n1" using install_page_steady [OF n1] .
    note inv1 = steadyD(1) [OF s1 assms(2)]
    have "steady n1 n'"
      using t to_modified_steady [OF _ inv1] to_shared_steady [OF _ inv1] steadyD(2,3) [OF s1] p(1) me
      by (auto split: if_splits)
    with s1 show ?thesis by (rule steady_trans)
  qed (use fetch_from_owner_steady [OF _ me] steady_refl in auto)
qed (use assms send_steady in \<open>auto simp: serve_local_request_def Let_def\<close>)

end
