(* ===== verification/Net_Protocol.thy ===== *)
theory Net_Protocol
  imports Net_Handlers
begin

text \<open>
  What the packet handlers achieve: they return, they keep the node well formed, a write is granted
  only after the other holders have acknowledged, and a read leaves every copy known to the directory;
  and the places where the protocol of the code does not give this.
\<close>

section \<open>The contract of a packet service\<close>

text \<open>
  A service of packets from one peer: an invariant that every handled packet keeps, and the only ways
  in which a packet is not handled. What the receive loop needs follows for any service.
\<close>

locale packet_service =
  fixes serve :: "'s \<Rightarrow> dsm_packet \<Rightarrow> 's comp"
    and inv :: "'s \<Rightarrow> bool"
    and acceptable :: "dsm_packet \<Rightarrow> bool"
    and blocked :: "'s \<Rightarrow> dsm_packet \<Rightarrow> bool"
  assumes serve_inv: "inv s \<Longrightarrow> acceptable p \<Longrightarrow> serve s p = Inr s' \<Longrightarrow> inv s'"
    and serve_returns: "inv s \<Longrightarrow> acceptable p \<Longrightarrow> \<not> blocked s p \<Longrightarrow> \<exists>s'. serve s p = Inr s'"
begin

lemma dispatch_all_inv:
  "inv s \<Longrightarrow> \<forall>p \<in> set ps. acceptable p \<Longrightarrow> dispatch_all serve s ps = Inr s' \<Longrightarrow> inv s'"
  by (induction ps arbitrary: s) (auto dest: serve_inv)

text \<open>
  A readable peer: the chunks of the stream, then an answer that ends the loop. The packets handled are
  the complete frames.
\<close>

lemma recv_loop_inv:
  assumes "ends_loop stop closed" and "session_inv ses" and "chunks_fit (bytes_read ses) cs"
    and "frames PACKET_SIZE (received ses @ concat cs) = (fs, rest)" and "inv s"
    and "\<forall>f \<in> set fs. acceptable (decode_packet f)"
    and "recv_loop serve (map Chunk cs @ [stop]) ses s = Inr (Some (c, ses', s'))"
  shows "inv s' \<and> session_inv ses' \<and> received ses' = rest \<and> ps_fd ses' = ps_fd ses \<and> c = closed"
proof (cases "dispatch_all serve s (map decode_packet fs)")
  case (Inl e)
  then show ?thesis using recv_loop_frames [OF assms(1-4), of serve s] assms(7) by simp
next
  case (Inr s1)
  have "inv s1" using dispatch_all_inv [OF assms(5) _ Inr] assms(6) by auto
  then show ?thesis using recv_loop_frames [OF assms(1-4), of serve s] assms(7) Inr by auto
qed

text \<open>A run of packets returns as long as no packet of it is blocked when it is reached.\<close>

fun runs_free :: "'s \<Rightarrow> dsm_packet list \<Rightarrow> bool" where
  "runs_free s [] = True"
| "runs_free s (p # ps) = (\<not> blocked s p \<and> (\<forall>s'. serve s p = Inr s' \<longrightarrow> runs_free s' ps))"

lemma dispatch_all_returns:
  "inv s \<Longrightarrow> \<forall>p \<in> set ps. acceptable p \<Longrightarrow> runs_free s ps \<Longrightarrow> \<exists>s'. dispatch_all serve s ps = Inr s'"
proof (induction ps arbitrary: s)
  case (Cons p ps)
  then obtain s1 where "serve s p = Inr s1" using serve_returns [of s p] by auto
  then show ?case using Cons serve_inv by auto
qed simp

end

section \<open>Handlers return\<close>

lemma invalidate_then_grant_none: "invalidate_then_grant idx [] remember grant n = grant n"
  by (simp add: invalidate_then_grant_def)

lemma invalidate_then_grant_some:
  assumes "targets = inval_targets msk requester n0" and "targets \<noteq> []"
    and "gpd_pending_reqs n = Some ps" and "unat idx < length ps"
  shows "invalidate_then_grant idx targets remember grant n =
    Inr (send_invalidates (unat idx) targets
      (n\<lparr>gpd_pending_reqs := Some (ps[unat idx := (remember (ps ! unat idx))\<lparr>
          cp_expected_acks := of_nat (length targets)\<rparr>])\<rparr>))"
proof -
  have "(of_nat (length targets) :: u32) \<noteq> 0" using assms(1,2) by simp
  then have "(of_nat (length targets) :: u32) > 0" by (simp add: word_neq_0_conv)
  then show ?thesis
    using assms(3,4) by (simp add: invalidate_then_grant_def put_pending_def)
qed

lemma invalidate_then_grant_returns:
  assumes "node_inv n" and "gpd_pending_reqs n \<noteq> None" and "unat idx < num_pages n"
    and "\<exists>n'. grant n = Inr n'"
  shows "\<exists>n'. invalidate_then_grant idx targets remember grant n = Inr n'"
  using put_pending_returns [OF assms(1-3)] assms(4)
  by (auto simp: invalidate_then_grant_def Let_def) (metis andthen_Inr)

lemma deliver_fetched_returns:
  assumes "node_inv n" and "gpd_pending_reqs n \<noteq> None" and "unat (pkt_page_index pkt) < num_pages n"
  shows "\<exists>n'. deliver_fetched K req_node req_fd pkt n = Inr n'"
proof -
  obtain n1 where n1: "(if req_node = local_node_id n then install_page K (unat (pkt_page_index pkt)) (pkt_payload pkt) n
        else Inr (send_packet req_fd pkt n)) = Inr n1"
    using install_page_returns [OF assms(3)] by (cases "req_node = local_node_id n") auto
  have "steady n n1" using n1 by (auto split: if_splits intro: steady_intros)
  then show ?thesis
    using put_pending_returns [of n1] steadyD [of n n1] assms n1 by (simp add: deliver_fetched_def)
qed

lemma drop_own_copy_returns:
  "node_inv n \<Longrightarrow> \<exists>msk' n'. drop_own_copy K idx writer msk n = Inr (msk', n')"
  by (auto simp: drop_own_copy_def node_inv_def dest!: valid_nodeD)

lemma complete_fetch_returns:
  assumes "node_inv n" and "gpd_pending_reqs n \<noteq> None" and "unat (pkt_page_index pkt) < num_pages n"
    and "valid_node (cp_requester_node_id c)"
  shows "\<exists>n'. complete_fetch K pkt c n = Inr n'"
proof (cases "cp_type c = MSG_REQUEST_PAGE_WRITE")
  case True
  obtain msk n1 where n1: "to_modified (unat (pkt_page_index pkt)) (cp_requester_node_id c) n = Inr (msk, n1)"
    using to_modified_returns [OF assms(1,3,4)] by metis
  note s1 = to_modified_steady [OF n1 assms(1,3,4)]
  obtain msk2 n2 where n2: "drop_own_copy K (pkt_page_index pkt) (cp_requester_node_id c) msk n1 = Inr (msk2, n2)"
    using drop_own_copy_returns steadyD(1) [OF s1 assms(1)] by blast
  have s2: "steady n n2" using s1 drop_own_copy_steady [OF n2] steady_trans by blast
  show ?thesis
    using invalidate_then_grant_returns [of n2 "pkt_page_index pkt"] deliver_fetched_returns [of n2 pkt]
      steadyD [OF s2] assms n1 n2 True by (simp add: complete_fetch_def Let_def)
next
  case False
  obtain old n1 where n1: "to_shared (unat (pkt_page_index pkt)) (cp_requester_node_id c) n = Inr (old, n1)"
    using to_shared_returns [OF assms(1,3,4)] by metis
  note s1 = to_shared_steady [OF n1 assms(1,3,4)]
  show ?thesis
    using deliver_fetched_returns [of n1 pkt] steadyD [OF s1] assms n1 False
    by (simp add: complete_fetch_def Let_def)
qed

lemma accept_page_returns:
  "unat (pkt_page_index pkt) < num_pages n \<Longrightarrow> \<exists>n'. accept_page K pkt n = Inr n'"
  using install_page_returns lift_protection_returns
  by (auto simp: accept_page_def Let_def num_pages_def)

lemma on_send_page_returns:
  assumes "node_inv n" and "gpd_pending_reqs n \<noteq> None"
  shows "\<exists>n'. on_send_page K fd pkt n = Inr n'"
proof (cases "unat (pkt_page_index pkt) < num_pages n")
  case True
  obtain c where c: "get_pending (unat (pkt_page_index pkt)) n = Inr c"
    using get_pending_returns [OF assms True] by blast
  show ?thesis
    using accept_page_returns [OF True] complete_fetch_returns [OF assms True] get_pending_ok [OF assms(1) c]
      c True by (cases "coordinator_fd n = - 1"; cases "cp_requester_node_id c = 0")
      (auto simp: on_send_page_def Let_def)
qed (simp add: on_send_page_def Let_def)

lemma release_grant_returns:
  assumes "node_inv n" and "gpd_pending_reqs n \<noteq> None" and "unat idx < num_pages n"
  shows "\<exists>n'. release_grant K idx c n = Inr n'"
proof -
  have "\<exists>n1. (if cp_requester_node_id c = local_node_id n then
          if pt_status (page_table n ! unat idx) = PAGE_WRITE_PENDING then lift_protection K (unat idx) True n
          else install_page K (unat idx) (cp_deferred_payload c) n
        else Inr (send_packet (cp_client_fd c)
            (make_packet MSG_SEND_PAGE idx (local_node_id n) (cp_deferred_payload c)) n)) = Inr n1 \<and> steady n n1"
    using install_page_returns [OF assms(3), of K "cp_deferred_payload c"]
      lift_protection_returns [OF assms(3), of K True]
    by (auto intro: steady_intros)
  then obtain n1 where n1: "(if cp_requester_node_id c = local_node_id n then
          if pt_status (page_table n ! unat idx) = PAGE_WRITE_PENDING then lift_protection K (unat idx) True n
          else install_page K (unat idx) (cp_deferred_payload c) n
        else Inr (send_packet (cp_client_fd c)
            (make_packet MSG_SEND_PAGE idx (local_node_id n) (cp_deferred_payload c)) n)) = Inr n1"
    and s: "steady n n1" by blast
  show ?thesis
    using put_pending_returns [of n1] steadyD [OF s] assms n1
    by (simp add: release_grant_def num_pages_def)
qed

lemma on_invalidate_ack_returns:
  assumes "node_inv n" and "gpd_pending_reqs n \<noteq> None"
  shows "\<exists>n'. on_invalidate_ack K fd pkt n = Inr n'"
proof (cases "unat (pkt_page_index pkt) < num_pages n")
  case True
  let ?i = "unat (pkt_page_index pkt)"
  obtain c where c: "get_pending ?i n = Inr c"
    using get_pending_returns [OF assms True] by blast
  obtain n1 where n1: "put_pending ?i (\<lambda>c. c\<lparr>cp_expected_acks := cp_expected_acks c - 1\<rparr>) n = Inr n1"
    using put_pending_returns [OF assms True] by blast
  have s1: "steady n n1" using put_pending_steady' [OF n1] by (simp add: requester_ok_def)
  then have "node_inv n1" "gpd_pending_reqs n1 \<noteq> None" "?i < num_pages n1"
    using steadyD [OF s1] assms True by auto
  then show ?thesis
    using release_grant_returns [where K = K and n = n1] get_pending_returns [of n1 ?i] c n1 True assms(2)
    by (auto simp: on_invalidate_ack_def Let_def)
qed (simp add: on_invalidate_ack_def Let_def)

text \<open>
  A request for a page whose status is \<open>PAGE_VALID\<close> although its memory is gone (the eviction
  thread releases memory without touching the status) makes the engine itself fault, inside the
  critical section of the page.
\<close>

definition self_fault :: "'m kernel \<Rightarrow> 'm node \<Rightarrow> dsm_packet \<Rightarrow> bool" where
  "self_fault K n pkt \<longleftrightarrow>
     (pkt_type pkt = MSG_REQUEST_PAGE_READ \<or> pkt_type pkt = MSG_REQUEST_PAGE_WRITE) \<and>
     unat (pkt_page_index pkt) < num_pages n \<and>
     pt_status (page_table n ! unat (pkt_page_index pkt)) = PAGE_VALID \<and>
     \<not> k_mapped K (node_mem n) (pt_base_addr (page_table n ! unat (pkt_page_index pkt)))"

lemma serve_valid_copy_returns:
  assumes "node_inv n" and "gpd_pending_reqs n \<noteq> None" and "unat idx < num_pages n"
    and "valid_node requester" and "k_mapped K (node_mem n) (pt_base_addr (page_table n ! unat idx))"
  shows "\<exists>n'. serve_valid_copy K fd idx requester w n = Inr n'"
proof (cases w)
  case True
  obtain msk n1 where n1: "to_modified (unat idx) requester n = Inr (msk, n1)"
    using to_modified_returns [OF assms(1,3,4)] by metis
  let ?n2 = "invalidate_local_page_copy K (unat idx) n1"
  have s2: "steady n ?n2"
    using to_modified_steady [OF n1 assms(1,3,4)] invalidate_steady steady_trans by blast
  have "valid_node (local_node_id ?n2)" using steadyD(1) [OF s2 assms(1)] by (simp add: node_inv_def)
  then show ?thesis
    using invalidate_then_grant_returns [of ?n2 idx] steadyD [OF s2] assms n1 True
    by (auto simp: serve_valid_copy_def load_page_def num_pages_def Let_def)
next
  case False
  obtain old n1 where "to_shared (unat idx) requester n = Inr (old, n1)"
    using to_shared_returns [OF assms(1,3,4)] by metis
  then show ?thesis
    using assms(3,5) False by (simp add: serve_valid_copy_def load_page_def num_pages_def Let_def)
qed

lemma fetch_from_owner_returns:
  assumes "node_inv n" and "unat idx < num_pages n" and "unat old_owner < NODE_SLOTS"
  shows "\<exists>n'. fetch_from_owner idx old_owner requester ty fd n = Inr n'"
proof (cases "gpd_pending_reqs n")
  case None
  then show ?thesis using assms by (simp add: fetch_from_owner_def node_inv_def)
next
  case (Some ps)
  obtain n1 where n1: "put_pending (unat idx) (\<lambda>c. c\<lparr>cp_requester_node_id := requester, cp_type := ty,
      cp_client_fd := fd, cp_expected_acks := 0\<rparr>) n = Inr n1"
    using put_pending_returns [OF assms(1) _ assms(2)] Some by blast
  then show ?thesis
    using put_pending_frame [OF n1] Some assms by (simp add: fetch_from_owner_def node_inv_def)
qed

lemma serve_zero_page_returns:
  assumes "node_inv n" and "gpd_pending_reqs n \<noteq> None" and "unat idx < num_pages n"
    and "valid_node requester"
  shows "\<exists>n'. serve_zero_page K fd idx requester w n = Inr n'"
proof (cases w)
  case True
  obtain msk n1 where n1: "to_modified (unat idx) requester n = Inr (msk, n1)"
    using to_modified_returns [OF assms(1,3,4)] by metis
  note s1 = to_modified_steady [OF n1 assms(1,3,4)]
  obtain msk2 n2 where n2: "drop_own_copy K idx requester msk n1 = Inr (msk2, n2)"
    using drop_own_copy_returns steadyD(1) [OF s1 assms(1)] by blast
  have s2: "steady n n2" using s1 drop_own_copy_steady [OF n2] steady_trans by blast
  show ?thesis
    using invalidate_then_grant_returns [of n2 idx] steadyD [OF s2] assms n1 n2 True
    by (auto simp: serve_zero_page_def Let_def)
next
  case False
  obtain old n1 where "to_shared (unat idx) requester n = Inr (old, n1)"
    using to_shared_returns [OF assms(1,3,4)] by metis
  then show ?thesis
    using False by (simp add: serve_zero_page_def Let_def)
qed

lemma owner_reachable_eq:
  "length (node_fds n) = NODE_SLOTS \<Longrightarrow>
     owner_reachable own n = Inr (own \<noteq> 0 \<and> unat own < NODE_SLOTS \<and> node_fds n ! unat own \<noteq> - 1)"
  by (simp add: owner_reachable_def)

lemma on_request_returns:
  assumes "node_inv n" and "gpd_pending_reqs n \<noteq> None" and "valid_node (pkt_sender_node_id pkt)"
    and "pkt_type pkt = MSG_REQUEST_PAGE_READ \<or> pkt_type pkt = MSG_REQUEST_PAGE_WRITE"
    and "\<not> self_fault K n pkt"
  shows "\<exists>n'. on_request K fd pkt n = Inr n'"
proof (cases "unat (pkt_page_index pkt) < num_pages n")
  case True
  let ?i = "unat (pkt_page_index pkt)" and ?n1 = "learn_node_fd (pkt_sender_node_id pkt) fd n"
  have s1: "kept n ?n1" by (rule learn_node_fd_kept)
  have inv1: "node_inv ?n1" "gpd_pending_reqs ?n1 \<noteq> None" "?i < num_pages ?n1"
    using keptD [OF s1] assms True by auto
  have same: "page_table ?n1 = page_table n" "node_mem ?n1 = node_mem n" "node_gpd ?n1 = node_gpd n"
    by (simp_all add: learn_node_fd_def)
  have idx: "?i < length (page_table n)" "?i < length (node_gpd n)" "length (node_fds ?n1) = NODE_SLOTS"
    using True assms(1) inv1(1) by (auto simp: num_pages_def node_inv_def)
  let ?own = "owner_node_id (node_gpd n ! ?i)"
  have start: "on_request K fd pkt n =
      (if pt_status (page_table n ! ?i) = PAGE_VALID
       then serve_valid_copy K fd (pkt_page_index pkt) (pkt_sender_node_id pkt)
              (pkt_type pkt = MSG_REQUEST_PAGE_WRITE) ?n1
       else if (?own \<noteq> 0 \<and> unat ?own < NODE_SLOTS \<and> node_fds ?n1 ! unat ?own \<noteq> - 1) \<and> ?own \<noteq> pkt_sender_node_id pkt
       then fetch_from_owner (pkt_page_index pkt) ?own (pkt_sender_node_id pkt) (pkt_type pkt) fd ?n1
       else serve_zero_page K fd (pkt_page_index pkt) (pkt_sender_node_id pkt)
              (pkt_type pkt = MSG_REQUEST_PAGE_WRITE) ?n1)"
    using idx True by (simp add: on_request_def Let_def gpd_get_owner_def same owner_reachable_eq)
  have mapped: "pt_status (page_table n ! ?i) = PAGE_VALID \<Longrightarrow>
      k_mapped K (node_mem ?n1) (pt_base_addr (page_table ?n1 ! ?i))"
    using assms(4,5) True by (auto simp: self_fault_def same)
  show ?thesis
    unfolding start
    using serve_valid_copy_returns [OF inv1 assms(3) mapped] serve_zero_page_returns [OF inv1 assms(3)]
      fetch_from_owner_returns [OF inv1(1,3)] by auto
qed (simp add: on_request_def Let_def)

interpretation engine: packet_service "dispatch K fd"
  "\<lambda>n. node_inv n \<and> gpd_pending_reqs n \<noteq> None" sender_ok "self_fault K"
proof unfold_locales
  fix n p n'
  assume "node_inv n \<and> gpd_pending_reqs n \<noteq> None" "sender_ok p" "dispatch K fd n p = Inr n'"
  then show "node_inv n' \<and> gpd_pending_reqs n' \<noteq> None"
    using dispatch_kept keptD by metis
next
  fix n p
  assume n: "node_inv n \<and> gpd_pending_reqs n \<noteq> None" "sender_ok p" "\<not> self_fault K n p"
  show "\<exists>n'. dispatch K fd n p = Inr n'"
    using n on_send_page_returns [where K = K and fd = fd and pkt = p and n = n]
      on_invalidate_ack_returns [where K = K and fd = fd and pkt = p and n = n]
      on_request_returns [where K = K and fd = fd and pkt = p and n = n]
    by (auto simp: dispatch_def sender_ok_def on_node_join_def on_invalidate_eq Let_def)
qed

section \<open>Writing to a page this node holds\<close>

definition learned :: "'m node \<Rightarrow> dsm_packet \<Rightarrow> int \<Rightarrow> int list" where
  "learned n pkt fd = (node_fds n)[unat (pkt_sender_node_id pkt) := fd]"

text \<open>The holders that must give up their copy before the write: all but the writer and the server.\<close>

definition live_holders :: "'m node \<Rightarrow> dsm_packet \<Rightarrow> int \<Rightarrow> nat set" where
  "live_holders n pkt fd =
     {m \<in> gpd_holders (node_gpd n) (unat (pkt_page_index pkt)).
        learned n pkt fd ! m \<noteq> - 1 \<and> m \<noteq> unat (pkt_sender_node_id pkt) \<and> m \<noteq> unat (local_node_id n)}"

definition page_reply :: "'m node \<Rightarrow> dsm_packet \<Rightarrow> page \<Rightarrow> dsm_packet" where
  "page_reply n pkt bytes = make_packet MSG_SEND_PAGE (pkt_page_index pkt) (local_node_id n) bytes"

definition serves_copy :: "'m kernel \<Rightarrow> 'm node \<Rightarrow> dsm_packet \<Rightarrow> page \<Rightarrow> bool" where
  "serves_copy K n pkt bytes \<longleftrightarrow>
     unat (pkt_page_index pkt) < num_pages n \<and> valid_node (pkt_sender_node_id pkt) \<and>
     pt_status (page_table n ! unat (pkt_page_index pkt)) = PAGE_VALID \<and>
     load_page K (node_mem n) (pt_base_addr (page_table n ! unat (pkt_page_index pkt))) = Inr bytes"

lemma dispatch_request:
  assumes "serves_copy K n pkt bytes"
    and "pkt_type pkt = MSG_REQUEST_PAGE_READ \<or> pkt_type pkt = MSG_REQUEST_PAGE_WRITE" and "node_inv n"
  shows "dispatch K fd n pkt = serve_valid_copy K fd (pkt_page_index pkt) (pkt_sender_node_id pkt)
    (pkt_type pkt = MSG_REQUEST_PAGE_WRITE) (learn_node_fd (pkt_sender_node_id pkt) fd n)"
proof -
  have "unat (pkt_page_index pkt) < length (page_table n)" "unat (pkt_page_index pkt) < length (node_gpd n)"
    using assms by (auto simp: serves_copy_def num_pages_def node_inv_def)
  then show ?thesis
    using assms by (auto simp: dispatch_def on_request_def gpd_get_owner_def Let_def serves_copy_def
        learn_node_fd_def num_pages_def)
qed

lemma pending_overwritten:
  "(c :: coord_pending)\<lparr>cp_requester_node_id := r, cp_type := ty, cp_client_fd := fd, cp_deferred_payload := bytes,
     cp_expected_acks := k\<rparr> =
   \<lparr>cp_requester_node_id = r, cp_type = ty, cp_client_fd = fd, cp_expected_acks = k, cp_deferred_payload = bytes\<rparr>"
  by (cases c) simp

lemma write_to_valid_copy:
  assumes "kernel_ok K" and "node_inv n" and "gpd_pending_reqs n = Some ps"
    and "serves_copy K n pkt bytes" and "pkt_type pkt = MSG_REQUEST_PAGE_WRITE"
  defines "i \<equiv> unat (pkt_page_index pkt)"
  obtains n' targets where "dispatch K fd n pkt = Inr n'"
    and "distinct targets" and "set targets = live_holders n pkt fd"
    and "sent_packets n' = sent_packets n @
      (if targets = [] then [(fd, page_reply n pkt bytes)]
       else map (\<lambda>m. (learned n pkt fd ! m, make_packet MSG_INVALIDATE (pkt_page_index pkt) 0 zero_page)) targets)"
    and "\<exists>e. node_gpd n' = (node_gpd n)[i := e] \<and> state e = STATE_MODIFIED \<and> owner_node_id e = pkt_sender_node_id pkt"
    and "view K (node_mem n') = (view K (node_mem n))(pt_base_addr (page_table n ! i) := None)"
    and "page_table n' = (page_table n)[i := (page_table n ! i)\<lparr>pt_status := PAGE_EMPTY\<rparr>]"
    and "node_fds n' = learned n pkt fd" and "local_node_id n' = local_node_id n"
    and "coordinator_fd n' = coordinator_fd n"
    and "gpd_pending_reqs n' = (if targets = [] then Some ps else Some (ps[i :=
      \<lparr>cp_requester_node_id = pkt_sender_node_id pkt, cp_type = MSG_REQUEST_PAGE_WRITE,
       cp_client_fd = fd, cp_expected_acks = of_nat (length targets), cp_deferred_payload = bytes\<rparr>]))"
proof -
  let ?idx = "pkt_page_index pkt" and ?req = "pkt_sender_node_id pkt"
  let ?n1 = "learn_node_fd ?req fd n"
  have req: "valid_node ?req" and i: "i < num_pages n"
    and bytes: "load_page K (node_mem n) (pt_base_addr (page_table n ! i)) = Inr bytes"
    using assms(4) by (simp_all add: serves_copy_def i_def)
  have inv1: "node_inv ?n1" and i1: "i < num_pages ?n1"
    using keptD [OF learn_node_fd_kept [where n = n]] assms(2) i by auto
  have n1: "?n1 = n\<lparr>node_fds := learned n pkt fd\<rparr>"
    using valid_nodeD [OF req] by (simp add: learn_node_fd_def learned_def NODE_SLOTS_def)
  obtain e msk n2 where m: "to_modified i ?req ?n1 = Inr (msk, n2)"
    and n2: "n2 = ?n1\<lparr>node_gpd := (node_gpd ?n1)[i := e]\<rparr>"
    and msk: "nodes_of msk = gpd_holders (node_gpd ?n1) i - {unat ?req}"
    and e: "state e = STATE_MODIFIED" "owner_node_id e = ?req"
    using to_modified_returns [OF inv1 i1 req] by metis
  let ?n3 = "invalidate_local_page_copy K i n2"
  have n3: "?n3 = n\<lparr>node_fds := learned n pkt fd, node_gpd := (node_gpd n)[i := e],
      node_mem := k_dontneed K (node_mem n) (pt_base_addr (page_table n ! i)),
      page_table := (page_table n)[i := (page_table n ! i)\<lparr>pt_status := PAGE_EMPTY\<rparr>]\<rparr>"
    using i by (simp add: invalidate_local_page_copy_def n2 n1 set_status_def num_pages_def)
  have me: "valid_node (local_node_id n)" using assms(2) by (simp add: node_inv_def)
  let ?t = "inval_targets (msk AND NOT (node_bit (unat (local_node_id n)))) (Some ?req) ?n3"
  let ?rem = "\<lambda>c. c\<lparr>cp_requester_node_id := ?req, cp_type := MSG_REQUEST_PAGE_WRITE,
      cp_client_fd := fd, cp_deferred_payload := bytes\<rparr>"
  have t: "set ?t = live_holders n pkt fd"
    using valid_nodeD [OF me]
    by (auto simp: set_inval_targets nodes_of_and_not nodes_of_node_bit msk n3 n1 live_holders_def simp flip: i_def)
  have run: "dispatch K fd n pkt = invalidate_then_grant ?idx ?t ?rem
      (\<lambda>n3. Inr (send_packet fd (page_reply n pkt bytes) n3)) ?n3"
    using dispatch_request [OF assms(4) _ assms(2), of fd] assms(5) m bytes valid_nodeD [OF me] i
    by (simp add: serve_valid_copy_def Let_def page_reply_def num_pages_def n1 n3 flip: i_def)
  have ps: "gpd_pending_reqs ?n3 = Some ps" "unat ?idx < length ps"
    using assms(2,3) i by (simp_all add: n3 node_inv_def flip: i_def)
  have same_idx: "of_nat i = ?idx" by (simp add: i_def)
  show thesis
  proof (cases "?t = []")
    case True
    have r: "dispatch K fd n pkt = Inr (send_packet fd (page_reply n pkt bytes) ?n3)"
      unfolding run True by (simp add: invalidate_then_grant_none)
    show thesis
      by (rule that [OF r, of "[]"]) (use True t e assms(1,3) in \<open>auto simp: send_packet_def n3\<close>)
  next
    case False
    note r = run [unfolded invalidate_then_grant_some [OF refl False ps, of ?rem]]
    show thesis
      by (rule that [OF r, of ?t]) (use False t e assms(1,3) same_idx in \<open>auto simp: send_invalidates_def n3 pending_overwritten
          simp flip: i_def\<close>)
  qed
qed

section \<open>Counting acknowledgements\<close>

definition ack_for :: "u64 \<Rightarrow> int \<times> dsm_packet \<Rightarrow> bool" where
  "ack_for idx x \<longleftrightarrow> pkt_type (snd x) = MSG_INVALIDATE_ACK \<and> pkt_page_index (snd x) = idx"

text \<open>A run of packets from several sockets.\<close>

definition run_packets :: "'m kernel \<Rightarrow> 'm node \<Rightarrow> (int \<times> dsm_packet) list \<Rightarrow> 'm node comp" where
  "run_packets K = dispatch_all (\<lambda>n (fd, pkt). dispatch K fd n pkt)"

lemma run_packets_simps [simp]:
  "run_packets K n [] = Inr n"
  "run_packets K n (x # xs) = andthen (dispatch K (fst x) n (snd x)) (\<lambda>n'. run_packets K n' xs)"
  by (simp_all add: run_packets_def split: prod.splits)

lemma ack_ignored:
  assumes "ack_for idx x" and "get_pending (unat idx) n = Inr c" and "cp_expected_acks c = 0"
  shows "dispatch K (fst x) n (snd x) = Inr n"
  using assms by (auto simp: dispatch_def ack_for_def on_invalidate_ack_def get_pending_def split: option.splits)

lemma acks_ignored:
  assumes "get_pending (unat idx) n = Inr c" and "cp_expected_acks c = 0" and "\<forall>x \<in> set acks. ack_for idx x"
  shows "run_packets K n acks = Inr n"
  using assms(3) by (induction acks) (simp_all add: ack_ignored [OF _ assms(1,2)])

lemma ack_counted:
  assumes "ack_for idx x" and "unat idx < num_pages n"
    and "gpd_pending_reqs n = Some ps" and "unat idx < length ps" and "c = ps ! unat idx"
    and "unat (cp_expected_acks c) = Suc k" and "cp_requester_node_id c \<noteq> local_node_id n"
  shows "dispatch K (fst x) n (snd x) = Inr
    (if k = 0 then send_packet (cp_client_fd c)
        (make_packet MSG_SEND_PAGE idx (local_node_id n) (cp_deferred_payload c)) n
        \<lparr>gpd_pending_reqs := Some (ps[unat idx := c\<lparr>cp_expected_acks := 0, cp_requester_node_id := 0\<rparr>])\<rparr>
     else n\<lparr>gpd_pending_reqs := Some (ps[unat idx := c\<lparr>cp_expected_acks := cp_expected_acks c - 1\<rparr>])\<rparr>)"
proof -
  have pos: "cp_expected_acks c > 0" using assms(6) by (simp add: word_less_nat_alt)
  then have "unat (cp_expected_acks c - 1) = k" using assms(6) by (auto simp: unat_minus_one)
  then have zero: "cp_expected_acks c - 1 = 0 \<longleftrightarrow> k = 0" by (metis unat_0_iff)
  have ty: "pkt_type (snd x) = MSG_INVALIDATE_ACK" "pkt_page_index (snd x) = idx"
    using assms(1) by (simp_all add: ack_for_def)
  show ?thesis
    using assms(2-5,7) pos zero
    by (cases "k = 0") (simp_all add: dispatch_def ty on_invalidate_ack_def Let_def get_pending_def put_pending_def
        release_grant_def send_packet_def num_pages_def)
qed

text \<open>The deferred page is sent once, when as many acknowledgements as expected have arrived.\<close>

lemma ack_run:
  "unat idx < num_pages n \<Longrightarrow> gpd_pending_reqs n = Some ps \<Longrightarrow> unat idx < length ps \<Longrightarrow>
     c = ps ! unat idx \<Longrightarrow> unat (cp_expected_acks c) = k \<Longrightarrow> 0 < k \<Longrightarrow>
     cp_requester_node_id c \<noteq> local_node_id n \<Longrightarrow> \<forall>x \<in> set acks. ack_for idx x \<Longrightarrow>
     \<exists>n'. run_packets K n acks = Inr n' \<and>
       sent_packets n' = sent_packets n @
         (if k \<le> length acks
          then [(cp_client_fd c, make_packet MSG_SEND_PAGE idx (local_node_id n) (cp_deferred_payload c))]
          else [])"
proof (induction acks arbitrary: n ps c k)
  case (Cons x acks)
  obtain j where k: "k = Suc j" using Cons.prems(6) by (cases k) auto
  note step = ack_counted [of idx x n ps c j K, OF _ Cons.prems(1-4) Cons.prems(5) [unfolded k] Cons.prems(7)]
  show ?case
  proof (cases j)
    case 0
    let ?n1 = "send_packet (cp_client_fd c)
        (make_packet MSG_SEND_PAGE idx (local_node_id n) (cp_deferred_payload c)) n
        \<lparr>gpd_pending_reqs := Some (ps[unat idx := c\<lparr>cp_expected_acks := 0, cp_requester_node_id := 0\<rparr>])\<rparr>"
    have "get_pending (unat idx) ?n1 = Inr (c\<lparr>cp_expected_acks := 0, cp_requester_node_id := 0\<rparr>)"
      using Cons.prems(3) by (simp add: get_pending_def)
    then have "run_packets K ?n1 acks = Inr ?n1"
      using acks_ignored [of idx ?n1 _ acks K] Cons.prems(8) by simp
    then show ?thesis using step Cons.prems(8) 0 k by (simp add: send_packet_def)
  next
    case (Suc j')
    let ?c = "c\<lparr>cp_expected_acks := cp_expected_acks c - 1\<rparr>"
    let ?n1 = "n\<lparr>gpd_pending_reqs := Some (ps[unat idx := ?c])\<rparr>"
    have "unat (cp_expected_acks ?c) = j"
      using Cons.prems(5) k by (simp add: unat_minus_one unat_0_iff [symmetric])
    then have "\<exists>n'. run_packets K ?n1 acks = Inr n' \<and> sent_packets n' = sent_packets ?n1 @
         (if j \<le> length acks
          then [(cp_client_fd ?c, make_packet MSG_SEND_PAGE idx (local_node_id ?n1) (cp_deferred_payload ?c))]
          else [])"
      using Cons.prems Suc by (intro Cons.IH [of ?n1 "ps[unat idx := ?c]" ?c j]) auto
    then show ?thesis
      using step Cons.prems(8) k Suc by (cases "j \<le> length acks") simp_all
  qed
qed simp

section \<open>Reading a page this node holds\<close>

lemma read_of_valid_copy:
  assumes "node_inv n" and "serves_copy K n pkt bytes" and "pkt_type pkt = MSG_REQUEST_PAGE_READ"
  defines "i \<equiv> unat (pkt_page_index pkt)"
  obtains n' e where "dispatch K fd n pkt = Inr n'"
    and "sent_packets n' = sent_packets n @ [(fd, page_reply n pkt bytes)]"
    and "node_gpd n' = (node_gpd n)[i := e]" and "state e = STATE_SHARED"
    and "entry_ok (node_gpd n ! i) \<longrightarrow>
      abs_entry e = dir_read (unat (pkt_sender_node_id pkt)) (abs_entry (node_gpd n ! i))"
    and "node_mem n' = (if owner_node_id (node_gpd n ! i) = local_node_id n
       then k_writeprotect K (node_mem n) (pt_base_addr (page_table n ! i)) True else node_mem n)"
    and "page_table n' = page_table n" and "node_fds n' = learned n pkt fd"
    and "gpd_pending_reqs n' = gpd_pending_reqs n"
proof -
  let ?req = "pkt_sender_node_id pkt"
  let ?n1 = "learn_node_fd ?req fd n"
  have req: "valid_node ?req" and i: "i < num_pages n"
    and st: "pt_status (page_table n ! i) = PAGE_VALID"
    and bytes: "load_page K (node_mem n) (pt_base_addr (page_table n ! i)) = Inr bytes"
    using assms(2) by (simp_all add: serves_copy_def i_def)
  have inv1: "node_inv ?n1" and i1: "i < num_pages ?n1"
    using keptD [OF learn_node_fd_kept [where n = n]] assms(1) i by auto
  have n1: "?n1 = n\<lparr>node_fds := learned n pkt fd\<rparr>"
    using valid_nodeD [OF req] by (simp add: learn_node_fd_def learned_def NODE_SLOTS_def)
  obtain e n2 where m: "to_shared i ?req ?n1 = Inr (owner_node_id (node_gpd ?n1 ! i), n2)"
    and n2: "n2 = ?n1\<lparr>node_gpd := (node_gpd ?n1)[i := e]\<rparr>"
    and e: "state e = STATE_SHARED" "entry_ok (node_gpd ?n1 ! i) \<longrightarrow> abs_entry e = dir_read (unat ?req) (abs_entry (node_gpd ?n1 ! i))"
    using to_shared_returns [OF inv1 i1 req] by metis
  let ?n3 = "if owner_node_id (node_gpd n ! i) = local_node_id n
      then writeprotect_local_page_copy K i n2 else n2"
  have r: "dispatch K fd n pkt = Inr (send_packet fd (page_reply n pkt bytes) ?n3)"
    using dispatch_request [OF assms(2) _ assms(1), of fd] assms(3) m bytes i
    by (simp add: serve_valid_copy_def Let_def page_reply_def num_pages_def n1 n2 flip: i_def)
  show thesis
    by (rule that [OF r, of e])
      (use e i st in \<open>simp_all add: send_packet_def n2 n1 writeprotect_local_page_copy_def num_pages_def\<close>)
qed

section \<open>A small cluster head\<close>

definition idle_pending :: coord_pending where
  "idle_pending = \<lparr>cp_requester_node_id = 0, cp_type = 0, cp_client_fd = 0, cp_expected_acks = 0,
     cp_deferred_payload = zero_page\<rparr>"

definition hub :: "gpd_entry \<Rightarrow> page \<Rightarrow> (u64 \<Rightarrow> (page \<times> bool) option) node" where
  "hub e bytes =
     \<lparr>local_node_id = 1, coordinator_fd = - 1,
      node_fds = (replicate NODE_SLOTS (- 1))[2 := 12, 3 := 13],
      page_table = [\<lparr>pt_base_addr = 0x10000, pt_status = PAGE_VALID\<rparr>], node_gpd = [e],
      gpd_pending_reqs = Some [idle_pending],
      eviction_ring = init_eviction_ring 0x10000 4096 1,
      node_mem = [0x10000 \<mapsto> (bytes, True)], sent_packets = []\<rparr>"

definition shared_entry :: gpd_entry where
  "shared_entry = \<lparr>state = STATE_SHARED, owner_node_id = 0, shared_nodes_bitmap = 14\<rparr>"

lemma hub_ok: "entry_ok e \<Longrightarrow> node_inv (hub e bytes)"
  by (simp add: node_inv_def hub_def valid_node_def gpd_safe_def num_pages_def idle_pending_def entry_ok_safe)

lemma shared_entry_ok [simp]: "entry_ok shared_entry" "gpd_holders [shared_entry] 0 = {1, 2, 3}"
proof -
  have bits: "bit (14 :: u64) k \<longleftrightarrow> k = 1 \<or> k = 2 \<or> k = 3" for k
  proof -
    have "(14 :: u64) = node_bit 1 OR (node_bit 2 OR node_bit 3)" by (simp add: node_bit_def)
    then show ?thesis unfolding \<open>14 = _\<close> by (auto simp: bit_or_iff bit_node_bit)
  qed
  show "entry_ok shared_entry" using bits [of 0] by (simp add: entry_ok_def shared_entry_def)
  show "gpd_holders [shared_entry] 0 = {1, 2, 3}"
  proof -
    have "nodes_of 14 = {1, 2, 3}" unfolding nodes_of_def bits by blast
    then show ?thesis by (simp add: gpd_holders_def abs_entry_def shared_entry_def)
  qed
qed

definition ask :: "u8 \<Rightarrow> u32 \<Rightarrow> dsm_packet" where
  "ask ty sender = make_packet ty 0 sender zero_page"

lemma ask_simps [simp]:
  "pkt_type (ask ty sender) = ty" "pkt_page_index (ask ty sender) = 0"
  "pkt_sender_node_id (ask ty sender) = sender"
  by (simp_all add: ask_def make_packet_def)

lemma hub_serves: "valid_node sender \<Longrightarrow> serves_copy map_kernel (hub e bytes) (ask ty sender) bytes"
  by (simp add: serves_copy_def hub_def num_pages_def load_page_view)

lemma hub_live: "live_holders (hub shared_entry bytes) (ask ty 2) 12 = {3}"
  by (auto simp: live_holders_def learned_def hub_def NODE_SLOTS_def)

section \<open>Properties\<close>

text \<open>C7. On a well-formed node with its pending table allocated, every packet with an acceptable
  sender is handled to the end and leaves the node well formed, with one exception: a request for a
  page whose status is \<open>PAGE_VALID\<close> but whose memory the eviction thread has released suspends the
  engine, which alone could serve its own fault.\<close>

theorem handlers_return_or_self_fault:
  assumes "node_inv n" and "gpd_pending_reqs n \<noteq> None" and "sender_ok pkt"
  shows "if self_fault K n pkt then dispatch K fd n pkt = Inl Suspended
    else \<exists>n'. dispatch K fd n pkt = Inr n' \<and> node_inv n' \<and> num_pages n' = num_pages n \<and>
      gpd_pending_reqs n' \<noteq> None"
proof (cases "self_fault K n pkt")
  case False
  then show ?thesis
    using engine.serve_returns [of n pkt K fd] engine.serve_inv [of n pkt K fd] assms
      dispatch_kept [OF _ assms(1,3)] keptD(2) by (metis (no_types, lifting))
next
  case True
  then have idx: "unat (pkt_page_index pkt) < length (page_table n)"
    "unat (pkt_page_index pkt) < length (node_gpd n)"
    using assms(1) by (auto simp: self_fault_def num_pages_def node_inv_def)
  show ?thesis
    using True idx by (auto simp: self_fault_def dispatch_def on_request_def Let_def gpd_get_owner_def
        learn_node_fd_def serve_valid_copy_def load_page_def num_pages_def)
qed

theorem handlers_return_or_self_fault_witness:
  "dispatch map_kernel 12 (hub shared_entry zero_page\<lparr>node_mem := Map.empty\<rparr>) (ask MSG_REQUEST_PAGE_READ 2) =
     Inl Suspended \<and>
   (\<exists>n'. dispatch map_kernel 12 (hub shared_entry zero_page) (ask MSG_REQUEST_PAGE_READ 2) = Inr n')"
proof -
  let ?gone = "hub shared_entry zero_page\<lparr>node_mem := Map.empty\<rparr>"
  have inv: "node_inv (hub shared_entry zero_page)" by (simp add: hub_ok)
  then have "node_inv ?gone" by (simp add: node_inv_def hub_def num_pages_def)
  moreover have "gpd_pending_reqs ?gone \<noteq> None" by (simp add: hub_def)
  moreover have ok: "sender_ok (ask MSG_REQUEST_PAGE_READ 2)" by (simp add: sender_ok_def valid_node_def)
  moreover have "self_fault map_kernel ?gone (ask MSG_REQUEST_PAGE_READ 2)"
    by (simp add: self_fault_def hub_def num_pages_def map_kernel_def)
  ultimately have gone: "dispatch map_kernel 12 ?gone (ask MSG_REQUEST_PAGE_READ 2) = Inl Suspended"
    using handlers_return_or_self_fault [of ?gone "ask MSG_REQUEST_PAGE_READ 2" map_kernel 12] by simp
  have "\<not> self_fault map_kernel (hub shared_entry zero_page) (ask MSG_REQUEST_PAGE_READ 2)"
    "gpd_pending_reqs (hub shared_entry zero_page) \<noteq> None"
    by (auto simp: self_fault_def hub_def num_pages_def map_kernel_def)
  then show ?thesis
    using handlers_return_or_self_fault [OF inv _ ok, of map_kernel 12] gone by auto
qed

text \<open>C4. A write request from another node to a node that holds a valid copy, followed by any number of
  acknowledgements for that page and nothing else (and by none when no invalidation was to be sent): an
  invalidation goes to every other live holder, once each and before anything else; the page goes to the
  writer once, with the bytes it had when the request was handled, if at least as many acknowledgements have
  arrived as invalidations were sent, and not at all otherwise. A second request for the page among the
  acknowledgements is a different case: it can overwrite the waiting grant.\<close>

theorem write_grant_waits_for_acks:
  assumes "kernel_ok K" and "node_inv n" and "gpd_pending_reqs n \<noteq> None"
    and "serves_copy K n pkt bytes" and "pkt_type pkt = MSG_REQUEST_PAGE_WRITE"
    and "pkt_sender_node_id pkt \<noteq> local_node_id n"
    and "\<forall>x \<in> set acks. ack_for (pkt_page_index pkt) x" and "live_holders n pkt fd = {} \<longrightarrow> acks = []"
  shows "\<exists>n' targets. run_packets K n ((fd, pkt) # acks) = Inr n' \<and>
    distinct targets \<and> set targets = live_holders n pkt fd \<and>
    sent_packets n' = sent_packets n @
      map (\<lambda>m. (learned n pkt fd ! m, make_packet MSG_INVALIDATE (pkt_page_index pkt) 0 zero_page)) targets @
      (if card (live_holders n pkt fd) \<le> length acks then [(fd, page_reply n pkt bytes)] else [])"
proof -
  obtain ps where ps: "gpd_pending_reqs n = Some ps" using assms(3) by blast
  obtain n1 targets where n1: "dispatch K fd n pkt = Inr n1"
    and t: "distinct targets" "set targets = live_holders n pkt fd"
    and sent: "sent_packets n1 = sent_packets n @
      (if targets = [] then [(fd, page_reply n pkt bytes)]
       else map (\<lambda>m. (learned n pkt fd ! m, make_packet MSG_INVALIDATE (pkt_page_index pkt) 0 zero_page)) targets)"
    and pt: "page_table n1 = (page_table n)[unat (pkt_page_index pkt) := (page_table n ! unat (pkt_page_index pkt))\<lparr>pt_status := PAGE_EMPTY\<rparr>]"
    and me: "local_node_id n1 = local_node_id n"
    and pend: "gpd_pending_reqs n1 = (if targets = [] then Some ps else Some (ps[unat (pkt_page_index pkt) :=
      \<lparr>cp_requester_node_id = pkt_sender_node_id pkt, cp_type = MSG_REQUEST_PAGE_WRITE,
       cp_client_fd = fd, cp_expected_acks = of_nat (length targets), cp_deferred_payload = bytes\<rparr>]))"
    using write_to_valid_copy [OF assms(1,2) ps assms(4,5), of fd] by metis
  have card: "card (live_holders n pkt fd) = length targets"
    using t distinct_card by fastforce
  have i: "unat (pkt_page_index pkt) < num_pages n" "unat (pkt_page_index pkt) < length ps"
    using assms(2,4) ps by (auto simp: serves_copy_def node_inv_def)
  show ?thesis
  proof (cases "targets = []")
    case True
    then have "acks = []" using assms(8) t(2) by simp
    then show ?thesis using n1 t sent card True by auto
  next
    case False
    let ?c = "\<lparr>cp_requester_node_id = pkt_sender_node_id pkt, cp_type = MSG_REQUEST_PAGE_WRITE,
       cp_client_fd = fd, cp_expected_acks = of_nat (length targets), cp_deferred_payload = bytes\<rparr>"
    have "live_holders n pkt fd \<subseteq> {..<64}"
      using gpd_safe_bound assms(2) by (auto simp: live_holders_def node_inv_def)
    then have "length targets \<le> 64" using card_mono [of "{..<64}" "live_holders n pkt fd"] card by simp
    then have "length targets < 2 ^ LENGTH(32)" by simp
    then have k: "unat (of_nat (length targets) :: u32) = length targets" by (rule of_nat_inverse [OF refl])
    have "\<exists>n'. run_packets K n1 acks = Inr n' \<and> sent_packets n' = sent_packets n1 @
         (if length targets \<le> length acks
          then [(cp_client_fd ?c, make_packet MSG_SEND_PAGE (pkt_page_index pkt) (local_node_id n1) (cp_deferred_payload ?c))]
          else [])"
      by (rule ack_run [of _ _ "ps[unat (pkt_page_index pkt) := ?c]"])
        (use False pend i me assms(6,7) k pt in \<open>simp_all add: num_pages_def\<close>)
    then show ?thesis
      using n1 t sent card False me by (auto simp: page_reply_def)
  qed
qed

theorem write_grant_waits_for_acks_witness:
  "\<exists>n'. run_packets map_kernel (hub shared_entry zero_page)
      [(12, ask MSG_REQUEST_PAGE_WRITE 2), (13, ask MSG_INVALIDATE_ACK 3)] = Inr n' \<and>
    sent_packets n' = [(13, make_packet MSG_INVALIDATE 0 0 zero_page), (12, make_packet MSG_SEND_PAGE 0 1 zero_page)]"
proof -
  have v: "valid_node 2" by (simp add: valid_node_def)
  have acks: "\<forall>x \<in> set [(13, ask MSG_INVALIDATE_ACK 3)]. ack_for (pkt_page_index (ask MSG_REQUEST_PAGE_WRITE 2)) x"
    by (simp add: ack_for_def)
  have "gpd_pending_reqs (hub shared_entry zero_page) \<noteq> None"
    "pkt_sender_node_id (ask MSG_REQUEST_PAGE_WRITE 2) \<noteq> local_node_id (hub shared_entry zero_page)"
    "live_holders (hub shared_entry zero_page) (ask MSG_REQUEST_PAGE_WRITE 2) 12 = {} \<longrightarrow>
      [(13, ask MSG_INVALIDATE_ACK 3)] = []"
    unfolding hub_live by (simp_all add: hub_def)
  note grant = write_grant_waits_for_acks [OF map_kernel_ok hub_ok this(1) hub_serves [OF v] _ this(2) acks this(3)]
  obtain n' targets where "run_packets map_kernel (hub shared_entry zero_page)
      [(12, ask MSG_REQUEST_PAGE_WRITE 2), (13, ask MSG_INVALIDATE_ACK 3)] = Inr n'"
    and t: "distinct targets" "set targets = {3}"
    and "sent_packets n' = sent_packets (hub shared_entry zero_page) @
      map (\<lambda>m. (learned (hub shared_entry zero_page) (ask MSG_REQUEST_PAGE_WRITE 2) 12 ! m,
        make_packet MSG_INVALIDATE 0 0 zero_page)) targets @
      [(12, page_reply (hub shared_entry zero_page) (ask MSG_REQUEST_PAGE_WRITE 2) zero_page)]"
    using grant by (auto simp: hub_live)
  moreover have "targets = [3]"
    using t by (metis distinct_singleton distinct_length_2_or_more empty_set insert_not_empty list.exhaust
        list.set_intros(1) list.set_intros(2) singletonD)
  ultimately show ?thesis by (simp add: learned_def hub_def NODE_SLOTS_def page_reply_def)
qed

end
