(* ===== verification/Net_Effects.thy ===== *)
theory Net_Effects
  imports Net_Protocol
begin

text \<open>
  The effect of single steps of the engine on the page, the directory and the peers: serving a copy,
  relaying a fetched page, obeying an invalidation, accepting a page, draining the request queue; and
  the steps after which copies of a page can differ.
\<close>

section \<open>Fetching from the owner\<close>

lemma fetch_when_owned:
  assumes "node_inv n" and "gpd_pending_reqs n = Some ps" and "valid_node (pkt_sender_node_id pkt)"
    and "pkt_type pkt = MSG_REQUEST_PAGE_READ \<or> pkt_type pkt = MSG_REQUEST_PAGE_WRITE"
  defines "i \<equiv> unat (pkt_page_index pkt)"
  defines "own \<equiv> owner_node_id (node_gpd n ! i)"
  assumes "i < num_pages n" and "pt_status (page_table n ! i) \<noteq> PAGE_VALID"
    and "own \<noteq> 0" and "own \<noteq> pkt_sender_node_id pkt" and "node_fds n ! unat own \<noteq> - 1"
  shows "dispatch K fd n pkt = Inr (send_packet (node_fds n ! unat own)
      (make_packet MSG_REQUEST_PAGE_READ (pkt_page_index pkt) (local_node_id n) zero_page)
      (n\<lparr>node_fds := learned n pkt fd, gpd_pending_reqs := Some (ps[i := (ps ! i)\<lparr>
          cp_requester_node_id := pkt_sender_node_id pkt, cp_type := pkt_type pkt,
          cp_client_fd := fd, cp_expected_acks := 0\<rparr>])\<rparr>))"
proof -
  let ?req = "pkt_sender_node_id pkt"
  have i: "i < length (page_table n)" "i < length (node_gpd n)" "i < length ps" "length (node_fds n) = 64"
    and g: "gpd_safe (node_gpd n)"
    using assms(1,2,7) by (auto simp: node_inv_def num_pages_def NODE_SLOTS_def)
  have own: "unat own < 64"
    using gpd_safeD [OF g i(2)] by (simp add: entry_safe_def own_def)
  have other: "unat own \<noteq> unat ?req" using assms(10) by (simp add: word_unat_eq_iff)
  have req: "unat ?req < 64" using assms(3) by auto
  show ?thesis
    using i assms(2,4,7-11) own other req
    by (auto simp: dispatch_def on_request_def Let_def gpd_get_owner_def learn_node_fd_def NODE_SLOTS_def
        num_pages_def owner_reachable_def fetch_from_owner_def put_pending_def learned_def send_packet_def
        simp flip: i_def own_def)
qed

section \<open>A page arrives\<close>

lemma page_installed:
  assumes "kernel_ok K" and "unat (pkt_page_index pkt) < num_pages n" and "pkt_type pkt = MSG_SEND_PAGE"
    and "coordinator_fd n \<noteq> - 1" and "page = page_table n ! unat (pkt_page_index pkt)"
    and "pt_status page = PAGE_EMPTY \<or> pt_status page = PAGE_PENDING"
  obtains n' where "dispatch K fd n pkt = Inr n'" and "sent_packets n' = sent_packets n"
    and "pt_status (page_table n' ! unat (pkt_page_index pkt)) = PAGE_VALID"
    and "view K (node_mem n') = (view K (node_mem n))(pt_base_addr page \<mapsto> (pkt_payload pkt, False))"
proof -
  let ?i = "unat (pkt_page_index pkt)"
  have i: "?i < length (page_table n)" using assms(2) by (simp add: num_pages_def)
  obtain n' where n': "install_page K ?i (pkt_payload pkt) n = Inr n'"
    using install_page_returns [OF assms(2)] by blast
  have "dispatch K fd n pkt = Inr n'"
    using assms(2-6) i n' by (auto simp: dispatch_def on_send_page_def Let_def accept_page_def)
  then show thesis
    using that i assms(5) install_page_view [OF assms(1) n'] install_page_change [OF n']
    by (auto simp: local_change_def)
qed

section \<open>Relaying a fetched page\<close>

lemma to_shared_ownerless:
  "to_shared i r n = Inr (old, n') \<Longrightarrow> i < length (node_gpd n) \<Longrightarrow> owner_node_id (node_gpd n' ! i) = 0"
  by (auto simp: to_shared_def gpd_transition_to_shared_def Let_def split: msi_state.splits if_splits)

lemma relay_to_reader:
  assumes "node_inv n" and "gpd_pending_reqs n = Some ps" and "coordinator_fd n = - 1"
    and "pkt_type pkt = MSG_SEND_PAGE" and "i = unat (pkt_page_index pkt)" and "i < num_pages n"
    and "cp_requester_node_id (ps ! i) = req" and "req \<noteq> 0" and "req \<noteq> local_node_id n"
    and "cp_type (ps ! i) = MSG_REQUEST_PAGE_READ" and "entry_ok (node_gpd n ! i)"
  obtains e where "dispatch K fd n pkt = Inr (n\<lparr>node_gpd := (node_gpd n)[i := e],
      sent_packets := sent_packets n @ [(cp_client_fd (ps ! i), pkt)],
      gpd_pending_reqs := Some (ps[i := (ps ! i)\<lparr>cp_requester_node_id := 0\<rparr>])\<rparr>)"
    and "abs_entry e = SharedBy (insert (unat req) (gpd_holders (node_gpd n) i))"
    and "owner_node_id e = 0" and "entry_safe e"
proof -
  have len: "i < length ps" "i < length (node_gpd n)"
    using assms(1,2,6) by (auto simp: node_inv_def)
  have "get_pending i n = Inr (ps ! i)" using assms(2) len by (simp add: get_pending_def)
  from get_pending_ok [OF assms(1) this] have req: "valid_node req" using assms(7,8) by simp
  obtain e n1 where n1: "to_shared i req n = Inr (owner_node_id (node_gpd n ! i), n1)"
    and g: "n1 = n\<lparr>node_gpd := (node_gpd n)[i := e]\<rparr>" and safe: "entry_safe e"
    and e: "abs_entry e = dir_read (unat req) (abs_entry (node_gpd n ! i))"
    using to_shared_returns [OF assms(1,6) req] assms(11) by metis
  have "owner_node_id e = 0" using to_shared_ownerless [OF n1 len(2)] g len(2) by simp
  moreover have "dispatch K fd n pkt = deliver_fetched K req (cp_client_fd (ps ! i)) pkt n1"
    using assms(2-4,6-8,10) len n1
    by (simp add: dispatch_def on_send_page_def Let_def get_pending_def complete_fetch_def flip: assms(5))
  ultimately show thesis
    using assms(2,9) len e safe that
    by (simp add: g deliver_fetched_def send_packet_def put_pending_def gpd_holders_def flip: assms(5))
qed

section \<open>Draining the queue\<close>

lemma foldl_stuck: "foldl (\<lambda>c r. andthen c (f r)) (Inl e) rs = Inl e"
  by (induction rs) auto

lemma drain_queue_eq:
  assumes "queue_inv q"
  obtains q' where "queue_inv q'" and "queue_contents q' = []"
    and "drain_queue K q n = andthen (foldl (\<lambda>c r. andthen c (serve_local_request K r)) (Inr n) (queue_contents q))
      (\<lambda>n'. Inr (q', n'))"
proof -
  have "length (queue_contents q) < QUEUE_CAPACITY + 1"
    using rq.within_cap [OF assms] by simp
  from rq.pop_loop_drains [OF assms this, of "\<lambda>c r. andthen c (serve_local_request K r)" "Inr n"]
  obtain q' where "pop_loop queue_pop (\<lambda>c r. andthen c (serve_local_request K r)) (QUEUE_CAPACITY + 1) q (Inr n) =
      Some (q', foldl (\<lambda>c r. andthen c (serve_local_request K r)) (Inr n) (queue_contents q))"
    "queue_inv q'" "queue_contents q' = []" by blast
  then show thesis by (intro that [of q']) (simp_all add: drain_queue_def)
qed

definition local_request_packet :: "'m node \<Rightarrow> page_request \<Rightarrow> dsm_packet" where
  "local_request_packet n r =
     make_packet (if rq_is_write r then MSG_REQUEST_PAGE_WRITE else MSG_REQUEST_PAGE_READ)
       (rq_page_index r) (local_node_id n) zero_page"

lemma worker_drain:
  assumes "coordinator_fd n \<noteq> - 1"
  shows "foldl (\<lambda>c r. andthen c (serve_local_request K r)) (Inr n) rs =
    Inr (n\<lparr>sent_packets := sent_packets n @ map (\<lambda>r. (coordinator_fd n, local_request_packet n r)) rs\<rparr>)"
  using assms
proof (induction rs arbitrary: n)
  case (Cons r rs)
  have step: "serve_local_request K r n =
      Inr (send_packet (coordinator_fd n) (local_request_packet n r) n)"
    using Cons.prems by (simp add: serve_local_request_def Let_def local_request_packet_def)
  have same: "local_request_packet (send_packet fd p n) = local_request_packet n" for fd p
    by (simp add: local_request_packet_def send_packet_def fun_eq_iff)
  show ?case
    using Cons.IH [of "send_packet (coordinator_fd n) (local_request_packet n r) n"] Cons.prems
    by (simp add: step same) (simp add: send_packet_def)
qed simp

section \<open>Properties\<close>

text \<open>C11. After a write request was served from a valid copy the writer is the recorded owner, the
  serving node has dropped its own copy (its status is \<open>PAGE_EMPTY\<close>), and no other page of its
  memory and no other directory entry has changed.\<close>

theorem write_request_hands_over:
  assumes "kernel_ok K" and "node_inv n" and "gpd_pending_reqs n \<noteq> None"
    and "serves_copy K n pkt bytes" and "pkt_type pkt = MSG_REQUEST_PAGE_WRITE"
    and "i = unat (pkt_page_index pkt)"
  shows "\<exists>n' e. dispatch K fd n pkt = Inr n' \<and> node_gpd n' = (node_gpd n)[i := e] \<and>
    abs_entry e = OwnedBy (unat (pkt_sender_node_id pkt)) \<and>
    view K (node_mem n') = (view K (node_mem n))(pt_base_addr (page_table n ! i) := None) \<and>
    page_table n' = (page_table n)[i := (page_table n ! i)\<lparr>pt_status := PAGE_EMPTY\<rparr>]"
proof -
  obtain ps where ps: "gpd_pending_reqs n = Some ps" using assms(3) by blast
  show ?thesis
    using write_to_valid_copy [OF assms(1,2) ps assms(4,5), of fd] assms(6)
    by (metis abs_entry_def msi_state.case(1))
qed

theorem write_request_hands_over_witness:
  "\<exists>n'. dispatch map_kernel 12 (hub shared_entry zero_page) (ask MSG_REQUEST_PAGE_WRITE 2) = Inr n' \<and>
     map abs_entry (node_gpd n') = [OwnedBy 2] \<and> node_mem n' 0x10000 = None"
proof -
  have "valid_node 2" "gpd_pending_reqs (hub shared_entry zero_page) \<noteq> None"
    by (simp_all add: valid_node_def hub_def)
  then show ?thesis
    using write_request_hands_over [OF map_kernel_ok hub_ok [OF shared_entry_ok(1)] _
        hub_serves [where sender = 2 and bytes = zero_page and ty = MSG_REQUEST_PAGE_WRITE],
        where fd = 12 and i = 0] by (auto simp: hub_def)
qed

text \<open>C12. A read request served from a valid copy: the reader gets the bytes of the copy and becomes
  a recorded sharer besides the former holders; when the serving node was the recorded owner its own
  copy is write-protected, with its bytes unchanged; no other page and no other entry changes.\<close>

theorem read_request_shares:
  assumes "kernel_ok K" and "node_inv n" and "serves_copy K n pkt bytes"
    and "pkt_type pkt = MSG_REQUEST_PAGE_READ" and "i = unat (pkt_page_index pkt)"
    and "a = pt_base_addr (page_table n ! i)" and "entry_ok (node_gpd n ! i)"
  shows "\<exists>n' e wp. dispatch K fd n pkt = Inr n' \<and>
    sent_packets n' = sent_packets n @ [(fd, page_reply n pkt bytes)] \<and>
    node_gpd n' = (node_gpd n)[i := e] \<and>
    abs_entry e = SharedBy (insert (unat (pkt_sender_node_id pkt)) (gpd_holders (node_gpd n) i)) \<and>
    view K (node_mem n) a = Some (bytes, wp) \<and>
    view K (node_mem n') =
      (if owner_node_id (node_gpd n ! i) = local_node_id n then (view K (node_mem n))(a \<mapsto> (bytes, True))
       else view K (node_mem n)) \<and>
    page_table n' = page_table n"
proof -
  have i: "i < length (node_gpd n)"
    using assms(2,3,5) by (simp add: serves_copy_def node_inv_def)
  obtain wp where wp: "view K (node_mem n) a = Some (bytes, wp)"
    using assms(3,5,6) by (auto simp: serves_copy_def load_page_view split: option.splits)
  obtain n' e where n': "dispatch K fd n pkt = Inr n'"
    "sent_packets n' = sent_packets n @ [(fd, page_reply n pkt bytes)]" "page_table n' = page_table n"
    and g: "node_gpd n' = (node_gpd n)[i := e]"
      "abs_entry e = dir_read (unat (pkt_sender_node_id pkt)) (abs_entry (node_gpd n ! i))"
    and m: "node_mem n' = (if owner_node_id (node_gpd n ! i) = local_node_id n
       then k_writeprotect K (node_mem n) (pt_base_addr (page_table n ! i)) True else node_mem n)"
    using read_of_valid_copy [OF assms(2-4), of fd] assms(5,7) by metis
  have "abs_entry e = SharedBy (insert (unat (pkt_sender_node_id pkt)) (gpd_holders (node_gpd n) i))"
    using g(2) i by (simp add: gpd_holders_def)
  moreover have "view K (node_mem n') =
      (if owner_node_id (node_gpd n ! i) = local_node_id n then (view K (node_mem n))(a \<mapsto> (bytes, True))
       else view K (node_mem n))"
    using m wp assms(1,6) by simp
  ultimately show ?thesis using n' g(1) wp by blast
qed

theorem read_request_shares_witness:
  "\<exists>n'. dispatch map_kernel 13
      (hub \<lparr>state = STATE_MODIFIED, owner_node_id = 1, shared_nodes_bitmap = 0\<rparr> (replicate 4096 7))
      (ask MSG_REQUEST_PAGE_READ 3) = Inr n' \<and>
    node_mem n' 0x10000 = Some (replicate 4096 7, True) \<and> map abs_entry (node_gpd n') = [SharedBy {1, 3}]"
proof -
  let ?e = "\<lparr>state = STATE_MODIFIED, owner_node_id = 1, shared_nodes_bitmap = 0\<rparr> :: gpd_entry"
  have e: "entry_ok ?e" and v: "valid_node 3" by (simp_all add: entry_ok_def valid_node_def)
  let ?n = "hub ?e (replicate 4096 7)"
  have f: "page_table ?n = [\<lparr>pt_base_addr = 0x10000, pt_status = PAGE_VALID\<rparr>]" "node_gpd ?n = [?e]"
    "node_mem ?n = [0x10000 \<mapsto> (replicate 4096 7, True)]" "local_node_id ?n = 1"
    by (simp_all add: hub_def)
  have h: "gpd_holders [?e] 0 = {1}" by (simp add: gpd_holders_def abs_entry_def)
  have "\<exists>n' e' wp. dispatch map_kernel 13 ?n (ask MSG_REQUEST_PAGE_READ 3) = Inr n' \<and>
      sent_packets n' = sent_packets ?n @ [(13, page_reply ?n (ask MSG_REQUEST_PAGE_READ 3) (replicate 4096 7))] \<and>
      node_gpd n' = (node_gpd ?n)[0 := e'] \<and> abs_entry e' = SharedBy (insert 3 (gpd_holders (node_gpd ?n) 0)) \<and>
      view map_kernel (node_mem ?n) 0x10000 = Some (replicate 4096 7, wp) \<and>
      view map_kernel (node_mem n') = (if owner_node_id (node_gpd ?n ! 0) = local_node_id ?n
        then (view map_kernel (node_mem ?n))(0x10000 \<mapsto> (replicate 4096 7, True)) else view map_kernel (node_mem ?n)) \<and>
      page_table n' = page_table ?n"
    using read_request_shares [OF map_kernel_ok hub_ok [OF e] hub_serves [OF v, where bytes = "replicate 4096 7"
        and ty = MSG_REQUEST_PAGE_READ], where i = 0 and a = "0x10000" and fd = 13] e
    by (simp add: f)
  then show ?thesis by (auto simp: f h insert_commute)
qed

text \<open>C24. A node that serves a read of its copy while its own directory does not record itself as the owner
  leaves the copy mapped and, if it was mapped writable, writable: its next store does not fault, although the
  copy it has handed out then differs from its own.\<close>

theorem worker_fetch_leaves_page_writable:
  assumes "kernel_ok K" and "node_inv n" and "serves_copy K n pkt bytes"
    and "pkt_type pkt = MSG_REQUEST_PAGE_READ" and "i = unat (pkt_page_index pkt)"
    and "owner_node_id (node_gpd n ! i) \<noteq> local_node_id n" and "view K (node_mem n) (pt_base_addr (page_table n ! i)) = Some (bytes, False)"
  shows "\<exists>n'. dispatch K fd n pkt = Inr n' \<and>
    sent_packets n' = sent_packets n @ [(fd, page_reply n pkt bytes)] \<and>
    view K (node_mem n') (pt_base_addr (page_table n' ! i)) = Some (bytes, False) \<and>
    pt_status (page_table n' ! i) = PAGE_VALID"
proof -
  obtain n' where "dispatch K fd n pkt = Inr n'"
    "sent_packets n' = sent_packets n @ [(fd, page_reply n pkt bytes)]" "page_table n' = page_table n"
    "node_mem n' = (if owner_node_id (node_gpd n ! i) = local_node_id n
       then k_writeprotect K (node_mem n) (pt_base_addr (page_table n ! i)) True else node_mem n)"
    using read_of_valid_copy [OF assms(2-4), of fd] assms(5) by metis
  then show ?thesis
    using assms(3,5-7) by (simp add: serves_copy_def)
qed

theorem worker_fetch_leaves_page_writable_witness:
  "\<exists>n'. dispatch map_kernel 9
      (hub fresh_entry (replicate 4096 7)\<lparr>local_node_id := 2, coordinator_fd := 9,
         node_mem := [0x10000 \<mapsto> (replicate 4096 7, False)]\<rparr>) (ask MSG_REQUEST_PAGE_READ 1) = Inr n' \<and>
    node_mem n' 0x10000 = Some (replicate 4096 7, False)"
proof -
  let ?n = "hub fresh_entry (replicate 4096 7)\<lparr>local_node_id := 2, coordinator_fd := 9,
      node_mem := [0x10000 \<mapsto> (replicate 4096 7, False)]\<rparr>"
  have "node_inv ?n" using hub_ok [OF fresh_entry_ok(1)] by (simp add: node_inv_def hub_def num_pages_def valid_node_def)
  moreover have "serves_copy map_kernel ?n (ask MSG_REQUEST_PAGE_READ 1) (replicate 4096 7)"
    by (simp add: serves_copy_def hub_def num_pages_def load_page_view valid_node_def)
  moreover have "owner_node_id (node_gpd ?n ! 0) \<noteq> local_node_id ?n" "view map_kernel (node_mem ?n) (pt_base_addr (page_table ?n ! 0)) =
      Some (replicate 4096 7, False)" "pt_base_addr (page_table ?n ! 0) = 0x10000"
    by (simp_all add: hub_def fresh_entry_def)
  ultimately have "\<exists>n'. dispatch map_kernel 9 ?n (ask MSG_REQUEST_PAGE_READ 1) = Inr n' \<and>
      sent_packets n' = sent_packets ?n @ [(9, page_reply ?n (ask MSG_REQUEST_PAGE_READ 1) (replicate 4096 7))] \<and>
      node_mem n' (pt_base_addr (page_table n' ! 0)) = Some (replicate 4096 7, False) \<and>
      pt_status (page_table n' ! 0) = PAGE_VALID"
    using worker_fetch_leaves_page_writable [OF map_kernel_ok, of ?n "ask MSG_REQUEST_PAGE_READ 1"
        "replicate 4096 7" 0 9] by simp
  then obtain n' where n': "dispatch map_kernel 9 ?n (ask MSG_REQUEST_PAGE_READ 1) = Inr n'"
    "node_mem n' (pt_base_addr (page_table n' ! 0)) = Some (replicate 4096 7, False)" by blast
  have "page_table n' = page_table ?n"
    using read_of_valid_copy [OF \<open>node_inv ?n\<close> \<open>serves_copy map_kernel ?n _ _\<close>, of 9] n'(1)
    by (metis ask_simps(1) sum.inject(2))
  then show ?thesis using n' by (simp add: hub_def)
qed



text \<open>Once the queue's eventfd is readable, a worker sends the coordinator one request packet for
  every queued fault, in the order of the faults, with the page and the access asked for, and the queue
  is empty; nothing else of the node changes.\<close>

lemma worker_drain_forwards_faults:
  assumes "queue_inv q" and "coordinator_fd n \<noteq> - 1"
  shows "\<exists>q'. drain_queue K q n = Inr (q', n\<lparr>sent_packets := sent_packets n @
      map (\<lambda>r. (coordinator_fd n, local_request_packet n r)) (queue_contents q)\<rparr>) \<and>
    queue_inv q' \<and> queue_contents q' = []"
proof -
  obtain q' where "queue_inv q'" "queue_contents q' = []"
    and "drain_queue K q n = andthen (foldl (\<lambda>c r. andthen c (serve_local_request K r)) (Inr n) (queue_contents q))
      (\<lambda>n'. Inr (q', n'))"
    using drain_queue_eq [OF assms(1)] .
  then show ?thesis by (simp add: worker_drain [OF assms(2)])
qed

lemma worker_drain_forwards_faults_instance:
  "\<exists>q q' n'. queue_push blank_queue \<lparr>rq_page_index = 3, rq_is_write = True\<rparr> = (0, q) \<and>
     drain_queue map_kernel q (hub fresh_entry zero_page\<lparr>coordinator_fd := 9\<rparr>) = Inr (q', n') \<and>
     sent_packets n' = [(9, make_packet MSG_REQUEST_PAGE_WRITE 3 1 zero_page)]"
proof -
  let ?r = "\<lparr>rq_page_index = 3, rq_is_write = True\<rparr>" and ?n = "hub fresh_entry zero_page\<lparr>coordinator_fd := 9\<rparr>"
  have blank: "queue_inv blank_queue" "queue_contents blank_queue = []"
    by (simp_all add: blank_queue_def queue_inv_def queue_contents_def QUEUE_CAPACITY_def)
  then have "length (queue_contents blank_queue) \<noteq> QUEUE_CAPACITY"
    unfolding blank(2) by (simp add: QUEUE_CAPACITY_def)
  then obtain q where q: "queue_push blank_queue ?r = (0, q)" "queue_inv q" "queue_contents q = [?r]"
    using rq.push_room [OF blank(1), of ?r] blank(2) by (cases "queue_push blank_queue ?r") auto
  then show ?thesis
    using worker_drain_forwards_faults [OF q(2), of ?n map_kernel]
    by (auto simp: hub_def local_request_packet_def)
qed

text \<open>C14. The faulting node's own side of a transfer, on a worker (a process that has a coordinator
  connection; the coordinator itself may have to collect acknowledgements first): the page that arrives is
  mapped with its bytes and writable (also when it was only read), and its status becomes \<open>PAGE_VALID\<close>; for
  a write to a page already held only the protection is lifted and the bytes that arrive are dropped; a page
  in status \<open>PAGE_VALID\<close> is left alone. \<open>UFFDIO_COPY\<close> is taken to succeed on a page that is not
  mapped.\<close>

theorem page_arrives:
  assumes "kernel_ok K" and "unat (pkt_page_index pkt) < num_pages n" and "pkt_type pkt = MSG_SEND_PAGE"
    and "coordinator_fd n \<noteq> - 1" and "page = page_table n ! unat (pkt_page_index pkt)"
  shows "\<exists>n'. dispatch K fd n pkt = Inr n' \<and> sent_packets n' = sent_packets n \<and>
    pt_status (page_table n' ! unat (pkt_page_index pkt)) = PAGE_VALID \<and>
    view K (node_mem n') =
      (case pt_status page of
         PAGE_VALID \<Rightarrow> view K (node_mem n)
       | PAGE_WRITE_PENDING \<Rightarrow> (view K (node_mem n))(pt_base_addr page :=
           map_option (\<lambda>(p, _). (p, False)) (view K (node_mem n) (pt_base_addr page)))
       | _ \<Rightarrow> (view K (node_mem n))(pt_base_addr page \<mapsto> (pkt_payload pkt, False)))"
proof -
  let ?i = "unat (pkt_page_index pkt)"
  have i: "?i < length (page_table n)" using assms(2) by (simp add: num_pages_def)
  have d: "dispatch K fd n pkt = accept_page K pkt n"
    using assms(2-4) by (simp add: dispatch_def on_send_page_def Let_def)
  consider (valid) "pt_status page = PAGE_VALID" | (wp) "pt_status page = PAGE_WRITE_PENDING"
    | (new) "pt_status page = PAGE_EMPTY \<or> pt_status page = PAGE_PENDING"
    by (cases "pt_status page") auto
  then show ?thesis
  proof cases
    case valid
    then show ?thesis unfolding d using i assms(5) by (simp add: accept_page_def Let_def)
  next
    case wp
    obtain n' where n': "lift_protection K ?i True n = Inr n'"
      using lift_protection_returns [OF assms(2)] by blast
    then show ?thesis unfolding d
      using i assms(5) wp lift_protection_view [OF assms(1) n'] lift_protection_change [OF n']
      by (simp add: accept_page_def Let_def local_change_def)
  next
    case new
    obtain n' where "dispatch K fd n pkt = Inr n'" "sent_packets n' = sent_packets n"
      "pt_status (page_table n' ! ?i) = PAGE_VALID"
      "view K (node_mem n') = (view K (node_mem n))(pt_base_addr page \<mapsto> (pkt_payload pkt, False))"
      using page_installed [OF assms new] .
    then show ?thesis using new by auto
  qed
qed

definition waiting_worker :: "(u64 \<Rightarrow> (page \<times> bool) option) node" where
  "waiting_worker = hub fresh_entry zero_page\<lparr>local_node_id := 2, coordinator_fd := 9,
     page_table := [\<lparr>pt_base_addr = 0x10000, pt_status = PAGE_PENDING\<rparr>], node_mem := Map.empty\<rparr>"

theorem page_arrives_witness:
  "\<exists>n'. dispatch map_kernel 9 waiting_worker (make_packet MSG_SEND_PAGE 0 1 (replicate 4096 5)) = Inr n' \<and>
     node_mem n' 0x10000 = Some (replicate 4096 5, False)"
  using page_arrives [OF map_kernel_ok, of "make_packet MSG_SEND_PAGE 0 1 (replicate 4096 5)" waiting_worker
      "page_table waiting_worker ! 0" 9]
  by (auto simp: waiting_worker_def hub_def make_packet_def num_pages_def)

text \<open>A copy that fails, with an error other than that the page is present, goes unnoticed: the page is
  marked valid although it is still not mapped.\<close>

lemma failed_copy_marks_valid:
  assumes "\<not> k_mapped K (node_mem n) (pt_base_addr page)" and "\<And>p. k_copy K (node_mem n) (pt_base_addr page) p = (CopyFailed, node_mem n)"
    and "i < num_pages n" and "page = page_table n ! i"
  shows "\<exists>n'. install_page K i bytes n = Inr n' \<and> pt_status (page_table n' ! i) = PAGE_VALID \<and>
    view K (node_mem n') (pt_base_addr page) = None"
  using assms by (auto simp: install_page_def copy_in_def Let_def set_status_def num_pages_def view_def)

text \<open>An invalidation is obeyed and answered: the page is unmapped, its status is
  \<open>PAGE_EMPTY\<close>, and one acknowledgement for the page goes to the coordinator, or back to the sender
  when this node has none.\<close>

lemma invalidation_obeyed:
  assumes "kernel_ok K" and "unat (pkt_page_index pkt) < num_pages n" and "pkt_type pkt = MSG_INVALIDATE"
    and "page = page_table n ! unat (pkt_page_index pkt)"
  shows "\<exists>n'. dispatch K fd n pkt = Inr n' \<and>
    view K (node_mem n') = (view K (node_mem n))(pt_base_addr page := None) \<and>
    page_table n' = (page_table n)[unat (pkt_page_index pkt) := page\<lparr>pt_status := PAGE_EMPTY\<rparr>] \<and>
    sent_packets n' = sent_packets n @ [(if coordinator_fd n \<noteq> - 1 then coordinator_fd n else fd,
      make_packet MSG_INVALIDATE_ACK (pkt_page_index pkt) (local_node_id n) zero_page)]"
  using assms
  by (auto simp: dispatch_def on_invalidate_eq Let_def invalidate_local_page_copy_def send_packet_def set_status_def num_pages_def)

lemma invalidation_obeyed_instance:
  "\<exists>n'. dispatch map_kernel 9 (hub shared_entry zero_page) (ask MSG_INVALIDATE 0) = Inr n' \<and>
     node_mem n' 0x10000 = None \<and> sent_packets n' = [(9, make_packet MSG_INVALIDATE_ACK 0 1 zero_page)]"
proof -
  have f: "unat (pkt_page_index (ask MSG_INVALIDATE 0)) < num_pages (hub shared_entry zero_page)"
    "page_table (hub shared_entry zero_page) ! 0 = \<lparr>pt_base_addr = 0x10000, pt_status = PAGE_VALID\<rparr>"
    "coordinator_fd (hub shared_entry zero_page) = - 1" "local_node_id (hub shared_entry zero_page) = 1"
    "sent_packets (hub shared_entry zero_page) = []"
    by (simp_all add: hub_def num_pages_def)
  show ?thesis
    using invalidation_obeyed [OF map_kernel_ok f(1), of _ 9] f(2-5) by auto
qed

text \<open>C13. The coordinator passes a page fetched for a reader on unchanged, to the socket the reader
  asked from, records the reader as a sharer besides the former holders, and forgets the request.\<close>

theorem fetched_page_relayed:
  assumes "node_inv n" and "gpd_pending_reqs n = Some ps" and "coordinator_fd n = - 1"
    and "pkt_type pkt = MSG_SEND_PAGE" and "i = unat (pkt_page_index pkt)" and "i < num_pages n"
    and "cp_requester_node_id (ps ! i) = req" and "req \<noteq> 0" and "req \<noteq> local_node_id n"
    and "cp_type (ps ! i) = MSG_REQUEST_PAGE_READ" and "entry_ok (node_gpd n ! i)"
  shows "\<exists>n' e. dispatch K fd n pkt = Inr n' \<and>
    sent_packets n' = sent_packets n @ [(cp_client_fd (ps ! i), pkt)] \<and>
    node_gpd n' = (node_gpd n)[i := e] \<and>
    abs_entry e = SharedBy (insert (unat req) (gpd_holders (node_gpd n) i)) \<and>
    gpd_pending_reqs n' = Some (ps[i := (ps ! i)\<lparr>cp_requester_node_id := 0\<rparr>]) \<and>
    node_mem n' = node_mem n"
proof -
  obtain e where "dispatch K fd n pkt = Inr (n\<lparr>node_gpd := (node_gpd n)[i := e],
      sent_packets := sent_packets n @ [(cp_client_fd (ps ! i), pkt)],
      gpd_pending_reqs := Some (ps[i := (ps ! i)\<lparr>cp_requester_node_id := 0\<rparr>])\<rparr>)"
    and "abs_entry e = SharedBy (insert (unat req) (gpd_holders (node_gpd n) i))"
    using relay_to_reader [OF assms, of K fd] by metis
  then show ?thesis by (intro exI [of _ e] exI conjI) (assumption | simp)+
qed

theorem fetched_page_relayed_witness:
  "\<exists>n' e. dispatch map_kernel 12
      (hub \<lparr>state = STATE_MODIFIED, owner_node_id = 2, shared_nodes_bitmap = 0\<rparr> zero_page
        \<lparr>gpd_pending_reqs := Some [idle_pending\<lparr>cp_requester_node_id := 3, cp_type := MSG_REQUEST_PAGE_READ, cp_client_fd := 13\<rparr>]\<rparr>)
      (make_packet MSG_SEND_PAGE 0 2 (replicate 4096 8)) = Inr n' \<and>
    sent_packets n' = [(13, make_packet MSG_SEND_PAGE 0 2 (replicate 4096 8))] \<and>
    node_gpd n' = [e] \<and> abs_entry e = SharedBy {3, 2}"
proof -
  let ?c = "idle_pending\<lparr>cp_requester_node_id := 3, cp_type := MSG_REQUEST_PAGE_READ, cp_client_fd := 13\<rparr>"
  let ?e = "\<lparr>state = STATE_MODIFIED, owner_node_id = 2, shared_nodes_bitmap = 0\<rparr> :: gpd_entry"
  let ?n = "hub ?e zero_page\<lparr>gpd_pending_reqs := Some [?c]\<rparr>"
  let ?p = "make_packet MSG_SEND_PAGE 0 2 (replicate 4096 8)"
  have "entry_ok ?e" by (simp add: entry_ok_def valid_node_def)
  from hub_ok [OF \<open>entry_ok ?e\<close>] have inv: "node_inv ?n" by (simp add: node_inv_def hub_def num_pages_def valid_node_def)
  have f: "gpd_pending_reqs ?n = Some [?c]" "coordinator_fd ?n = - 1" "pkt_type ?p = MSG_SEND_PAGE"
    "0 = unat (pkt_page_index ?p)" "0 < num_pages ?n" "cp_requester_node_id ([?c] ! 0) = 3" "(3 :: u32) \<noteq> 0"
    "3 \<noteq> local_node_id ?n" "cp_type ([?c] ! 0) = MSG_REQUEST_PAGE_READ" "entry_ok (node_gpd ?n ! 0)"
    using \<open>entry_ok ?e\<close> by (simp_all add: hub_def make_packet_def num_pages_def)
  show ?thesis
    using fetched_page_relayed [OF inv f, of map_kernel 12]
    by (auto simp: hub_def gpd_holders_def abs_entry_def)
qed

text \<open>C29. The code never checks the identifier a request carries: a request from a node identifier of
  64 or more for a page that is served here shifts by that amount, which C leaves undefined.\<close>

theorem unchecked_sender_id:
  assumes "node_inv n" and "i = unat (pkt_page_index pkt)" and "i < num_pages n"
    and "pkt_type pkt = MSG_REQUEST_PAGE_READ \<or> pkt_type pkt = MSG_REQUEST_PAGE_WRITE"
    and "64 \<le> unat (pkt_sender_node_id pkt)"
    and "if pt_status (page_table n ! i) = PAGE_VALID
      then k_mapped K (node_mem n) (pt_base_addr (page_table n ! i))
      else owner_node_id (node_gpd n ! i) = 0"
  shows "dispatch K fd n pkt = Inl BadShift"
proof -
  let ?req = "pkt_sender_node_id pkt"
  have len: "i < length (page_table n)" "i < length (node_gpd n)" and g: "gpd_safe (node_gpd n)"
    using assms(1,3) by (auto simp: node_inv_def num_pages_def)
  have learn: "learn_node_fd ?req fd n = n" using assms(5) by (simp add: learn_node_fd_def NODE_SLOTS_def)
  note ok = gpd_safeD [OF g len(2)]
  have sh: "to_shared i ?req n = Inl BadShift"
    using ok len assms(5) by (cases "state (node_gpd n ! i)")
      (auto simp: to_shared_def gpd_transition_to_shared_def Let_def entry_safe_def)
  have mo: "to_modified i ?req n = Inl BadShift"
    using ok len assms(5) by (cases "state (node_gpd n ! i)")
      (auto simp: to_modified_def gpd_transition_to_modified_def Let_def entry_safe_def)
  show ?thesis
    using assms(2-4,6) len learn sh mo
    by (auto simp: dispatch_def on_request_def Let_def gpd_get_owner_def serve_valid_copy_def
        serve_zero_page_def load_page_def owner_reachable_def split: if_splits)
qed

theorem unchecked_sender_id_witness:
  "dispatch map_kernel 12 (hub shared_entry zero_page) (ask MSG_REQUEST_PAGE_WRITE 200) = Inl BadShift"
proof -
  have "0 = unat (pkt_page_index (ask MSG_REQUEST_PAGE_WRITE 200))" "0 < num_pages (hub shared_entry zero_page)"
    "64 \<le> unat (pkt_sender_node_id (ask MSG_REQUEST_PAGE_WRITE 200))"
    by (simp_all add: hub_def num_pages_def)
  moreover have "k_mapped map_kernel (node_mem (hub shared_entry zero_page)) 0x10000"
    by (auto simp: hub_def map_kernel_def)
  moreover have "page_table (hub shared_entry zero_page) ! 0 = \<lparr>pt_base_addr = 0x10000, pt_status = PAGE_VALID\<rparr>"
    by (simp add: hub_def)
  ultimately show ?thesis
    using unchecked_sender_id [OF hub_ok [OF shared_entry_ok(1), of zero_page], of 0 "ask MSG_REQUEST_PAGE_WRITE 200"
        map_kernel 12] by simp
qed

end
