(* ===== verification/Net_Frame.thy ===== *)
theory Net_Frame
  imports Net_Handlers
begin

text \<open>
  What every handler keeps whatever the packet or the request says, on any node, well formed or not: the
  sizes of the tables, the identity of the node and its sockets; the log of sent packets only grows, and no
  page starts to wait.
\<close>

definition frame :: "'m node \<Rightarrow> 'm node \<Rightarrow> bool" where
  "frame n0 n \<longleftrightarrow>
     local_node_id n = local_node_id n0 \<and> coordinator_fd n = coordinator_fd n0 \<and> node_fds n = node_fds n0 \<and>
     length (page_table n) = length (page_table n0) \<and> length (node_gpd n) = length (node_gpd n0) \<and>
     map_option length (gpd_pending_reqs n) = map_option length (gpd_pending_reqs n0) \<and>
     prefix (sent_packets n0) (sent_packets n) \<and>
     (\<forall>i < length (page_table n0). pt_status (page_table n ! i) \<in>
        {pt_status (page_table n0 ! i), PAGE_VALID, PAGE_EMPTY})"

lemma frame_refl [simp]: "frame n n"
  by (simp add: frame_def)

lemma frame_trans: "frame n n1 \<Longrightarrow> frame n1 n2 \<Longrightarrow> frame n n2"
  unfolding frame_def by (auto dest: prefix_order.trans) (metis insert_iff singletonD)+

section \<open>The pieces\<close>

lemma frame_simps [simp]:
  "frame n0 n \<Longrightarrow> frame n0 (send_packet fd p n)" "frame n0 n \<Longrightarrow> frame n0 (send_invalidates i targets n)"
  "frame n0 n \<Longrightarrow> frame n0 (n\<lparr>node_mem := m\<rparr>)" "frame n0 n \<Longrightarrow> frame n0 (n\<lparr>eviction_ring := r\<rparr>)"
  by (auto simp: frame_def send_packet_def send_invalidates_def)

lemma frame_status [simp]:
  "frame n0 n \<Longrightarrow> st \<in> {PAGE_VALID, PAGE_EMPTY} \<Longrightarrow> frame n0 (set_status i st n)"
proof -
  have "pt_status ((page_table n)[i := (page_table n ! i)\<lparr>pt_status := st\<rparr>] ! k) \<in> {pt_status (page_table n ! k), st}"
    if "k < length (page_table n)" for k
    using that by (cases "k = i") auto
  then show "frame n0 n \<Longrightarrow> st \<in> {PAGE_VALID, PAGE_EMPTY} \<Longrightarrow> frame n0 (set_status i st n)"
    unfolding frame_def set_status_def by fastforce
qed

lemma frame_invalidate [simp]: "frame n0 n \<Longrightarrow> frame n0 (invalidate_local_page_copy K i n)"
  by (simp add: invalidate_local_page_copy_def)

lemma frame_protect [simp]: "frame n0 n \<Longrightarrow> frame n0 (writeprotect_local_page_copy K i n)"
  by (simp add: writeprotect_local_page_copy_def)

lemma frame_install: "install_page K i bytes n = Inr n' \<Longrightarrow> frame n0 n \<Longrightarrow> frame n0 n'"
  by (auto simp: install_page_def Let_def)

lemma frame_lift: "lift_protection K i mark n = Inr n' \<Longrightarrow> frame n0 n \<Longrightarrow> frame n0 n'"
  by (auto simp: lift_protection_def Let_def)

lemma frame_put: "put_pending i f n = Inr n' \<Longrightarrow> frame n0 n \<Longrightarrow> frame n0 n'"
  by (auto simp: put_pending_def frame_def split: option.splits)

lemma shared_length: "gpd_transition_to_shared g i r out = Inr (b, old, g') \<Longrightarrow> length g' = length g"
  by (auto simp: gpd_transition_to_shared_def Let_def split: if_splits)

lemma modified_length: "gpd_transition_to_modified g i r out = Inr (b, msk, g') \<Longrightarrow> length g' = length g"
  by (auto simp: gpd_transition_to_modified_def Let_def split: if_splits)

lemma frame_shared: "to_shared i r n = Inr (old, n') \<Longrightarrow> frame n0 n \<Longrightarrow> frame n0 n'"
  by (auto simp: to_shared_def frame_def dest: shared_length)

lemma frame_modified: "to_modified i r n = Inr (msk, n') \<Longrightarrow> frame n0 n \<Longrightarrow> frame n0 n'"
  by (auto simp: to_modified_def frame_def dest: modified_length)

lemma frame_drop: "drop_own_copy K idx r msk n = Inr (msk', n') \<Longrightarrow> frame n0 n \<Longrightarrow> frame n0 n'"
  by (auto simp: drop_own_copy_def split: if_splits)

lemmas frame_steps = frame_install frame_lift frame_put frame_shared frame_modified frame_drop

section \<open>The handlers\<close>

lemma frame_itg:
  assumes "invalidate_then_grant idx targets remember grant n = Inr n'" and "frame n0 n"
    and "grant n = Inr n' \<Longrightarrow> frame n0 n'"
  shows "frame n0 n'"
  using assms by (auto simp: invalidate_then_grant_def Let_def frame_put split: if_splits)

lemma frame_deliver: "deliver_fetched K r fd pkt n = Inr n' \<Longrightarrow> frame n0 n \<Longrightarrow> frame n0 n'"
  by (auto simp: deliver_fetched_def frame_install frame_put split: if_splits)

lemma frame_complete: "complete_fetch K pkt c n = Inr n' \<Longrightarrow> frame n0 n \<Longrightarrow> frame n0 n'"
  by (auto simp: complete_fetch_def Let_def frame_deliver frame_steps split: if_splits elim!: frame_itg)

lemma frame_accept: "accept_page K pkt n = Inr n' \<Longrightarrow> frame n0 n \<Longrightarrow> frame n0 n'"
  by (auto simp: accept_page_def Let_def frame_install frame_lift split: if_splits)

lemma frame_on_send_page: "on_send_page K fd pkt n = Inr n' \<Longrightarrow> frame n0 n \<Longrightarrow> frame n0 n'"
  by (auto simp: on_send_page_def Let_def frame_complete frame_accept split: if_splits)

lemma frame_on_invalidate: "on_invalidate K fd pkt n = Inr n' \<Longrightarrow> frame n0 n \<Longrightarrow> frame n0 n'"
  by (auto simp: on_invalidate_eq)

lemma frame_release: "release_grant K idx c n = Inr n' \<Longrightarrow> frame n0 n \<Longrightarrow> frame n0 n'"
  by (auto simp: release_grant_def frame_steps split: if_splits)

lemma frame_ack: "on_invalidate_ack K fd pkt n = Inr n' \<Longrightarrow> frame n0 n \<Longrightarrow> frame n0 n'"
  by (auto simp: on_invalidate_ack_def Let_def frame_put frame_release split: if_splits)

lemma frame_valid: "serve_valid_copy K fd idx r w n = Inr n' \<Longrightarrow> frame n0 n \<Longrightarrow> frame n0 n'"
  by (auto simp: serve_valid_copy_def Let_def frame_steps split: if_splits elim!: frame_itg)

lemma frame_zero: "serve_zero_page K fd idx r w n = Inr n' \<Longrightarrow> frame n0 n \<Longrightarrow> frame n0 n'"
  by (auto simp: serve_zero_page_def Let_def frame_steps split: if_splits elim!: frame_itg)

lemma frame_fetch: "fetch_from_owner idx own r ty fd n = Inr n' \<Longrightarrow> frame n0 n \<Longrightarrow> frame n0 n'"
  by (auto simp: fetch_from_owner_def frame_put split: if_splits)

lemma frame_on_request:
  assumes "on_request K fd pkt n = Inr n'"
  shows "n' = n \<or> frame (learn_node_fd (pkt_sender_node_id pkt) fd n) n'"
  using assms by (auto simp: on_request_def Let_def frame_valid frame_zero frame_fetch split: if_splits)

lemma frame_dispatch:
  assumes "dispatch K fd n pkt = Inr n'"
  shows "frame n n' \<or> frame (learn_node_fd (pkt_sender_node_id pkt) fd n) n'"
  using assms
  by (auto simp: dispatch_def on_node_join_def frame_on_send_page frame_on_invalidate frame_ack split: if_splits
      dest: frame_on_request)

section \<open>Requests of the own queue\<close>

lemma frame_upgrade: "upgrade_local_copy K idx n = Inr n' \<Longrightarrow> frame n0 n \<Longrightarrow> frame n0 n'"
  by (auto simp: upgrade_local_copy_def frame_steps elim!: frame_itg)

lemma frame_install_zero: "install_zero_page K idx w n = Inr n' \<Longrightarrow> frame n0 n \<Longrightarrow> frame n0 n'"
  by (auto simp: install_zero_page_def frame_steps split: if_splits)

lemma frame_local_request: "serve_local_request K r n = Inr n' \<Longrightarrow> frame n0 n \<Longrightarrow> frame n0 n'"
  by (auto simp: serve_local_request_def Let_def frame_upgrade frame_install_zero frame_fetch split: if_splits)

lemma frame_requests:
  "foldl (\<lambda>c r. andthen c (serve_local_request K r)) (Inr n) rs = Inr n' \<Longrightarrow> frame n0 n \<Longrightarrow> frame n0 n'"
proof (induction rs arbitrary: n)
  case (Cons r rs)
  show ?case
  proof (cases "serve_local_request K r n")
    case (Inl e)
    have "foldl (\<lambda>c r. andthen c (serve_local_request K r)) (Inl e) rs = Inl e" by (induction rs) auto
    then show ?thesis using Cons.prems(1) Inl by simp
  next
    case (Inr n1)
    then show ?thesis using Cons.IH [of n1] Cons.prems frame_local_request [OF Inr, of n0] by simp
  qed
qed simp

end
