(* ===== verification/Fault_Handler.thy ===== *)
theory Fault_Handler
  imports Dsm_Core Request_Queue
begin

text \<open>
  The fault thread of \<^verbatim>\<open>fault_handler.c\<close>: each event read from the userfaultfd becomes a status
  change of the local page table and a request in the shared queue. One message is handled under the
  lock of its page; \<open>region_start\<close> and \<open>page_size\<close> are the global variables, and the
  number of pages is the length of the table.
\<close>

section \<open>The handler\<close>

text \<open>
  What \<open>read\<close> on the userfaultfd gives: nothing, or a message; of the message the code looks at
  the event type (is it \<open>UFFD_EVENT_PAGEFAULT\<close>?), the address, and the write flag.
\<close>

record fault_msg =
  um_pagefault :: bool
  um_address :: u64
  um_write :: bool

datatype fault_read = NothingRead | MsgRead fault_msg

record fault_state =
  ft_table :: "page_tracker list"
  ft_queue :: request_queue

text \<open>The new status of a page, and none when the fault needs no request.\<close>

fun fault_status :: "page_status \<Rightarrow> bool \<Rightarrow> page_status option" where
  "fault_status PAGE_VALID is_write = (if \<not> is_write then None else Some PAGE_WRITE_PENDING)"
| "fault_status _ is_write = Some PAGE_PENDING"

text \<open>The page gets the status, and its request goes into the queue if there is room.\<close>

definition request_page :: "int \<Rightarrow> bool \<Rightarrow> page_status \<Rightarrow> fault_state \<Rightarrow> fault_state" where
  "request_page idx is_write st s =
     (let req = \<lparr>rq_page_index = of_int idx, rq_is_write = is_write\<rparr>;
          (r, q) = queue_push (ft_queue s) req;
          st' = (if r < 0 then PAGE_EMPTY else st)
      in s\<lparr>ft_table := (ft_table s)[nat idx := (ft_table s ! nat idx)\<lparr>pt_status := st'\<rparr>],
           ft_queue := q\<rparr>)"

text \<open>
  One iteration of the inner loop; the boolean says whether the loop over the batch of epoll events
  goes on (\<open>continue\<close> and the end of the body) or is left (\<open>break\<close>).
\<close>

definition handle_fault :: "u64 \<Rightarrow> u64 \<Rightarrow> fault_read \<Rightarrow> fault_state \<Rightarrow> (bool \<times> fault_state) comp" where
  "handle_fault region_start page_size rd s =
     (case rd of
        NothingRead \<Rightarrow> Inr (False, s)
      | MsgRead msg \<Rightarrow>
          if \<not> um_pagefault msg then Inr (False, s)
          else
            let page_base = um_address msg AND NOT (4096 - 1) in
            andthen (get_page_index region_start page_size (of_nat (length (ft_table s))) page_base) (\<lambda>idx.
            if idx = - 1 then Inr (False, s)
            else if idx < 0 then Inl BadIndex
            else andthen (get_at (ft_table s) (nat idx)) (\<lambda>page.
              case fault_status (pt_status page) (um_write msg) of
                None \<Rightarrow> Inr (True, s)
              | Some st \<Rightarrow> Inr (True, request_page idx (um_write msg) st s))))"

text \<open>One return of \<open>epoll_wait\<close>, with the results of the reads.\<close>

fun fault_batch :: "u64 \<Rightarrow> u64 \<Rightarrow> fault_read list \<Rightarrow> fault_state \<Rightarrow> fault_state comp" where
  "fault_batch region_start page_size [] s = Inr s"
| "fault_batch region_start page_size (rd # rds) s =
     andthen (handle_fault region_start page_size rd s) (\<lambda>(go_on, s').
       if go_on then fault_batch region_start page_size rds s' else Inr s')"

text \<open>The thread: a sequence of such returns.\<close>

fun fault_handler :: "u64 \<Rightarrow> u64 \<Rightarrow> fault_read list list \<Rightarrow> fault_state \<Rightarrow> fault_state comp" where
  "fault_handler region_start page_size [] s = Inr s"
| "fault_handler region_start page_size (b # bs) s =
     andthen (fault_batch region_start page_size b s) (fault_handler region_start page_size bs)"

section \<open>One fault\<close>

text \<open>A region as \<open>main\<close> lays it out: aligned, without wrap-around, few enough pages.\<close>

definition region_ok :: "u64 \<Rightarrow> nat \<Rightarrow> bool" where
  "region_ok region n \<longleftrightarrow> 4096 dvd unat region \<and> unat region + n * 4096 \<le> 2 ^ 64 \<and> n \<le> 2 ^ 31"

lemma fault_page_index:
  assumes "region_ok region n" and "i < n" and "off < 4096"
  shows "get_page_index region 4096 (of_nat n)
    ((region + of_nat (i * 4096 + off)) AND NOT (4096 - 1)) = Inr (int i)"
  using page_index_of_address [of 12 region n i off] assms
  by (simp add: region_ok_def get_page_base_def)

lemma handle_fault_page:
  assumes "region_ok region (length (ft_table s))" and "i < length (ft_table s)" and "off < 4096"
  shows "handle_fault region 4096
      (MsgRead \<lparr>um_pagefault = True, um_address = region + of_nat (i * 4096 + off), um_write = w\<rparr>) s =
    (case fault_status (pt_status (ft_table s ! i)) w of
       None \<Rightarrow> Inr (True, s)
     | Some st \<Rightarrow> Inr (True, request_page (int i) w st s))"
  unfolding handle_fault_def fault_read.case fault_msg.simps fault_page_index [OF assms] Let_def
  using assms(2) by (simp split: option.splits)

section \<open>What a fault changes\<close>

definition awaits :: "page_status \<Rightarrow> bool" where
  "awaits st \<longleftrightarrow> st = PAGE_PENDING \<or> st = PAGE_WRITE_PENDING"

lemma queue_push_cases:
  assumes "queue_inv q"
  obtains (full) "queue_push q x = (- 1, q)" "length (queue_contents q) = QUEUE_CAPACITY"
    | (room) q' where "queue_push q x = (0, q')" "queue_inv q'" "queue_contents q' = queue_contents q @ [x]"
      "length (queue_contents q) \<noteq> QUEUE_CAPACITY"
  using rq.push_full [OF assms] rq.push_room [OF assms] by (metis prod.collapse)

lemma handle_fault_cases:
  assumes "handle_fault region page_size rd s = Inr (b, s')"
  shows "s' = s \<or> (\<exists>idx w st. 0 \<le> idx \<and> nat idx < length (ft_table s) \<and> s' = request_page idx w st s)"
proof (cases rd)
  case (MsgRead msg)
  show ?thesis
  proof (cases "get_page_index region page_size (of_nat (length (ft_table s)))
      (um_address msg AND NOT (4096 - 1))")
    case (Inr idx)
    show ?thesis
    proof (cases "um_pagefault msg \<and> \<not> idx < 0 \<and> nat idx < length (ft_table s)")
      case True
      then show ?thesis
        using assms MsgRead Inr
        by (cases "fault_status (pt_status (ft_table s ! nat idx)) (um_write msg)")
          (auto simp: handle_fault_def Let_def not_less)
    qed (use assms MsgRead Inr in \<open>auto simp: handle_fault_def Let_def get_at_def split: if_splits\<close>)
  qed (use assms MsgRead in \<open>auto simp: handle_fault_def Let_def split: if_splits\<close>)
qed (use assms in \<open>simp add: handle_fault_def\<close>)

lemma handle_fault_frame:
  assumes "handle_fault region page_size rd s = Inr (b, s')" and "queue_inv (ft_queue s)"
  shows "length (ft_table s') = length (ft_table s) \<and> queue_inv (ft_queue s')"
proof -
  have "queue_inv (snd (queue_push (ft_queue s) x))" for x
    using rq.push_inv [OF assms(2)] .
  then show ?thesis
    using handle_fault_cases [OF assms(1)] assms(2)
    by (auto simp: request_page_def Let_def case_prod_beta)
qed

text \<open>A page that starts to wait has its request in the queue; the queue loses nothing.\<close>

lemma handle_fault_awaits:
  assumes "handle_fault region page_size rd s = Inr (b, s')" and "queue_inv (ft_queue s)"
    and "length (ft_table s) \<le> 2 ^ 31"
  shows "set (queue_contents (ft_queue s)) \<subseteq> set (queue_contents (ft_queue s'))"
    and "awaits (pt_status (ft_table s' ! i)) \<Longrightarrow> i < length (ft_table s) \<Longrightarrow> awaits (pt_status (ft_table s ! i)) \<or>
      (\<exists>r \<in> set (queue_contents (ft_queue s')). unat (rq_page_index r) = i)"
proof -
  have "set (queue_contents (ft_queue s)) \<subseteq> set (queue_contents (ft_queue s')) \<and>
    (awaits (pt_status (ft_table s' ! i)) \<longrightarrow> i < length (ft_table s) \<longrightarrow> awaits (pt_status (ft_table s ! i)) \<or>
      (\<exists>r \<in> set (queue_contents (ft_queue s')). unat (rq_page_index r) = i))"
  proof (cases "s' = s")
    case False
    then obtain idx w st where idx: "0 \<le> idx" "nat idx < length (ft_table s)"
      and s': "s' = request_page idx w st s" using handle_fault_cases [OF assms(1)] by blast
    obtain k where k: "idx = int k" using idx(1) by (rule nonneg_int_cases)
    then have "k < 2 ^ LENGTH(64)" using idx(2) assms(3) by simp
    then have u: "unat (of_int idx :: u64) = k" using k by (simp add: of_nat_inverse)
    show ?thesis
      by (rule queue_push_cases [OF assms(2), of "\<lparr>rq_page_index = of_int idx, rq_is_write = w\<rparr>"])
        (use s' u k idx in \<open>auto simp: request_page_def Let_def nth_list_update awaits_def split: if_splits\<close>)
  qed simp
  then show "set (queue_contents (ft_queue s)) \<subseteq> set (queue_contents (ft_queue s'))"
    and "awaits (pt_status (ft_table s' ! i)) \<Longrightarrow> i < length (ft_table s) \<Longrightarrow> awaits (pt_status (ft_table s ! i)) \<or>
      (\<exists>r \<in> set (queue_contents (ft_queue s')). unat (rq_page_index r) = i)" by blast+
qed

text \<open>A fault on a page that is not here, while the queue has room.\<close>

lemma fault_queued:
  assumes "region_ok region (length (ft_table s))" and "i < length (ft_table s)" and "off < 4096"
    and "queue_inv (ft_queue s)" and "q_size (ft_queue s) \<noteq> QUEUE_CAPACITY"
    and "pt_status (ft_table s ! i) \<noteq> PAGE_VALID"
  obtains q where "handle_fault region 4096
      (MsgRead \<lparr>um_pagefault = True, um_address = region + of_nat (i * 4096 + off), um_write = w\<rparr>) s =
        Inr (True, \<lparr>ft_table = (ft_table s)[i := (ft_table s ! i)\<lparr>pt_status := PAGE_PENDING\<rparr>], ft_queue = q\<rparr>)"
    and "queue_inv q"
    and "queue_contents q = queue_contents (ft_queue s) @ [\<lparr>rq_page_index = of_nat i, rq_is_write = w\<rparr>]"
proof -
  let ?r = "\<lparr>rq_page_index = of_nat i, rq_is_write = w\<rparr> :: page_request"
  have st: "fault_status (pt_status (ft_table s ! i)) w = Some PAGE_PENDING"
    using assms(6) by (cases "pt_status (ft_table s ! i)") auto
  have "length (queue_contents (ft_queue s)) \<noteq> QUEUE_CAPACITY" using assms(5) by (simp add: queue_contents_def)
  then obtain q where q: "queue_push (ft_queue s) ?r = (0, q)" "queue_inv q"
    "queue_contents q = queue_contents (ft_queue s) @ [?r]"
    using rq.push_room [OF assms(4), of ?r] by (cases "queue_push (ft_queue s) ?r") auto
  have "request_page (int i) w PAGE_PENDING s =
      \<lparr>ft_table = (ft_table s)[i := (ft_table s ! i)\<lparr>pt_status := PAGE_PENDING\<rparr>], ft_queue = q\<rparr>"
    using q(1) by (cases s) (simp add: request_page_def)
  then show thesis
    using that [of q] handle_fault_page [OF assms(1-3), of w] st q by simp
qed

section \<open>Properties\<close>

text \<open>C16. A fault on any byte of page \<open>i\<close>: a read of a valid page is ignored; otherwise the request
  \<open>(i, is_write)\<close> goes to the end of the queue and the page waits for it (\<open>PAGE_WRITE_PENDING\<close>
  for a write to a valid page); when the queue is full nothing is queued for this fault and the page
  becomes \<open>PAGE_EMPTY\<close>.\<close>

theorem fault_becomes_request:
  assumes "region_ok region (length (ft_table s))" and "i < length (ft_table s)" and "off < 4096"
    and "queue_inv (ft_queue s)" and "page = ft_table s ! i"
  shows "\<exists>s'. handle_fault region 4096
      (MsgRead \<lparr>um_pagefault = True, um_address = region + of_nat (i * 4096 + off), um_write = w\<rparr>) s =
        Inr (True, s') \<and>
    (if pt_status page = PAGE_VALID \<and> \<not> w then s' = s
     else if q_size (ft_queue s) = QUEUE_CAPACITY then
       ft_queue s' = ft_queue s \<and> ft_table s' = (ft_table s)[i := page\<lparr>pt_status := PAGE_EMPTY\<rparr>]
     else
       queue_contents (ft_queue s') = queue_contents (ft_queue s) @ [\<lparr>rq_page_index = of_nat i, rq_is_write = w\<rparr>] \<and>
       notify_log (ft_queue s') = notify_log (ft_queue s) @ [1] \<and>
       ft_table s' = (ft_table s)[i := page\<lparr>pt_status :=
         if pt_status page = PAGE_VALID then PAGE_WRITE_PENDING else PAGE_PENDING\<rparr>])"
proof -
  let ?r = "\<lparr>rq_page_index = of_nat i, rq_is_write = w\<rparr> :: page_request"
  note step = handle_fault_page [OF assms(1-3), of w]
  have st: "fault_status (pt_status page) w = (if pt_status page = PAGE_VALID \<and> \<not> w then None
      else Some (if pt_status page = PAGE_VALID then PAGE_WRITE_PENDING else PAGE_PENDING))"
    by (cases "pt_status page") auto
  show ?thesis
  proof (cases rule: queue_push_cases [OF assms(4), of ?r, case_names full room])
    case full
    then show ?thesis unfolding step using assms(5) st by (simp add: request_page_def)
  next
    case (room q')
    moreover have "notify_log q' = notify_log (ft_queue s) @ [1]"
      using queue_push_notify [of "ft_queue s" ?r] room(1) by simp
    ultimately show ?thesis unfolding step using assms(5) st by (simp add: request_page_def)
  qed
qed

definition quiet_state :: fault_state where
  "quiet_state = \<lparr>ft_table = init_page_table 0x10000 4096 4, ft_queue = blank_queue\<rparr>"

lemma blank_queue_inv [simp]: "queue_inv blank_queue" "queue_contents blank_queue = []"
  "q_size blank_queue = 0"
  by (simp_all add: blank_queue_def queue_inv_def queue_contents_def QUEUE_CAPACITY_def)

theorem fault_becomes_request_witness:
  "\<exists>s'. handle_fault 0x10000 4096
      (MsgRead \<lparr>um_pagefault = True, um_address = 0x12005, um_write = True\<rparr>) quiet_state = Inr (True, s') \<and>
     queue_contents (ft_queue s') = [\<lparr>rq_page_index = 2, rq_is_write = True\<rparr>] \<and>
     pt_status (ft_table s' ! 2) = PAGE_PENDING"
proof -
  have "region_ok 0x10000 (length (ft_table quiet_state))" "2 < length (ft_table quiet_state)"
    "queue_inv (ft_queue quiet_state)" "pt_status (ft_table quiet_state ! 2) = PAGE_EMPTY"
    by (simp_all add: quiet_state_def region_ok_def)
  then show ?thesis
    using fault_becomes_request [of "0x10000" quiet_state 2 5 _ True]
    by (auto simp: quiet_state_def QUEUE_CAPACITY_def)
qed

end
