(* ===== verification/Net_Engine.thy ===== *)
theory Net_Engine
  imports Net_Effects Net_Frame Fault_Handler
begin

text \<open>
  The thread of \<^verbatim>\<open>network_engine.c\<close>: the connection to the coordinator, the set-up, and the loop
  over epoll events (new connections, the request queue, peers that became writable or readable).
  What the socket calls return is an argument of each event; the sessions are the ones the epoll
  set points to, found by their descriptor.
\<close>

section \<open>State\<close>

text \<open>
  \<open>e_connecting\<close>: the descriptors still watched for \<open>EPOLLOUT\<close>; \<open>e_closed\<close>: the descriptors
  closed so far, latest last.
\<close>

record 'm engine =
  e_node :: "'m node"
  e_queue :: request_queue
  e_sessions :: "int \<Rightarrow> peer_session option"
  e_connecting :: "int list"
  e_closed :: "int list"

section \<open>Connecting and setting up\<close>

text \<open>
  One address of the coordinator: no socket, a socket whose \<open>connect\<close> fails, or a socket that is
  connected or connecting (\<open>EINPROGRESS\<close>).
\<close>

datatype connect_try = NoSocket | ConnectRefused int | ConnectStarted int

fun first_connection :: "connect_try list \<Rightarrow> int list \<Rightarrow> int \<times> int list" where
  "first_connection [] closed = (- 1, closed)"
| "first_connection (NoSocket # ts) closed = first_connection ts closed"
| "first_connection (ConnectRefused fd # ts) closed = first_connection ts (closed @ [fd])"
| "first_connection (ConnectStarted fd # ts) closed = (fd, closed)"

definition connect_to_remote_node ::
  "connect_try list option \<Rightarrow> bool \<Rightarrow> bool \<Rightarrow> 'm engine \<Rightarrow> int \<times> 'm engine" where
  "connect_to_remote_node addresses malloc_ok epoll_ok s =
     (case addresses of
        None \<Rightarrow> (- 1, s)
      | Some ts \<Rightarrow>
          let (client_fd, closed) = first_connection ts (e_closed s) in
          if client_fd = - 1 then (- 1, s\<lparr>e_closed := closed\<rparr>)
          else if \<not> malloc_ok \<or> \<not> epoll_ok then (- 1, s\<lparr>e_closed := closed @ [client_fd]\<rparr>)
          else
            let n = (e_node s)\<lparr>coordinator_fd := client_fd\<rparr>;
                join_pkt = make_packet MSG_NODE_JOIN 0 (local_node_id n) zero_page
            in (client_fd, s\<lparr>e_sessions := (e_sessions s)(client_fd \<mapsto> fresh_session client_fd),
                             e_connecting := client_fd # e_connecting s, e_closed := closed,
                             e_node := send_packet client_fd join_pkt n\<rparr>))"

text \<open>The state the thread prepares before its loop; \<open>calloc_ok\<close>: the pending table was allocated.\<close>

definition prepare_node :: "bool \<Rightarrow> 'm node \<Rightarrow> 'm node" where
  "prepare_node calloc_ok n =
     (let n1 = (if gpd_pending_reqs n = None \<and> num_pages n > 0
                then n\<lparr>gpd_pending_reqs := (if calloc_ok then Some (replicate (num_pages n) idle_pending)
                                             else None)\<rparr>
                else n)
      in n1\<lparr>node_fds := replicate NODE_SLOTS (- 1)\<rparr>)"

text \<open>The listening socket: the first address that can be bound, if any.\<close>

datatype bind_try = NoBindSocket | BindFailed int | BindOk int

fun bind_listener :: "bind_try list \<Rightarrow> int option" where
  "bind_listener [] = None"
| "bind_listener (NoBindSocket # ts) = bind_listener ts"
| "bind_listener (BindFailed fd # ts) = bind_listener ts"
| "bind_listener (BindOk fd # ts) = Some fd"

section \<open>Events\<close>

text \<open>\<open>accept\<close>: a connection, with the result of allocating its session, or none.\<close>

datatype accept_result = Accepted int bool | NoneWaiting

fun accept_loop :: "accept_result list \<Rightarrow> 'm engine \<Rightarrow> 'm engine comp" where
  "accept_loop [] s = Inl Suspended"
| "accept_loop (NoneWaiting # rs) s = Inr s"
| "accept_loop (Accepted fd malloc_ok # rs) s =
     (if \<not> malloc_ok then accept_loop rs (s\<lparr>e_closed := e_closed s @ [fd]\<rparr>)
      else accept_loop rs (s\<lparr>e_sessions := (e_sessions s)(fd \<mapsto> fresh_session fd)\<rparr>))"

definition close_peer :: "int \<Rightarrow> 'm engine \<Rightarrow> 'm engine" where
  "close_peer fd s =
     s\<lparr>e_node := forget_fd fd (e_node s), e_closed := e_closed s @ [fd],
       e_sessions := (e_sessions s)(fd := None)\<rparr>"

definition queue_ready :: "'m kernel \<Rightarrow> bool \<Rightarrow> 'm engine \<Rightarrow> 'm engine comp" where
  "queue_ready K read_ok s =
     (if read_ok then
        andthen (drain_queue K (e_queue s) (e_node s)) (\<lambda>(q, n). Inr (s\<lparr>e_queue := q, e_node := n\<rparr>))
      else Inr s)"

definition peer_writable :: "int \<Rightarrow> bool \<Rightarrow> 'm engine \<Rightarrow> 'm engine" where
  "peer_writable fd sock_ok s =
     (if \<not> sock_ok then close_peer fd s
      else s\<lparr>e_connecting := removeAll fd (e_connecting s)\<rparr>)"

definition peer_readable :: "'m kernel \<Rightarrow> int \<Rightarrow> recv_result list \<Rightarrow> 'm engine \<Rightarrow> 'm engine comp" where
  "peer_readable K fd answers s =
     (case e_sessions s fd of
        None \<Rightarrow> Inl NullDeref
      | Some ses \<Rightarrow>
          andthen (recv_loop (dispatch K fd) answers ses (e_node s)) (\<lambda>r.
            case r of
              None \<Rightarrow> Inl Suspended
            | Some (connection_closed, ses', n) \<Rightarrow>
                let s1 = s\<lparr>e_node := n, e_sessions := (e_sessions s)(fd \<mapsto> ses')\<rparr>
                in Inr (if connection_closed then close_peer fd s1 else s1)))"

datatype engine_event =
    ListenerReady "accept_result list"
  | QueueReady bool
  | PeerWritable int bool
  | PeerReadable int "recv_result list"

fun handle_event :: "'m kernel \<Rightarrow> engine_event \<Rightarrow> 'm engine \<Rightarrow> 'm engine comp" where
  "handle_event K (ListenerReady rs) s = accept_loop rs s"
| "handle_event K (QueueReady ok) s = queue_ready K ok s"
| "handle_event K (PeerWritable fd ok) s = Inr (peer_writable fd ok s)"
| "handle_event K (PeerReadable fd answers) s = peer_readable K fd answers s"

text \<open>
  What the kernel promises of an event: it names a session of the epoll set, \<open>recv\<close> never returns more
  bytes than asked for, and its answers end with one that ends the loop.
\<close>

fun event_ok :: "engine_event \<Rightarrow> 'm engine \<Rightarrow> bool" where
  "event_ok (ListenerReady rs) s = True"
| "event_ok (QueueReady ok) s = True"
| "event_ok (PeerWritable fd ok) s = True"
| "event_ok (PeerReadable fd answers) s =
     (\<exists>ses cs stop closed. e_sessions s fd = Some ses \<and> answers = map Chunk cs @ [stop] \<and>
        ends_loop stop closed \<and> chunks_fit (bytes_read ses) cs)"

text \<open>
  What the peers promise: each complete packet of the event is acceptable. \<open>sender_ok\<close> is the promise of a
  well-behaved peer, that its requests carry a node identifier which \<open>main\<close> accepts; the code does not
  check it.
\<close>

fun packets_ok :: "(dsm_packet \<Rightarrow> bool) \<Rightarrow> engine_event \<Rightarrow> 'm engine \<Rightarrow> bool" where
  "packets_ok ok (PeerReadable fd answers) s =
     (\<forall>ses cs stop. e_sessions s fd = Some ses \<longrightarrow> answers = map Chunk cs @ [stop] \<longrightarrow>
        (\<forall>f \<in> set (fst (frames PACKET_SIZE (received ses @ concat cs))). ok (decode_packet f)))"
| "packets_ok ok _ s = True"

text \<open>
  The process as a step relation: an event of the engine, one request out of the queue (the drain is a run
  of these, and \<open>QueueReady\<close> one that nothing interrupts), one message of the fault handler, or one call of
  the eviction thread (with its own clock hand and socket), in any order; \<open>ok\<close>: what the peers promise of
  their packets. A session's answers may be cut into several events, so other threads can run between two
  packets. The model does not let them run within a packet or a request, where the code releases the lock of
  the page for short stretches, and it lets every \<open>send\<close> return.
\<close>

inductive engine_step :: "(dsm_packet \<Rightarrow> bool) \<Rightarrow> 'm kernel \<Rightarrow> u64 \<Rightarrow> 'm engine \<Rightarrow> 'm engine \<Rightarrow> bool"
  for ok K region where
  event: "event_ok ev s \<Longrightarrow> packets_ok ok ev s \<Longrightarrow> handle_event K ev s = Inr s' \<Longrightarrow>
    engine_step ok K region s s'"
| request: "queue_pop (e_queue s) = (Some r, q) \<Longrightarrow> serve_local_request K r (e_node s) = Inr n \<Longrightarrow>
    engine_step ok K region s (s\<lparr>e_queue := q, e_node := n\<rparr>)"
| fault: "handle_fault region 4096 rd \<lparr>ft_table = page_table (e_node s), ft_queue = e_queue s\<rparr> = Inr (b, f) \<Longrightarrow>
    engine_step ok K region s (s\<lparr>e_queue := ft_queue f, e_node := (e_node s)\<lparr>page_table := ft_table f\<rparr>\<rparr>)"
| evict: "dsm_execute_eviction K sends recvs (local_node_id (e_node s)) busy
      \<lparr>ev_ring = eviction_ring (e_node s), clock_hand = hand, ev_gpd = node_gpd (e_node s),
       ev_mem = node_mem (e_node s), ev_wire = wire\<rparr> = Inr (r, w) \<Longrightarrow>
    engine_step ok K region s (s\<lparr>e_node := (e_node s)\<lparr>eviction_ring := ev_ring w, node_gpd := ev_gpd w,
      node_mem := ev_mem w\<rparr>\<rparr>)"

section \<open>Open sockets\<close>

text \<open>
  The descriptors the engine may send on belong to sessions it has not closed.
\<close>

definition sockets_open :: "(int \<Rightarrow> peer_session option) \<Rightarrow> 'm node \<Rightarrow> bool" where
  "sockets_open ss n \<longleftrightarrow>
     (\<forall>fd \<in> set (node_fds n). fd \<noteq> - 1 \<longrightarrow> ss fd \<noteq> None) \<and>
     (coordinator_fd n \<noteq> - 1 \<longrightarrow> ss (coordinator_fd n) \<noteq> None)"

definition engine_inv :: "'m engine \<Rightarrow> bool" where
  "engine_inv s \<longleftrightarrow> node_inv (e_node s) \<and> gpd_pending_reqs (e_node s) \<noteq> None \<and> queue_inv (e_queue s) \<and>
     (\<forall>fd ses. e_sessions s fd = Some ses \<longrightarrow> session_inv ses \<and> ps_fd ses = fd) \<and>
     sockets_open (e_sessions s) (e_node s)"

text \<open>The part of it that does not depend on what the peers say.\<close>

definition node_shape :: "'m node \<Rightarrow> bool" where
  "node_shape n \<longleftrightarrow> length (node_fds n) = NODE_SLOTS \<and> length (node_gpd n) = num_pages n \<and>
     map_option length (gpd_pending_reqs n) = Some (num_pages n)"

definition engine_shape :: "'m engine \<Rightarrow> bool" where
  "engine_shape s \<longleftrightarrow> node_shape (e_node s) \<and> queue_inv (e_queue s) \<and>
     (\<forall>fd ses. e_sessions s fd = Some ses \<longrightarrow> session_inv ses \<and> ps_fd ses = fd) \<and>
     sockets_open (e_sessions s) (e_node s)"

lemma engine_inv_shape: "engine_inv s \<longleftrightarrow> engine_shape s \<and> node_inv (e_node s)"
  by (cases "gpd_pending_reqs (e_node s)") (auto simp: engine_inv_def engine_shape_def node_shape_def node_inv_def)

lemma sockets_open_steady:
  "steady n n' \<Longrightarrow> sockets_open ss n' \<longleftrightarrow> sockets_open ss n"
  by (simp add: steady_def sockets_open_def)

lemma sockets_open_learn:
  "sockets_open ss n \<Longrightarrow> ss fd \<noteq> None \<Longrightarrow> sockets_open ss (learn_node_fd sender fd n)"
  using set_update_subset_insert [of "node_fds n" "unat sender" fd]
  by (auto simp: sockets_open_def learn_node_fd_def)

lemma sockets_open_more:
  "sockets_open ss n \<Longrightarrow> sockets_open (ss(fd \<mapsto> ses)) n"
  by (simp add: sockets_open_def)

lemma sockets_open_close:
  assumes "sockets_open ss n"
  shows "sockets_open (ss(fd := None)) (forget_fd fd n)"
  using assms by (auto simp: sockets_open_def forget_fd_def)

interpretation paged: packet_service "dispatch K fd"
  "\<lambda>n. (node_inv n \<and> gpd_pending_reqs n \<noteq> None) \<and> num_pages n = N" sender_ok "self_fault K"
proof unfold_locales
  fix n p n'
  assume "(node_inv n \<and> gpd_pending_reqs n \<noteq> None) \<and> num_pages n = N" "sender_ok p" "dispatch K fd n p = Inr n'"
  then show "(node_inv n' \<and> gpd_pending_reqs n' \<noteq> None) \<and> num_pages n' = N"
    using engine.serve_inv [of n p K fd n'] keptD(2) [OF dispatch_kept [of K fd n p n']] by simp
next
  fix n p
  assume "(node_inv n \<and> gpd_pending_reqs n \<noteq> None) \<and> num_pages n = N" "sender_ok p" "\<not> self_fault K n p"
  then show "\<exists>n'. dispatch K fd n p = Inr n'" using engine.serve_returns [of n p K fd] by simp
qed

section \<open>One packet, in pieces\<close>

lemma peer_reads_packet:
  assumes "e_sessions s fd = Some ses" and "session_inv ses" and "bytes_read ses = 0"
    and "packet_ok pkt" and "concat cs = encode_packet pkt" and "chunks_fit 0 cs"
    and "dispatch K fd (e_node s) pkt = Inr n'"
  obtains ses' where "peer_readable K fd (map Chunk cs @ [RecvAgain]) s =
      Inr (s\<lparr>e_node := n', e_sessions := (e_sessions s)(fd \<mapsto> ses')\<rparr>)"
    and "session_inv ses'" and "bytes_read ses' = 0"
proof -
  have "received ses = []" using length_received [OF assms(2)] assms(3) by simp
  then have fr: "frames PACKET_SIZE (received ses @ concat cs) = ([encode_packet pkt], [])"
    using packets.frames_of_packets [of "[pkt]" "[]"] assms(4,5) by (simp add: PACKET_SIZE_def)
  have "chunks_fit (bytes_read ses) cs" using assms(3,6) by simp
  from recv_loop_frames [of RecvAgain False, OF _ assms(2) this fr, of "dispatch K fd" "e_node s"]
  obtain ses' where r: "recv_loop (dispatch K fd) (map Chunk cs @ [RecvAgain]) ses (e_node s) =
      Inr (Some (False, ses', n'))" "session_inv ses'" "received ses' = []"
    using assms(7) by (auto simp: decode_encode_packet)
  then have "bytes_read ses' = 0" using length_received [OF r(2)] r(3) by simp
  with r show thesis using that assms(1) by (simp add: peer_readable_def)
qed

section \<open>Every event keeps the shape\<close>

lemma shape_frame: "frame n n' \<Longrightarrow> node_shape n \<Longrightarrow> node_shape n'"
  by (auto simp: frame_def node_shape_def num_pages_def)

lemma shape_learn: "node_shape n \<Longrightarrow> node_shape (learn_node_fd sender fd n)"
  by (simp add: node_shape_def learn_node_fd_def)

lemma shape_forget: "node_shape n \<Longrightarrow> node_shape (forget_fd fd n)"
  by (simp add: node_shape_def forget_fd_def)

lemma sockets_open_frame: "frame n n' \<Longrightarrow> sockets_open ss n' \<longleftrightarrow> sockets_open ss n"
  by (simp add: frame_def sockets_open_def)

interpretation peer: packet_service "dispatch K fd"
  "\<lambda>n. node_shape n \<and> sockets_open ss n \<and> ss fd \<noteq> None" "\<lambda>_. True" "\<lambda>n p. \<forall>n'. dispatch K fd n p \<noteq> Inr n'"
proof unfold_locales
  fix n p n'
  assume inv: "node_shape n \<and> sockets_open ss n \<and> ss fd \<noteq> None" and "dispatch K fd n p = Inr n'"
  then show "node_shape n' \<and> sockets_open ss n' \<and> ss fd \<noteq> None"
    using frame_dispatch [of K fd n p n'] shape_frame shape_learn sockets_open_frame sockets_open_learn by metis
qed blast

lemma accept_loop_shape:
  "engine_shape s \<Longrightarrow> accept_loop rs s = Inr s' \<Longrightarrow> engine_shape s' \<and> e_node s' = e_node s"
proof (induction rs s rule: accept_loop.induct)
  case (3 fd malloc_ok rs s)
  have ses: "session_inv (fresh_session fd)" "ps_fd (fresh_session fd) = fd"
    by simp (simp add: fresh_session_def)
  show ?case
  proof (cases malloc_ok)
    case True
    have "sockets_open ((e_sessions s)(fd \<mapsto> fresh_session fd)) (e_node s)"
      using "3.prems"(1) by (simp add: engine_shape_def sockets_open_more)
    then have "engine_shape (s\<lparr>e_sessions := (e_sessions s)(fd \<mapsto> fresh_session fd)\<rparr>)"
      using "3.prems"(1) ses by (simp add: engine_shape_def)
    then show ?thesis using 3 True by simp
  next
    case False
    have "engine_shape (s\<lparr>e_closed := e_closed s @ [fd]\<rparr>)"
      using "3.prems"(1) by (simp add: engine_shape_def)
    then show ?thesis using 3 False by simp
  qed
qed simp_all

lemma close_peer_shape:
  assumes "engine_shape s"
  shows "engine_shape (close_peer fd s)"
proof -
  have "sockets_open ((e_sessions s)(fd := None)) (forget_fd fd (e_node s))"
    using assms unfolding engine_shape_def by (intro sockets_open_close) blast
  then show ?thesis
    using assms by (simp add: engine_shape_def close_peer_def shape_forget)
qed

lemma foldl_serve_steady:
  "foldl (\<lambda>c r. andthen c (serve_local_request K r)) (Inr n) rs = Inr n' \<Longrightarrow> node_inv n \<Longrightarrow> steady n n'"
proof (induction rs arbitrary: n)
  case (Cons r rs)
  show ?case
  proof (cases "serve_local_request K r n")
    case (Inr n1)
    then have s1: "steady n n1" using serve_local_request_steady Cons.prems(2) by blast
    have "steady n1 n'"
      using Cons.IH [of n1] Cons.prems Inr keptD(1) [OF steady_kept [OF s1]] by simp
    with s1 show ?thesis by (rule steady_trans)
  qed (use Cons.prems in \<open>simp add: foldl_stuck\<close>)
qed (simp add: steady_refl)

lemma queue_ready_run:
  assumes "queue_ready K True s = Inr s'" and "queue_inv (e_queue s)"
  obtains q n where "s' = s\<lparr>e_queue := q, e_node := n\<rparr>" and "queue_inv q" and "queue_contents q = []"
    and "foldl (\<lambda>c r. andthen c (serve_local_request K r)) (Inr (e_node s)) (queue_contents (e_queue s)) = Inr n"
proof -
  obtain q where q: "queue_inv q" "queue_contents q = []"
    and run: "drain_queue K (e_queue s) (e_node s) = andthen (foldl (\<lambda>c r. andthen c (serve_local_request K r))
      (Inr (e_node s)) (queue_contents (e_queue s))) (\<lambda>n'. Inr (q, n'))"
    using drain_queue_eq [OF assms(2)] by metis
  then show thesis using that assms(1) by (auto simp: queue_ready_def)
qed

lemma shape_serve:
  assumes "engine_shape s" and "frame (e_node s) n" and "queue_inv q"
  shows "engine_shape (s\<lparr>e_queue := q, e_node := n\<rparr>)"
  using assms shape_frame [OF assms(2)] sockets_open_frame [OF assms(2)] by (simp add: engine_shape_def)

text \<open>A readable peer: the node after its packets, then the session or the end of the connection.\<close>

lemma peer_readable_run:
  assumes "engine_shape s" and "peer_readable K fd answers s = Inr s'" and "event_ok (PeerReadable fd answers) s"
  obtains ses cs stop closed fs rest ses' n where "e_sessions s fd = Some ses" and "answers = map Chunk cs @ [stop]"
    and "ends_loop stop closed" and "chunks_fit (bytes_read ses) cs"
    and "frames PACKET_SIZE (received ses @ concat cs) = (fs, rest)"
    and "recv_loop (dispatch K fd) (map Chunk cs @ [stop]) ses (e_node s) = Inr (Some (closed, ses', n))"
    and "s' = (let s1 = s\<lparr>e_node := n, e_sessions := (e_sessions s)(fd \<mapsto> ses')\<rparr>
        in if closed then close_peer fd s1 else s1)"
proof -
  obtain ses cs stop closed where ses: "e_sessions s fd = Some ses" and ans: "answers = map Chunk cs @ [stop]"
    and stop: "ends_loop stop closed" "chunks_fit (bytes_read ses) cs"
    using assms(3) by auto
  obtain c ses' n where run: "recv_loop (dispatch K fd) answers ses (e_node s) = Inr (Some (c, ses', n))"
    and s': "s' = (let s1 = s\<lparr>e_node := n, e_sessions := (e_sessions s)(fd \<mapsto> ses')\<rparr>
        in if c then close_peer fd s1 else s1)"
    using assms(2) ses by (auto simp: peer_readable_def Let_def split: option.splits elim!: andthen_InrE)
  obtain fs rest where fr: "frames PACKET_SIZE (received ses @ concat cs) = (fs, rest)" by fastforce
  have si: "session_inv ses" using assms(1) ses by (auto simp: engine_shape_def)
  have "c = closed"
    using recv_loop_frames [OF stop(1) si stop(2) fr, of "dispatch K fd" "e_node s"] run ans
    by (auto split: sum.splits)
  then show thesis using that [OF ses ans stop fr] run ans s' by blast
qed

lemma peer_readable_shape:
  assumes "engine_shape s" and "event_ok (PeerReadable fd answers) s"
    and "peer_readable K fd answers s = Inr s'"
  shows "engine_shape s'"
proof -
  obtain ses cs stop closed fs rest ses' n where ses: "e_sessions s fd = Some ses"
    and stop: "ends_loop stop closed" "chunks_fit (bytes_read ses) cs"
    and fr: "frames PACKET_SIZE (received ses @ concat cs) = (fs, rest)"
    and run: "recv_loop (dispatch K fd) (map Chunk cs @ [stop]) ses (e_node s) = Inr (Some (closed, ses', n))"
    and s': "s' = (let s1 = s\<lparr>e_node := n, e_sessions := (e_sessions s)(fd \<mapsto> ses')\<rparr>
        in if closed then close_peer fd s1 else s1)"
    using peer_readable_run [OF assms(1,3,2)] by metis
  have si: "session_inv ses" "ps_fd ses = fd" using assms(1) ses by (auto simp: engine_shape_def)
  have start: "node_shape (e_node s) \<and> sockets_open (e_sessions s) (e_node s) \<and> e_sessions s fd \<noteq> None"
    using assms(1) ses by (simp add: engine_shape_def)
  have end_: "node_shape n \<and> sockets_open (e_sessions s) n" "session_inv ses'" "ps_fd ses' = fd"
    using peer.recv_loop_inv [OF stop(1) si(1) stop(2) fr start _ run] si(2) by simp_all
  then have "engine_shape (s\<lparr>e_node := n, e_sessions := (e_sessions s)(fd \<mapsto> ses')\<rparr>)"
    using assms(1) by (simp add: engine_shape_def sockets_open_more)
  then show ?thesis using s' close_peer_shape by (auto simp: Let_def)
qed

lemma handle_event_shape:
  assumes "engine_shape s" and "event_ok ev s" and "handle_event K ev s = Inr s'"
  shows "engine_shape s'"
proof (cases ev)
  case (QueueReady ok)
  show ?thesis
  proof (cases ok)
    case True
    then have "queue_ready K True s = Inr s'" using QueueReady assms(3) by simp
    then obtain q n where r: "s' = s\<lparr>e_queue := q, e_node := n\<rparr>" "queue_inv q"
      "foldl (\<lambda>c r. andthen c (serve_local_request K r)) (Inr (e_node s)) (queue_contents (e_queue s)) = Inr n"
      by (rule queue_ready_run) (use assms(1) in \<open>simp add: engine_shape_def\<close>)
    show ?thesis unfolding r(1) by (rule shape_serve [OF assms(1) frame_requests [OF r(3) frame_refl] r(2)])
  qed (use assms QueueReady in \<open>simp add: queue_ready_def\<close>)
next
  case (PeerWritable fd ok)
  have "engine_shape (s\<lparr>e_connecting := x\<rparr>)" for x using assms(1) by (simp add: engine_shape_def)
  then show ?thesis
    using assms PeerWritable close_peer_shape by (auto simp: peer_writable_def)
next
  case (PeerReadable fd answers)
  then show ?thesis using peer_readable_shape [of s fd answers K s'] assms by simp
qed (use assms accept_loop_shape [OF assms(1)] in auto)

section \<open>With well-behaved peers the node stays well formed\<close>

lemma peer_readable_inv:
  assumes "engine_inv s" and "event_ok (PeerReadable fd answers) s" and "packets_ok sender_ok (PeerReadable fd answers) s"
    and "peer_readable K fd answers s = Inr s'"
  shows "node_inv (e_node s') \<and> num_pages (e_node s') = num_pages (e_node s)"
proof -
  obtain ses cs stop closed fs rest ses' n where ses: "e_sessions s fd = Some ses" and ans: "answers = map Chunk cs @ [stop]"
    and stop: "ends_loop stop closed" "chunks_fit (bytes_read ses) cs"
    and fr: "frames PACKET_SIZE (received ses @ concat cs) = (fs, rest)"
    and run: "recv_loop (dispatch K fd) (map Chunk cs @ [stop]) ses (e_node s) = Inr (Some (closed, ses', n))"
    and s': "s' = (let s1 = s\<lparr>e_node := n, e_sessions := (e_sessions s)(fd \<mapsto> ses')\<rparr>
        in if closed then close_peer fd s1 else s1)"
    using peer_readable_run [OF _ assms(4,2)] assms(1) unfolding engine_inv_shape by metis
  have ok: "\<forall>f \<in> set fs. sender_ok (decode_packet f)" using assms(3) ses ans fr by simp
  have si: "session_inv ses" using assms(1) ses by (auto simp: engine_inv_def)
  have start: "(node_inv (e_node s) \<and> gpd_pending_reqs (e_node s) \<noteq> None) \<and> num_pages (e_node s) = num_pages (e_node s)"
    using assms(1) by (simp add: engine_inv_def)
  have "node_inv n" "num_pages n = num_pages (e_node s)"
    using paged.recv_loop_inv [OF stop(1) si stop(2) fr start ok run] by simp_all
  then show ?thesis
    using keptD(1,2) [OF forget_fd_kept [of n fd]] by (simp add: s' Let_def close_peer_def)
qed

lemma handle_event_inv:
  assumes "engine_inv s" and "event_ok ev s" and "packets_ok sender_ok ev s" and "handle_event K ev s = Inr s'"
  shows "engine_inv s' \<and> num_pages (e_node s') = num_pages (e_node s)"
proof -
  have n: "node_inv (e_node s)" and shape: "engine_shape s" using assms(1) by (simp_all add: engine_inv_shape)
  have "node_inv (e_node s') \<and> num_pages (e_node s') = num_pages (e_node s)"
  proof (cases ev)
    case (ListenerReady rs)
    then show ?thesis using accept_loop_shape [OF shape] assms(4) n by simp
  next
    case (QueueReady ok)
    show ?thesis
    proof (cases ok)
      case True
      then have "queue_ready K True s = Inr s'" using QueueReady assms(4) by simp
      then obtain q m where r: "s' = s\<lparr>e_queue := q, e_node := m\<rparr>"
        "foldl (\<lambda>c r. andthen c (serve_local_request K r)) (Inr (e_node s)) (queue_contents (e_queue s)) = Inr m"
        by (rule queue_ready_run) (use assms(1) in \<open>simp add: engine_inv_def\<close>)
      then show ?thesis using steadyD(1,2) [OF foldl_serve_steady [OF r(2) n]] n by simp
    qed (use assms(4) QueueReady n in \<open>simp add: queue_ready_def\<close>)
  next
    case (PeerWritable fd ok)
    then show ?thesis
      using assms(4) n keptD(1,2) [OF forget_fd_kept [of "e_node s" fd]] by (auto simp: peer_writable_def close_peer_def)
  next
    case (PeerReadable fd answers)
    then show ?thesis using peer_readable_inv [of s fd answers K s'] assms by simp
  qed
  then show ?thesis using handle_event_shape [OF shape assms(2,4)] by (simp add: engine_inv_shape)
qed

section \<open>Every step\<close>

lemma fault_step:
  assumes "handle_fault region 4096 rd \<lparr>ft_table = page_table n, ft_queue = q\<rparr> = Inr (b, f)" and "queue_inv q"
  shows "length (ft_table f) = length (page_table n)" and "queue_inv (ft_queue f)"
  using handle_fault_frame [OF assms(1)] assms(2) by simp_all

lemma engine_step_shape:
  assumes "engine_step ok K region s s'" and "engine_shape s"
  shows "engine_shape s'"
  using assms
proof (induction rule: engine_step.induct)
  case (event ev s s')
  then show ?case using handle_event_shape by blast
next
  case (request s r q n)
  have "queue_inv q" using rq.pop_inv [of "e_queue s"] request by (simp add: engine_shape_def)
  then show ?case
    using shape_serve [OF request(3) frame_local_request [OF request(2) frame_refl]] by simp
next
  case (fault rd s b f)
  then have q: "queue_inv (e_queue s)" by (simp add: engine_shape_def)
  show ?case
    using fault(2) fault_step [OF fault(1) q] by (simp add: engine_shape_def node_shape_def sockets_open_def num_pages_def)
next
  case (evict sends recvs s busy hand wire r w)
  have "length (ev_gpd w) = length (node_gpd (e_node s))" using execute_eviction_length [OF evict(1)] by simp
  then show ?case using evict(2) by (simp add: engine_shape_def node_shape_def sockets_open_def num_pages_def)
qed

lemma packets_ok_mono: "packets_ok ok ev s \<Longrightarrow> (\<forall>p. ok p \<longrightarrow> ok' p) \<Longrightarrow> packets_ok ok' ev s"
  by (cases ev) fastforce+

lemma engine_step_inv:
  assumes "engine_step ok K region s s'" and "\<forall>p. ok p \<longrightarrow> sender_ok p" and "engine_inv s"
  shows "engine_inv s'"
proof -
  have "node_inv (e_node s')" using assms(1,3)
  proof (induction rule: engine_step.induct)
    case (event ev s s')
    then show ?case
      using handle_event_inv [of s ev K s'] packets_ok_mono [OF event(2) assms(2)] by (simp add: engine_inv_def)
  next
    case (request s r q n)
    then show ?case
      using steadyD(1) [OF serve_local_request_steady [OF request(2)]] by (simp add: engine_inv_def)
  next
    case (fault rd s b f)
    have "queue_inv (e_queue s)" using fault(2) by (simp add: engine_inv_def)
    from fault_step(1) [OF fault(1) this] show ?case
      using fault(2) by (auto simp: engine_inv_def node_inv_def num_pages_def split: option.splits)
  next
    case (evict sends recvs s busy hand wire r w)
    have safe: "gpd_safe (node_gpd (e_node s))" using evict(2) by (simp add: engine_inv_def node_inv_def)
    then have "gpd_safe (ev_gpd w)" "length (ev_gpd w) = length (node_gpd (e_node s))"
      using execute_eviction_safe [OF evict(1)] by auto
    then show ?case
      using evict(2) by (auto simp: engine_inv_def node_inv_def num_pages_def split: option.splits)
  qed
  then show ?thesis using engine_step_shape [OF assms(1)] assms(3) by (simp add: engine_inv_shape)
qed

section \<open>Properties\<close>

text \<open>C5. Whatever the peers send, and however the engine's events, the queued requests, the faults and the
  evictions follow each other (as long as none of them runs into undefined behaviour): the tables keep their
  sizes, every partial packet fits its session, the queue is a ring, and every descriptor in the node table,
  and the coordinator's, belongs to a session that is still open. If moreover every request that arrives
  carries a node identifier from 1 to 63, which the code does not check, the directory and the pending
  requests stay well formed too.\<close>

theorem engine_invariant:
  assumes "(engine_step ok K region)\<^sup>*\<^sup>* s0 s" and "engine_inv s0"
  shows "engine_shape s \<and> ((\<forall>p. ok p \<longrightarrow> sender_ok p) \<longrightarrow> engine_inv s)"
  using assms
proof (induction rule: rtranclp_induct)
  case base
  then show ?case by (simp add: engine_inv_shape)
next
  case (step s1 s2)
  then show ?case using engine_step_shape engine_step_inv by blast
qed

definition first_engine :: "(u64 \<Rightarrow> (page \<times> bool) option) engine" where
  "first_engine = \<lparr>e_node = prepare_node True (hub shared_entry zero_page), e_queue = blank_queue,
     e_sessions = (\<lambda>_. None), e_connecting = [], e_closed = []\<rparr>"

lemma first_engine_inv: "engine_inv first_engine"
proof -
  have "queue_inv blank_queue" by (simp add: blank_queue_def queue_inv_def QUEUE_CAPACITY_def)
  moreover have "node_inv (hub shared_entry zero_page)" by (simp add: hub_ok)
  ultimately show ?thesis
    by (auto simp: engine_inv_def first_engine_def prepare_node_def Let_def hub_def sockets_open_def
        node_inv_def num_pages_def NODE_SLOTS_def)
qed

theorem engine_invariant_witness:
  "\<exists>s. (engine_step sender_ok map_kernel 0x10000)\<^sup>*\<^sup>* first_engine s \<and> engine_inv s \<and> e_sessions s 7 \<noteq> None"
proof -
  let ?s = "first_engine\<lparr>e_sessions := (e_sessions first_engine)(7 \<mapsto> fresh_session 7)\<rparr>"
  have "engine_step sender_ok map_kernel 0x10000 first_engine ?s"
    by (rule engine_step.event [where ev = "ListenerReady [Accepted 7 True, NoneWaiting]"]) simp_all
  then have "(engine_step sender_ok map_kernel 0x10000)\<^sup>*\<^sup>* first_engine ?s" by (rule r_into_rtranclp)
  with engine_invariant [OF this first_engine_inv] show ?thesis by auto
qed

text \<open>C28. The pending entry of a write is not cleared when the writer's connection closes: the last
  acknowledgement still sends the page to the writer's descriptor, which is closed and no longer
  belongs to any session, or by then to some other peer.\<close>

theorem grant_sent_to_closed_socket:
  assumes "gpd_pending_reqs (e_node s) = Some ps" and "unat idx < length ps" and "unat idx < num_pages (e_node s)"
    and "cp_expected_acks (ps ! unat idx) = 1" and "cp_client_fd (ps ! unat idx) = fd"
    and "cp_requester_node_id (ps ! unat idx) \<noteq> local_node_id (e_node s)" and "ack_for idx x"
  shows "\<exists>n' pkt. dispatch K (fst x) (e_node (close_peer fd s)) (snd x) = Inr n' \<and>
    sent_packets n' = sent_packets (e_node s) @ [(fd, pkt)] \<and> pkt_type pkt = MSG_SEND_PAGE \<and>
    fd \<in> set (e_closed (close_peer fd s)) \<and> e_sessions (close_peer fd s) fd = None"
proof -
  let ?n = "e_node (close_peer fd s)"
  have "dispatch K (fst x) ?n (snd x) = Inr (send_packet fd (make_packet MSG_SEND_PAGE idx (local_node_id ?n)
        (cp_deferred_payload (ps ! unat idx))) ?n
      \<lparr>gpd_pending_reqs := Some (ps[unat idx := (ps ! unat idx)\<lparr>cp_expected_acks := 0, cp_requester_node_id := 0\<rparr>])\<rparr>)"
    using ack_counted [OF assms(7), of ?n ps "ps ! unat idx" 0 K] assms
    by (simp add: close_peer_def forget_fd_def num_pages_def)
  then show ?thesis
    by (simp add: close_peer_def forget_fd_def send_packet_def make_packet_def)
qed

theorem grant_sent_to_closed_socket_witness:
  "\<exists>n' pkt. dispatch map_kernel 13 (e_node (close_peer 12 (first_engine\<lparr>e_node := hub shared_entry zero_page
      \<lparr>gpd_pending_reqs := Some [idle_pending\<lparr>cp_requester_node_id := 2, cp_client_fd := 12, cp_expected_acks := 1\<rparr>]\<rparr>\<rparr>)))
      (ask MSG_INVALIDATE_ACK 3) = Inr n' \<and> sent_packets n' = [(12, pkt)] \<and> pkt_type pkt = MSG_SEND_PAGE"
proof -
  let ?s = "first_engine\<lparr>e_node := hub shared_entry zero_page
      \<lparr>gpd_pending_reqs := Some [idle_pending\<lparr>cp_requester_node_id := 2, cp_client_fd := 12, cp_expected_acks := 1\<rparr>]\<rparr>\<rparr>"
  have "sent_packets (e_node ?s) = []" "num_pages (e_node ?s) = 1" "local_node_id (e_node ?s) = 1"
    by (simp_all add: hub_def num_pages_def)
  then show ?thesis
    using grant_sent_to_closed_socket [of ?s "[idle_pending\<lparr>cp_requester_node_id := 2, cp_client_fd := 12, cp_expected_acks := 1\<rparr>]"
        0 12 "(13, ask MSG_INVALIDATE_ACK 3)" map_kernel]
    by (auto simp: ack_for_def)
qed

end
