(* ===== verification/Main_Init.thy ===== *)
theory Main_Init
  imports Net_Engine
begin

text \<open>
  Starting a process: the command line and the globals of \<^verbatim>\<open>main.c\<close>, the settings of
  \<^verbatim>\<open>network_engine.c\<close>, the state \<open>main\<close> builds before it starts the threads, the set-up of the
  engine thread up to its loop, and the periodic call of the eviction thread. Results of library and
  system calls are arguments.
\<close>

section \<open>The command line\<close>

text \<open>\<open>strtoul(s, NULL, 10)\<close>: leading white space, a sign, the digits; out of range is \<open>ULONG_MAX\<close>.\<close>

definition code_of :: "char \<Rightarrow> nat" where
  "code_of c = of_char c"

definition is_space :: "char \<Rightarrow> bool" where
  "is_space c \<longleftrightarrow> code_of c = 32 \<or> 9 \<le> code_of c \<and> code_of c \<le> 13"

definition is_digit :: "char \<Rightarrow> bool" where
  "is_digit c \<longleftrightarrow> 48 \<le> code_of c \<and> code_of c \<le> 57"

definition digits_value :: "string \<Rightarrow> nat" where
  "digits_value = foldl (\<lambda>v c. v * 10 + (code_of c - 48)) 0"

definition strtoul10 :: "string \<Rightarrow> u64" where
  "strtoul10 str =
     (let t = dropWhile is_space str;
          negative = (t \<noteq> [] \<and> code_of (hd t) = 45);
          signed = (t \<noteq> [] \<and> (code_of (hd t) = 45 \<or> code_of (hd t) = 43));
          v = digits_value (takeWhile is_digit (if signed then tl t else t))
      in if v \<ge> 2 ^ 64 then - 1 else if negative then - of_nat v else of_nat v)"

text \<open>The static settings of the engine, as the three setters change them.\<close>

record settings =
  g_node_id :: u32
  g_listen_port :: string
  g_coord_host :: string
  g_coord_port :: string
  g_have_coordinator :: bool

definition default_settings :: settings where
  "default_settings = \<lparr>g_node_id = 1, g_listen_port = ''3490'', g_coord_host = [], g_coord_port = [],
     g_have_coordinator = False\<rparr>"

definition network_set_local_node_id :: "u32 \<Rightarrow> settings \<Rightarrow> settings" where
  "network_set_local_node_id i c = c\<lparr>g_node_id := i\<rparr>"

definition network_set_listen_port :: "string \<Rightarrow> settings \<Rightarrow> settings" where
  "network_set_listen_port port c = (if port \<noteq> [] then c\<lparr>g_listen_port := take 15 port\<rparr> else c)"

definition network_set_coordinator :: "string \<Rightarrow> string \<Rightarrow> settings \<Rightarrow> settings" where
  "network_set_coordinator host port c =
     (if host \<noteq> [] \<and> port \<noteq> []
      then c\<lparr>g_coord_host := take 255 host, g_coord_port := take 15 port, g_have_coordinator := True\<rparr>
      else c)"

text \<open>
  The head of \<open>main\<close>: test mode and settings, or no value where the process exits with 1.
\<close>

definition parse_args :: "string list \<Rightarrow> (bool \<times> settings) option" where
  "parse_args argv =
     (let test_mode = (length argv > 1 \<and> last argv = ''--coherence-test'');
          real_argc = (if test_mode then length argv - 1 else length argv)
      in if real_argc \<noteq> 3 \<and> real_argc \<noteq> 5 then None
         else
           let node_id = ucast (strtoul10 (argv ! 1)) :: u32
           in if node_id = 0 \<or> node_id \<ge> 64 then None
              else
                let c = network_set_listen_port (argv ! 2) (network_set_local_node_id node_id default_settings);
                    c' = (if real_argc = 5 then network_set_coordinator (argv ! 3) (argv ! 4) c else c)
                in Some (test_mode, c'))"

section \<open>The state before the threads start\<close>

text \<open>What the calls of \<open>main\<close> return; \<open>sr_memory\<close> is the memory after \<open>mmap\<close> and registration.\<close>

record 'm start_results =
  sr_page_size :: nat
  sr_event_fd :: int
  sr_gpd_ok :: bool
  sr_uffd :: int
  sr_api :: int
  sr_region :: "u64 option"
  sr_table_ok :: bool
  sr_ring_ok :: bool
  sr_register :: int
  sr_memory :: 'm

definition zero_queue :: request_queue where
  "zero_queue = \<lparr>q_data = replicate QUEUE_CAPACITY \<lparr>rq_page_index = 0, rq_is_write = False\<rparr>,
     q_head = 0, q_tail = 0, q_size = 0, notify_fd = 0, notify_log = []\<rparr>"

text \<open>The body of \<open>main\<close> up to the creation of the threads; no value where the process exits.\<close>

definition main_start :: "settings \<Rightarrow> 'm start_results \<Rightarrow> 'm engine option" where
  "main_start c r =
     (case queue_init zero_queue (sr_event_fd r) of
        None \<Rightarrow> None
      | Some q \<Rightarrow>
          let total_pages = REGION_SIZE div sr_page_size r in
          case gpd_init total_pages (sr_gpd_ok r) of
            None \<Rightarrow> None
          | Some g \<Rightarrow>
              if fst (create_user_fault_fd (sr_uffd r) (sr_api r)) < 1 then None
              else
                case sr_region r of
                  None \<Rightarrow> None
                | Some region \<Rightarrow>
                    if \<not> sr_table_ok r \<or> \<not> sr_ring_ok r then None
                    else
                      let table = init_page_table region (of_nat (sr_page_size r)) total_pages;
                          ring = init_eviction_ring region (of_nat (sr_page_size r)) total_pages
                      in case register_memory_region region (sr_register r) of
                           None \<Rightarrow> None
                         | Some _ \<Rightarrow> Some
                             \<lparr>e_node = \<lparr>local_node_id = g_node_id c, coordinator_fd = - 1,
                                node_fds = replicate NODE_SLOTS 0, page_table = table, node_gpd = g,
                                gpd_pending_reqs = None, eviction_ring = ring, node_mem = sr_memory r,
                                sent_packets = []\<rparr>,
                              e_queue = q, e_sessions = (\<lambda>_. None), e_connecting = [], e_closed = []\<rparr>)"

section \<open>The engine thread before its loop\<close>

record setup_results =
  su_calloc_ok :: bool
  su_bind :: "bind_try list option"
  su_listen_ok :: bool
  su_epoll_ok :: bool
  su_malloc_ok :: bool
  su_coordinator :: "connect_try list option"
  su_session_ok :: bool
  su_epoll_add_ok :: bool

definition network_engine_setup :: "settings \<Rightarrow> setup_results \<Rightarrow> 'm engine \<Rightarrow> 'm engine option" where
  "network_engine_setup c u s =
     (let s1 = s\<lparr>e_node := prepare_node (su_calloc_ok u) (e_node s)\<rparr> in
      case su_bind u of
        None \<Rightarrow> None
      | Some ts \<Rightarrow>
          if bind_listener ts = None then None
          else if \<not> su_listen_ok u then None
          else if \<not> su_epoll_ok u then None
          else if \<not> su_malloc_ok u then None
          else if g_have_coordinator c then
            Some (snd (connect_to_remote_node (su_coordinator u) (su_session_ok u) (su_epoll_add_ok u) s1))
          else Some s1)"

section \<open>The eviction thread\<close>

text \<open>
  One round of \<open>background_eviction_thread\<close>, with the descriptor it was given when it was created.
\<close>

definition background_eviction_round ::
  "'m kernel \<Rightarrow> int \<Rightarrow> send_result list \<Rightarrow> recv_result list \<Rightarrow> u32 \<Rightarrow> (nat \<Rightarrow> nat \<Rightarrow> bool) \<Rightarrow>
     'm eviction \<Rightarrow> 'm eviction comp" where
  "background_eviction_round K net_fd sends recvs node_id busy w =
     (if net_fd \<noteq> - 1
      then andthen (dsm_execute_eviction K sends recvs node_id busy w) (\<lambda>(_, w'). Inr w')
      else Inr w)"

section \<open>Decimal numbers\<close>

definition digit_char :: "nat \<Rightarrow> char" where
  "digit_char d = char_of (48 + d)"

fun decimal :: "nat \<Rightarrow> string" where
  "decimal n = (if n < 10 then [digit_char n] else decimal (n div 10) @ [digit_char (n mod 10)])"

declare decimal.simps [simp del]

lemma code_of_digit: "d < 10 \<Longrightarrow> code_of (digit_char d) = 48 + d"
  by (simp add: code_of_def digit_char_def)

lemma decimal_digits: "c \<in> set (decimal n) \<Longrightarrow> is_digit c"
proof (induction n rule: decimal.induct)
  case (1 n)
  then show ?case
    by (subst (asm) (2) decimal.simps) (auto simp: is_digit_def code_of_digit split: if_splits)
qed

lemma decimal_nonempty: "decimal n \<noteq> []"
  by (subst decimal.simps) simp

lemma digits_value_decimal: "digits_value (decimal n) = n"
proof (induction n rule: decimal.induct)
  case (1 n)
  show ?case
  proof (cases "n < 10")
    case True
    then show ?thesis by (simp add: decimal.simps [of n] digits_value_def code_of_digit)
  next
    case False
    then have "digits_value (decimal n) = digits_value (decimal (n div 10)) * 10 + n mod 10"
      by (simp add: decimal.simps [of n] digits_value_def code_of_digit)
    then show ?thesis using 1 False by simp
  qed
qed

lemma strtoul10_decimal:
  assumes "n < 2 ^ 64"
  shows "strtoul10 (decimal n) = of_nat n"
proof -
  have all: "takeWhile is_digit (decimal n) = decimal n"
    using decimal_digits by (simp add: takeWhile_eq_all_conv)
  have "is_digit (hd (decimal n))" using decimal_digits decimal_nonempty hd_in_set by blast
  then have "\<not> is_space (hd (decimal n))" "code_of (hd (decimal n)) \<noteq> 45" "code_of (hd (decimal n)) \<noteq> 43"
    by (auto simp: is_digit_def is_space_def)
  moreover from this have "dropWhile is_space (decimal n) = decimal n"
    by (cases "decimal n") auto
  ultimately show ?thesis
    using assms by (simp add: strtoul10_def Let_def all digits_value_decimal)
qed

section \<open>The first state is well formed\<close>

lemma connect_inv:
  assumes "engine_inv s" and "connect_to_remote_node addresses malloc_ok epoll_ok s = (fd, s')"
    and "\<forall>ts. addresses = Some ts \<longrightarrow> ConnectStarted (- 1) \<notin> set ts"
  shows "engine_inv s' \<and> node_gpd (e_node s') = node_gpd (e_node s) \<and>
    local_node_id (e_node s') = local_node_id (e_node s)"
proof (cases "fd = - 1")
  case True
  have "engine_inv (s\<lparr>e_closed := x\<rparr>)" for x using assms(1) by (simp add: engine_inv_def)
  then show ?thesis
    using assms True by (auto simp: connect_to_remote_node_def Let_def split: option.splits prod.splits if_splits)
next
  case False
  then obtain ts closed where ts: "addresses = Some ts" and first: "first_connection ts (e_closed s) = (fd, closed)"
    and s': "s' = s\<lparr>e_sessions := (e_sessions s)(fd \<mapsto> fresh_session fd), e_connecting := fd # e_connecting s,
      e_closed := closed, e_node := send_packet fd (make_packet MSG_NODE_JOIN 0 (local_node_id (e_node s)) zero_page)
        ((e_node s)\<lparr>coordinator_fd := fd\<rparr>)\<rparr>"
    using assms(2) by (auto simp: connect_to_remote_node_def Let_def split: option.splits prod.splits if_splits)
  let ?n = "send_packet fd (make_packet MSG_NODE_JOIN 0 (local_node_id (e_node s)) zero_page)
      ((e_node s)\<lparr>coordinator_fd := fd\<rparr>)"
  have "node_inv ?n" "gpd_pending_reqs ?n \<noteq> None"
    using assms(1) by (auto simp: engine_inv_def node_inv_def send_packet_def num_pages_def split: option.splits)
  moreover have "sockets_open ((e_sessions s)(fd \<mapsto> fresh_session fd)) ?n"
    using assms(1) by (simp add: engine_inv_def sockets_open_def send_packet_def)
  moreover have "session_inv (fresh_session fd)" "ps_fd (fresh_session fd) = fd"
    by simp (simp add: fresh_session_def)
  ultimately show ?thesis
    using assms(1) by (simp add: s' engine_inv_def) (simp add: send_packet_def)
qed

lemma parse_args_node: "parse_args argv = Some (t, c) \<Longrightarrow> valid_node (g_node_id c)"
  by (auto simp: parse_args_def Let_def network_set_coordinator_def network_set_listen_port_def
      network_set_local_node_id_def valid_node_def word_le_nat_alt unat_gt_0 split: if_splits)

lemma main_start_shape:
  assumes "main_start c r = Some s" and "sr_page_size r = 4096"
  shows "num_pages (e_node s) = 4" and "node_gpd (e_node s) = replicate 4 fresh_entry"
    and "local_node_id (e_node s) = g_node_id c" and "coordinator_fd (e_node s) = - 1"
    and "gpd_pending_reqs (e_node s) = None" and "queue_inv (e_queue s)" and "e_sessions s = (\<lambda>_. None)"
  using assms queue_init_inv [of zero_queue "sr_event_fd r"]
  by (auto simp: main_start_def Let_def REGION_SIZE_def gpd_init_def num_pages_def zero_queue_def
      split: option.splits if_splits)

lemma prepared_inv:
  assumes "main_start c r = Some s" and "sr_page_size r = 4096" and "valid_node (g_node_id c)"
  shows "engine_inv (s\<lparr>e_node := prepare_node True (e_node s)\<rparr>)"
proof -
  note shape = main_start_shape [OF assms(1,2)]
  have "gpd_safe (replicate 4 fresh_entry)"
    using gpd_init_inv [of 4 True "replicate 4 fresh_entry"] by (simp add: gpd_init_def gpd_inv_safe)
  then show ?thesis
    using shape assms(3)
    by (auto simp: engine_inv_def prepare_node_def Let_def sockets_open_def node_inv_def num_pages_def
        NODE_SLOTS_def idle_pending_def)
qed

section \<open>Properties\<close>

text \<open>C31. A process that gets past its start-up with 4096-byte pages and its pending table allocated
  enters the engine loop in a state that satisfies the engine's invariant, with four pages, an
  identifier between 1 and 63 and an empty directory; a process started without a coordinator has no
  coordinator socket, and then its eviction thread never changes anything.\<close>

theorem startup_ready:
  assumes "parse_args argv = Some (test_mode, c)" and "main_start c r = Some s0" and "sr_page_size r = 4096"
    and "network_engine_setup c u s0 = Some s" and "su_calloc_ok u"
    and "\<forall>ts. su_coordinator u = Some ts \<longrightarrow> ConnectStarted (- 1) \<notin> set ts"
  shows "engine_inv s \<and> num_pages (e_node s) = 4 \<and> valid_node (local_node_id (e_node s)) \<and>
    (\<forall>i < 4. gpd_holders (node_gpd (e_node s)) i = {}) \<and>
    (\<not> g_have_coordinator c \<longrightarrow> coordinator_fd (e_node s) = - 1 \<and>
       background_eviction_round K (coordinator_fd (e_node s)) sends recvs me busy w = Inr w)"
proof -
  note node = parse_args_node [OF assms(1)]
  note shape = main_start_shape [OF assms(2,3)]
  let ?s1 = "s0\<lparr>e_node := prepare_node True (e_node s0)\<rparr>"
  have inv: "engine_inv ?s1" using prepared_inv [OF assms(2,3) node] .
  have pre: "node_gpd (e_node ?s1) = replicate 4 fresh_entry" "local_node_id (e_node ?s1) = g_node_id c"
    "coordinator_fd (e_node ?s1) = - 1"
    using shape by (simp_all add: prepare_node_def Let_def)
  have s: "s = (if g_have_coordinator c
      then snd (connect_to_remote_node (su_coordinator u) (su_session_ok u) (su_epoll_add_ok u) ?s1) else ?s1)"
    using assms(4,5) by (auto simp: network_engine_setup_def Let_def split: option.splits if_splits)
  have "engine_inv s \<and> node_gpd (e_node s) = replicate 4 fresh_entry \<and> local_node_id (e_node s) = g_node_id c"
    using connect_inv [OF inv _ assms(6)] inv pre s by (metis prod.collapse)
  moreover from this have "length (node_gpd (e_node s)) = num_pages (e_node s)" "length (node_gpd (e_node s)) = 4"
    unfolding engine_inv_def node_inv_def by (blast, metis length_replicate)
  moreover have "\<forall>i < 4. gpd_holders (replicate 4 fresh_entry) i = {}"
    using gpd_init_holders [of 4 True] by (simp add: gpd_init_def)
  moreover have "\<not> g_have_coordinator c \<longrightarrow> coordinator_fd (e_node s) = - 1"
    using s pre by simp
  ultimately show ?thesis using node by (simp add: background_eviction_round_def)
qed

definition good_start :: "(u64 \<Rightarrow> (page \<times> bool) option) start_results" where
  "good_start = \<lparr>sr_page_size = 4096, sr_event_fd = 4, sr_gpd_ok = True, sr_uffd = 5, sr_api = 0,
     sr_region = Some 0x10000, sr_table_ok = True, sr_ring_ok = True, sr_register = 0, sr_memory = Map.empty\<rparr>"

definition good_setup :: setup_results where
  "good_setup = \<lparr>su_calloc_ok = True, su_bind = Some [BindOk 6], su_listen_ok = True, su_epoll_ok = True,
     su_malloc_ok = True, su_coordinator = Some [NoSocket, ConnectStarted 9], su_session_ok = True,
     su_epoll_add_ok = True\<rparr>"

theorem startup_ready_witness:
  "\<exists>c s0 s. parse_args [''dsm'', ''2'', ''3491'', ''127.0.0.1'', ''3490''] = Some (False, c) \<and>
     main_start c good_start = Some s0 \<and> network_engine_setup c good_setup s0 = Some s \<and>
     engine_inv s \<and> local_node_id (e_node s) = 2 \<and> coordinator_fd (e_node s) = 9"
proof -
  let ?argv = "[''dsm'', ''2'', ''3491'', ''127.0.0.1'', ''3490'']"
  have two: "strtoul10 ''2'' = 2" by (simp add: strtoul10_def is_space_def is_digit_def code_of_def digits_value_def Let_def)
  then obtain c where c: "parse_args ?argv = Some (False, c)" "g_node_id c = 2" "g_have_coordinator c"
    by (auto simp: parse_args_def Let_def network_set_coordinator_def network_set_listen_port_def
        network_set_local_node_id_def word_le_nat_alt)
  obtain s0 where s0: "main_start c good_start = Some s0"
    by (auto simp: main_start_def good_start_def queue_init_def gpd_init_def create_user_fault_fd_def
        register_memory_region_def Let_def)
  obtain s where s: "network_engine_setup c good_setup s0 = Some s" "coordinator_fd (e_node s) = 9"
    "local_node_id (e_node s) = local_node_id (e_node s0)"
    using c(3) by (auto simp: network_engine_setup_def good_setup_def Let_def connect_to_remote_node_def
        send_packet_def prepare_node_def)
  have f: "sr_page_size good_start = 4096" "su_calloc_ok good_setup"
    "\<forall>ts. su_coordinator good_setup = Some ts \<longrightarrow> ConnectStarted (- 1) \<notin> set ts"
    by (simp_all add: good_start_def good_setup_def)
  show ?thesis
    using startup_ready [OF c(1) s0 f(1) s(1) f(2,3)] main_start_shape(3) [OF s0 f(1)] c s0 s by auto
qed

text \<open>The node identifier is cut to 32 bits before its range is checked: in the form with an identifier and
  a port, a decimal number below \<open>2 ^ 64\<close> is accepted exactly when it is 1 to 63 modulo \<open>2 ^ 32\<close>, and the
  process then runs under that remainder.\<close>

lemma node_id_low_bits:
  assumes "n < 2 ^ 64" and "port \<noteq> ''--coherence-test''"
  shows "(parse_args [prog, decimal n, port] \<noteq> None \<longleftrightarrow> n mod 2 ^ 32 \<in> {1..63}) \<and>
    (\<forall>t c. parse_args [prog, decimal n, port] = Some (t, c) \<longrightarrow>
       \<not> t \<and> unat (g_node_id c) = n mod 2 ^ 32 \<and> \<not> g_have_coordinator c)"
proof -
  let ?id = "ucast (strtoul10 (decimal n)) :: u32"
  have idn: "unat ?id = n mod 2 ^ 32"
    using assms(1) by (simp add: strtoul10_decimal unsigned_ucast_eq take_bit_eq_mod unat_of_nat)
  have rejected: "?id = 0 \<or> ?id \<ge> 64 \<longleftrightarrow> n mod 2 ^ 32 \<notin> {1..63}"
    using idn unat_eq_zero [of ?id] by (auto simp: word_le_nat_alt)
  show ?thesis
  proof (cases "n mod 2 ^ 32 \<in> {1..63}")
    case True
    then have "\<not> (?id = 0 \<or> ?id \<ge> 64)" using rejected by blast
    then show ?thesis
      using assms(2) idn True
      by (simp add: parse_args_def Let_def network_set_listen_port_def network_set_local_node_id_def
          default_settings_def)
  next
    case False
    then have "?id = 0 \<or> ?id \<ge> 64" using rejected by blast
    then have "parse_args [prog, decimal n, port] = None"
      using assms(2) by (simp add: parse_args_def Let_def)
    then show ?thesis using False by simp
  qed
qed

lemma node_id_low_bits_instance:
  "\<exists>c. parse_args [''dsm'', decimal 4294967297, ''3490''] = Some (False, c) \<and> g_node_id c = 1"
proof -
  have f: "(4294967297 :: nat) < 2 ^ 64" "''3490'' \<noteq> ''--coherence-test''" "(4294967297 :: nat) mod 2 ^ 32 = 1"
    by simp_all
  then obtain t c where tc: "parse_args [''dsm'', decimal 4294967297, ''3490''] = Some (t, c)"
    using node_id_low_bits [OF f(1,2), of "''dsm''"] by auto
  then have "\<not> t" "unat (g_node_id c) = 1"
    using node_id_low_bits [OF f(1,2), of "''dsm''"] f(3) by auto
  then show ?thesis using tc by (auto simp: word_unat_eq_iff)
qed

end
