(* ===== verification/Engine_Progress.thy ===== *)
theory Engine_Progress
  imports Net_Engine
begin

text \<open>
  The engine thread comes back to \<open>epoll_wait\<close>: every request in the queue names a page of the region,
  and no event leaves the thread stuck unless it has to serve a page whose memory is gone.
\<close>

section \<open>Requests in the queue name pages\<close>

definition requests_in_range :: "'m engine \<Rightarrow> bool" where
  "requests_in_range s \<longleftrightarrow>
     (\<forall>r \<in> set (queue_contents (e_queue s)). unat (rq_page_index r) < num_pages (e_node s))"

text \<open>An event either leaves the queue alone or drains it.\<close>

definition queue_settled :: "'m engine \<Rightarrow> 'm engine \<Rightarrow> bool" where
  "queue_settled s s' \<longleftrightarrow> e_queue s' = e_queue s \<or> queue_contents (e_queue s') = []"

lemma accept_loop_settled: "accept_loop rs s = Inr s' \<Longrightarrow> queue_settled s s'"
  by (induction rs s rule: accept_loop.induct) (auto simp: queue_settled_def split: if_splits)

lemma close_peer_settled: "queue_settled s (close_peer fd s)"
  by (simp add: queue_settled_def close_peer_def)

lemma peer_readable_settled: "peer_readable K fd answers s = Inr s' \<Longrightarrow> queue_settled s s'"
  by (auto simp: peer_readable_def queue_settled_def Let_def close_peer_def split: option.splits if_splits)

lemma queue_ready_settled:
  assumes "queue_inv (e_queue s)" and "queue_ready K ok s = Inr s'"
  shows "queue_settled s s'"
proof (cases ok)
  case True
  then have run: "queue_ready K True s = Inr s'" using assms(2) by simp
  show ?thesis by (rule queue_ready_run [OF run assms(1)]) (simp add: queue_settled_def)
qed (use assms in \<open>simp add: queue_ready_def queue_settled_def\<close>)

lemma handle_event_settled:
  assumes "queue_inv (e_queue s)" and "handle_event K ev s = Inr s'"
  shows "queue_settled s s'"
proof (cases ev)
  case (PeerWritable fd ok)
  then show ?thesis
    using assms(2) close_peer_settled [of s fd] by (auto simp: peer_writable_def queue_settled_def)
qed (use assms accept_loop_settled queue_ready_settled peer_readable_settled in auto)

text \<open>A popped request was the first of the queue.\<close>

lemma popped_request:
  assumes "queue_inv q" and "queue_pop q = (Some r, q')"
  shows "queue_contents q = r # queue_contents q'" and "queue_inv q'"
proof -
  obtain x xs where "queue_contents q = x # xs"
    using rq.pop_empty [OF assms(1)] assms(2) by (cases "queue_contents q") auto
  then show "queue_contents q = r # queue_contents q'" and "queue_inv q'"
    using rq.pop_some [OF assms(1)] assms(2) by auto
qed

lemma fault_request_in_range:
  assumes "handle_fault region 4096 rd f = Inr (b, f')" and "queue_inv (ft_queue f)"
    and "length (ft_table f) \<le> 2 ^ 31" and "r \<in> set (queue_contents (ft_queue f'))"
  shows "r \<in> set (queue_contents (ft_queue f)) \<or> unat (rq_page_index r) < length (ft_table f)"
proof (cases "f' = f")
  case False
  then obtain idx w st where idx: "0 \<le> idx" "nat idx < length (ft_table f)" and f': "f' = request_page idx w st f"
    using handle_fault_cases [OF assms(1)] by blast
  obtain k where k: "idx = int k" using idx(1) by (rule nonneg_int_cases)
  then have "k < 2 ^ LENGTH(64)" using idx(2) assms(3) by simp
  then have u: "unat (of_int idx :: u64) = k" using k by (simp add: of_nat_inverse)
  show ?thesis
    by (rule queue_push_cases [OF assms(2), of "\<lparr>rq_page_index = of_int idx, rq_is_write = w\<rparr>"])
      (use assms(4) f' u k idx(2) in \<open>auto simp: request_page_def Let_def\<close>)
qed (use assms(4) in simp)

lemma engine_step_requests:
  assumes "engine_step sender_ok K region s s'" and "engine_inv s" and "requests_in_range s"
  shows "requests_in_range s'"
  using assms
proof (induction rule: engine_step.induct)
  case (event ev s s')
  then have "queue_inv (e_queue s)" "num_pages (e_node s') = num_pages (e_node s)"
    using handle_event_inv [of s ev K s'] by (simp_all add: engine_inv_def)
  then show ?case
    using handle_event_settled [OF _ event(3)] event(5) by (auto simp: requests_in_range_def queue_settled_def)
next
  case (request s r q n)
  then have "queue_inv (e_queue s)" "node_inv (e_node s)" by (simp_all add: engine_inv_def)
  then have "queue_contents (e_queue s) = r # queue_contents q" "num_pages n = num_pages (e_node s)"
    using popped_request(1) [OF _ request(1)] steadyD(2) [OF serve_local_request_steady [OF request(2)]]
    by simp_all
  then show ?case using request(4) by (simp add: requests_in_range_def)
next
  case (fault rd s b f)
  let ?f0 = "\<lparr>ft_table = page_table (e_node s), ft_queue = e_queue s\<rparr>"
  have q: "queue_inv (ft_queue ?f0)" "length (ft_table ?f0) \<le> 2 ^ 31"
    using fault(2) by (simp_all add: engine_inv_def node_inv_def num_pages_def)
  have "length (ft_table f) = length (page_table (e_node s))" using handle_fault_frame [OF fault(1) q(1)] by simp
  then show ?case
    using fault_request_in_range [OF fault(1) q] fault(3) by (auto simp: requests_in_range_def num_pages_def)
next
  case (evict sends recvs s busy hand wire r w)
  then show ?case by (simp add: requests_in_range_def)
qed

section \<open>Every event returns\<close>

lemma upgrade_local_copy_returns:
  assumes "node_inv n" and "gpd_pending_reqs n \<noteq> None" and "unat idx < num_pages n"
  shows "\<exists>n'. upgrade_local_copy K idx n = Inr n'"
proof -
  have me: "valid_node (local_node_id n)" using assms(1) by (simp add: node_inv_def)
  obtain msk n1 where n1: "to_modified (unat idx) (local_node_id n) n = Inr (msk, n1)"
    using to_modified_returns [OF assms(1,3) me] by metis
  note s1 = to_modified_steady [OF n1 assms(1,3) me]
  have pages: "unat idx < num_pages n1" using steadyD(2) [OF s1] assms(3) by simp
  show ?thesis
    using invalidate_then_grant_returns [of n1 idx "lift_protection K (unat idx) False"] steadyD(1,4) [OF s1]
      lift_protection_returns [OF pages] pages assms(1,2) n1 by (simp add: upgrade_local_copy_def)
qed

lemma install_zero_page_returns:
  assumes "node_inv n" and "unat idx < num_pages n"
  shows "\<exists>n'. install_zero_page K idx w n = Inr n'"
proof -
  obtain n1 where n1: "install_page K (unat idx) zero_page n = Inr n1"
    using install_page_returns [OF assms(2)] by blast
  note s1 = install_page_steady [OF n1]
  have inv1: "node_inv n1" "unat idx < num_pages n1" using steadyD(1,2) [OF s1] assms by auto
  then have me: "valid_node (local_node_id n1)" by (simp add: node_inv_def)
  obtain x n2 y n3 where "to_modified (unat idx) (local_node_id n1) n1 = Inr (x, n2)"
    "to_shared (unat idx) (local_node_id n1) n1 = Inr (y, n3)"
    using to_modified_returns [OF inv1 me] to_shared_returns [OF inv1 me] by metis
  then show ?thesis using n1 by (simp add: install_zero_page_def)
qed

lemma serve_local_request_returns:
  assumes "node_inv n" and "gpd_pending_reqs n \<noteq> None" and "unat (rq_page_index r) < num_pages n"
  shows "\<exists>n'. serve_local_request K r n = Inr n'"
proof (cases "coordinator_fd n = - 1")
  case True
  let ?idx = "rq_page_index r"
  let ?own = "owner_node_id (node_gpd n ! unat ?idx)"
  have len: "unat ?idx < length (page_table n)" "unat ?idx < length (node_gpd n)" "length (node_fds n) = NODE_SLOTS"
    using assms(1,3) by (simp_all add: node_inv_def num_pages_def)
  have start: "serve_local_request K r n =
      (let p = page_table n ! unat ?idx in
       if pt_status p = PAGE_VALID \<or> pt_status p = PAGE_WRITE_PENDING then
         if rq_is_write r then upgrade_local_copy K ?idx n else Inr n
       else if ?own \<noteq> 0 \<and> unat ?own < NODE_SLOTS \<and> node_fds n ! unat ?own \<noteq> - 1
       then fetch_from_owner ?idx ?own (local_node_id n)
              (if rq_is_write r then MSG_REQUEST_PAGE_WRITE else MSG_REQUEST_PAGE_READ) (- 1) n
       else install_zero_page K ?idx (rq_is_write r) n)"
    using True len by (simp add: serve_local_request_def Let_def gpd_get_owner_def owner_reachable_eq)
  show ?thesis
    unfolding start Let_def
    using upgrade_local_copy_returns [OF assms] install_zero_page_returns [OF assms(1,3)]
      fetch_from_owner_returns [OF assms(1,3)] by simp
qed (simp add: serve_local_request_def Let_def)

lemma foldl_serve_returns:
  "node_inv n \<Longrightarrow> gpd_pending_reqs n \<noteq> None \<Longrightarrow> \<forall>r \<in> set rs. unat (rq_page_index r) < num_pages n \<Longrightarrow>
     \<exists>n'. foldl (\<lambda>c r. andthen c (serve_local_request K r)) (Inr n) rs = Inr n'"
proof (induction rs arbitrary: n)
  case (Cons r rs)
  then obtain n1 where n1: "serve_local_request K r n = Inr n1"
    using serve_local_request_returns [of n r K] by auto
  note s = serve_local_request_steady [OF n1 Cons.prems(1)]
  show ?case using Cons.IH [of n1] Cons.prems n1 steadyD [OF s] by simp
qed simp

lemma queue_ready_returns:
  assumes "engine_inv s" and "requests_in_range s"
  shows "\<exists>s'. queue_ready K ok s = Inr s'"
proof -
  have q: "queue_inv (e_queue s)" using assms(1) by (simp add: engine_inv_def)
  obtain q' where run: "drain_queue K (e_queue s) (e_node s) = andthen (foldl (\<lambda>c r. andthen c (serve_local_request K r))
      (Inr (e_node s)) (queue_contents (e_queue s))) (\<lambda>n'. Inr (q', n'))"
    using drain_queue_eq [OF q] by metis
  obtain n' where "foldl (\<lambda>c r. andthen c (serve_local_request K r)) (Inr (e_node s))
      (queue_contents (e_queue s)) = Inr n'"
    using foldl_serve_returns [of "e_node s" "queue_contents (e_queue s)" K] assms
    by (auto simp: engine_inv_def requests_in_range_def)
  then show ?thesis using run by (simp add: queue_ready_def)
qed

lemma drain_empties:
  assumes "engine_inv s" and "queue_ready K True s = Inr s'"
  shows "queue_contents (e_queue s') = []"
proof -
  have "queue_inv (e_queue s)" using assms(1) by (simp add: engine_inv_def)
  then obtain q' f where "queue_contents q' = []" "drain_queue K (e_queue s) (e_node s) = andthen f (\<lambda>n'. Inr (q', n'))"
    using drain_queue_eq by metis
  then show ?thesis using assms(2) by (auto simp: queue_ready_def)
qed

lemma accept_loop_returns: "NoneWaiting \<in> set rs \<Longrightarrow> \<exists>s'. accept_loop rs s = Inr s'"
  by (induction rs s rule: accept_loop.induct) auto

text \<open>
  What can hold the engine up: the listener that never says that nobody waits, and a packet of the event
  for which the engine would have to read a page that is not mapped, after the packets before it.
\<close>

fun unblocked :: "'m kernel \<Rightarrow> engine_event \<Rightarrow> 'm engine \<Rightarrow> bool" where
  "unblocked K (ListenerReady rs) s = (NoneWaiting \<in> set rs)"
| "unblocked K (QueueReady ok) s = True"
| "unblocked K (PeerWritable fd ok) s = True"
| "unblocked K (PeerReadable fd answers) s =
     (\<forall>ses cs stop ps p rest n. e_sessions s fd = Some ses \<longrightarrow> answers = map Chunk cs @ [stop] \<longrightarrow>
        map decode_packet (fst (frames PACKET_SIZE (received ses @ concat cs))) = ps @ p # rest \<longrightarrow>
        dispatch_all (dispatch K fd) (e_node s) ps = Inr n \<longrightarrow> \<not> self_fault K n p)"

lemma runs_free_prefixes:
  "(\<forall>qs p rest n'. ps = qs @ p # rest \<longrightarrow> dispatch_all (dispatch K fd) n qs = Inr n' \<longrightarrow> \<not> self_fault K n' p) \<Longrightarrow>
     engine.runs_free K fd n ps"
proof (induction ps arbitrary: n)
  case (Cons p ps)
  have "\<not> self_fault K n p" using Cons.prems [rule_format, of "[]" p ps n] by simp
  moreover have "engine.runs_free K fd n1 ps" if n1: "dispatch K fd n p = Inr n1" for n1
  proof (rule Cons.IH, intro allI impI)
    fix qs q rest n'
    assume "ps = qs @ q # rest" "dispatch_all (dispatch K fd) n1 qs = Inr n'"
    then show "\<not> self_fault K n' q" using Cons.prems [rule_format, of "p # qs" q rest n'] n1 by simp
  qed
  ultimately show ?case by simp
qed simp

lemma peer_readable_returns:
  assumes "engine_inv s" and "event_ok (PeerReadable fd answers) s" and "packets_ok sender_ok (PeerReadable fd answers) s"
    and "unblocked K (PeerReadable fd answers) s"
  shows "\<exists>s'. peer_readable K fd answers s = Inr s'"
proof -
  obtain ses cs stop closed where ses: "e_sessions s fd = Some ses" and ans: "answers = map Chunk cs @ [stop]"
    and stop: "ends_loop stop closed" "chunks_fit (bytes_read ses) cs"
    using assms(2) by auto
  then have ok: "\<forall>f \<in> set (fst (frames PACKET_SIZE (received ses @ concat cs))). sender_ok (decode_packet f)"
    using assms(3) by simp
  obtain fs rest where fr: "frames PACKET_SIZE (received ses @ concat cs) = (fs, rest)" by fastforce
  have si: "session_inv ses" using assms(1) ses by (auto simp: engine_inv_def)
  have "engine.runs_free K fd (e_node s) (map decode_packet fs)"
    using assms(4) ses ans fr by (intro runs_free_prefixes) simp
  then obtain n where "dispatch_all (dispatch K fd) (e_node s) (map decode_packet fs) = Inr n"
    using engine.dispatch_all_returns [of "e_node s" "map decode_packet fs" K fd] assms(1) ok fr
    by (auto simp: engine_inv_def)
  then show ?thesis
    using recv_loop_frames [OF stop(1) si stop(2) fr, of "dispatch K fd" "e_node s"] ses ans
    by (auto simp: peer_readable_def Let_def)
qed

section \<open>Property\<close>

text \<open>C6. Let every complete request carry a node identifier from 1 to 63, let \<open>accept\<close> and \<open>recv\<close> at some point
  report that nothing more is there, and let every \<open>send\<close> return (a \<open>SIGPIPE\<close> would end the process). Then,
  from any state that the engine, the fault handler and the eviction thread reach in any order of their
  steps, the engine handles the next event to the end and is ready for another, with the queue empty after a
  wake-up of the queue, unless it has to read a page whose memory is gone: no index is out of range, no shift
  undefined, no pointer null.\<close>

theorem engine_returns_to_epoll:
  assumes "(engine_step sender_ok K region)\<^sup>*\<^sup>* s0 s" and "engine_inv s0" and "queue_contents (e_queue s0) = []"
    and "event_ok ev s" and "packets_ok sender_ok ev s" and "unblocked K ev s"
  shows "\<exists>s'. handle_event K ev s = Inr s' \<and> engine_inv s' \<and>
    (ev = QueueReady True \<longrightarrow> queue_contents (e_queue s') = [])"
proof -
  have inv: "engine_inv s \<and> requests_in_range s"
    using assms(1)
  proof (induction rule: rtranclp_induct)
    case (step s1 s2)
    then show ?case using engine_step_inv engine_step_requests by blast
  qed (use assms(2,3) in \<open>simp add: requests_in_range_def\<close>)
  have "\<exists>s'. handle_event K ev s = Inr s'"
  proof (cases ev)
    case (PeerReadable fd answers)
    then show ?thesis
      using peer_readable_returns [of s fd answers K] inv assms(4-6)
      by (simp del: event_ok.simps packets_ok.simps unblocked.simps)
  qed (use queue_ready_returns [of s K] accept_loop_returns inv assms(6) in auto)
  then obtain s' where s': "handle_event K ev s = Inr s'" by blast
  moreover have "queue_contents (e_queue s') = []" if "ev = QueueReady True"
    using drain_empties [of s K s'] s' that inv by simp
  ultimately show ?thesis using handle_event_inv inv assms(4,5) by blast
qed

theorem engine_returns_to_epoll_witness:
  "\<exists>s s'. engine_step sender_ok map_kernel 0x10000 first_engine s \<and>
     handle_event map_kernel (PeerReadable 7 (map Chunk [encode_packet (ask MSG_REQUEST_PAGE_READ 2)] @ [RecvAgain])) s = Inr s' \<and>
     engine_inv s'"
proof -
  let ?s = "first_engine\<lparr>e_sessions := (e_sessions first_engine)(7 \<mapsto> fresh_session 7)\<rparr>"
  let ?p = "ask MSG_REQUEST_PAGE_READ 2"
  let ?ev = "PeerReadable 7 (map Chunk [encode_packet ?p] @ [RecvAgain])"
  have step: "engine_step sender_ok map_kernel 0x10000 first_engine ?s"
    by (rule engine_step.event [where ev = "ListenerReady [Accepted 7 True, NoneWaiting]"]) simp_all
  have ok: "packet_ok ?p" by (simp add: packet_ok_def ask_def make_packet_def)
  have ses: "e_sessions ?s 7 = Some (fresh_session 7)" by simp
  have fr: "frames PACKET_SIZE (received (fresh_session 7) @ concat [encode_packet ?p]) = ([encode_packet ?p], [])"
    using packets.frames_of_packets [of "[?p]" "[]"] ok by (simp add: PACKET_SIZE_def)
  have event: "event_ok ?ev ?s"
  proof -
    have "ends_loop RecvAgain False" "chunks_fit (bytes_read (fresh_session 7)) [encode_packet ?p]"
      using length_encode_packet [OF ok] by (auto simp: fresh_session_def PACKET_SIZE_def)
    then show ?thesis using ses unfolding event_ok.simps by blast
  qed
  have senders: "packets_ok sender_ok ?ev ?s"
    using fr ok by (auto simp: decode_encode_packet sender_ok_def valid_node_def map_eq_append_conv Cons_eq_append_conv)
  have node: "e_node ?s = e_node first_engine" by simp
  have "\<not> self_fault map_kernel (e_node first_engine) ?p"
    by (auto simp: self_fault_def first_engine_def prepare_node_def Let_def hub_def num_pages_def map_kernel_def)
  then have free: "unblocked map_kernel ?ev ?s"
    using fr ok by (auto simp: Cons_eq_append_conv decode_encode_packet map_eq_append_conv)
  have "(engine_step sender_ok map_kernel 0x10000)\<^sup>*\<^sup>* first_engine ?s" using step by (rule r_into_rtranclp)
  moreover have "queue_contents (e_queue first_engine) = []" by (simp add: first_engine_def)
  ultimately show ?thesis
    using engine_returns_to_epoll [OF _ first_engine_inv _ event senders free] step by blast
qed

end
