(* ===== verification/Waiting_Pages.thy ===== *)
theory Waiting_Pages
  imports Engine_Progress
begin

text \<open>
  The pages of a worker that wait for their contents, along the runs of the engine: the loop of the fault
  thread is a run of the engine's fault steps, and a page that waits has been asked for, by a request that
  is still in the queue or by a packet to the coordinator.
\<close>

section \<open>The fault thread as steps of the engine\<close>

definition with_fault_state :: "fault_state \<Rightarrow> 'm engine \<Rightarrow> 'm engine" where
  "with_fault_state f s = s\<lparr>e_queue := ft_queue f, e_node := (e_node s)\<lparr>page_table := ft_table f\<rparr>\<rparr>"

definition fault_view :: "'m engine \<Rightarrow> fault_state" where
  "fault_view s = \<lparr>ft_table = page_table (e_node s), ft_queue = e_queue s\<rparr>"

lemma with_fault_view [simp]:
  "fault_view (with_fault_state f s) = f" "with_fault_state (fault_view s) s = s"
  "with_fault_state f (with_fault_state g s) = with_fault_state f s"
  by (simp_all add: with_fault_state_def fault_view_def)

lemma fault_is_step:
  "handle_fault region 4096 rd (fault_view s) = Inr (b, f) \<Longrightarrow>
     engine_step ok K region s (with_fault_state f s)"
  unfolding with_fault_state_def fault_view_def by (rule engine_step.fault)

lemma fault_batch_steps:
  "fault_batch region 4096 rds (fault_view s) = Inr f \<Longrightarrow>
     (engine_step ok K region)\<^sup>*\<^sup>* s (with_fault_state f s)"
proof (induction rds arbitrary: s)
  case (Cons rd rds)
  then obtain b f1 where f1: "handle_fault region 4096 rd (fault_view s) = Inr (b, f1)"
    and rest: "(if b then fault_batch region 4096 rds f1 else Inr f1) = Inr f"
    by auto
  show ?case
  proof (cases b)
    case True
    then have "(engine_step ok K region)\<^sup>*\<^sup>* (with_fault_state f1 s) (with_fault_state f s)"
      using Cons.IH [of "with_fault_state f1 s"] rest by simp
    with fault_is_step [OF f1] show ?thesis by (rule converse_rtranclp_into_rtranclp)
  next
    case False
    then have "f1 = f" using rest by simp
    with fault_is_step [OF f1] show ?thesis by blast
  qed
qed auto

lemma fault_handler_steps:
  "fault_handler region 4096 batches (fault_view s) = Inr f \<Longrightarrow>
     (engine_step ok K region)\<^sup>*\<^sup>* s (with_fault_state f s)"
proof (induction batches arbitrary: s)
  case (Cons b batches)
  then obtain f1 where f1: "fault_batch region 4096 b (fault_view s) = Inr f1"
    and rest: "fault_handler region 4096 batches (fault_view (with_fault_state f1 s)) = Inr f"
    by auto
  show ?case
    using rtranclp_trans [OF fault_batch_steps [OF f1] Cons.IH [OF rest]] by simp
qed auto

section \<open>What no event changes\<close>

text \<open>
  The coordinator's socket stays or is lost, the log of sent packets grows, and no page starts to wait.
\<close>

definition calm :: "'m node \<Rightarrow> 'm node \<Rightarrow> bool" where
  "calm n0 n \<longleftrightarrow> coordinator_fd n \<in> {coordinator_fd n0, - 1} \<and> num_pages n = num_pages n0 \<and>
     prefix (sent_packets n0) (sent_packets n) \<and>
     (\<forall>i < num_pages n0. awaits (pt_status (page_table n ! i)) \<longrightarrow> awaits (pt_status (page_table n0 ! i)))"

lemma calm_refl [simp]: "calm n n"
  by (simp add: calm_def)

lemma calm_trans: "calm n n1 \<Longrightarrow> calm n1 n2 \<Longrightarrow> calm n n2"
  by (auto simp: calm_def)

lemma frame_calm: "frame n n1 \<Longrightarrow> calm n n1"
  by (auto simp: frame_def calm_def num_pages_def awaits_def)

lemma learn_calm [simp]: "calm n (learn_node_fd sender fd n)"
  by (simp add: calm_def learn_node_fd_def)

lemma forget_calm [simp]: "calm n (forget_fd fd n)"
  by (simp add: calm_def forget_fd_def)

lemma close_peer_calm: "calm n0 (e_node s) \<Longrightarrow> calm n0 (e_node (close_peer fd s))"
  using calm_trans [OF _ forget_calm] by (simp add: close_peer_def)

interpretation calm_peer: packet_service "dispatch K fd" "calm n0" "\<lambda>_. True" "\<lambda>n p. \<forall>n'. dispatch K fd n p \<noteq> Inr n'"
proof unfold_locales
  fix n p n'
  assume "calm n0 n" and "dispatch K fd n p = Inr n'"
  then show "calm n0 n'"
    using frame_dispatch [of K fd n p n'] frame_calm calm_trans learn_calm by metis
qed blast

lemma accept_loop_calm: "accept_loop rs s = Inr s' \<Longrightarrow> e_node s' = e_node s \<and> e_queue s' = e_queue s"
  by (induction rs s rule: accept_loop.induct) (auto split: if_splits)

lemma handle_event_calm:
  assumes "engine_shape s" and "event_ok ev s" and "handle_event K ev s = Inr s'"
  shows "calm (e_node s) (e_node s')"
proof (cases ev)
  case (ListenerReady rs)
  then show ?thesis using accept_loop_calm [of rs s s'] assms(3) by simp
next
  case (QueueReady ok)
  show ?thesis
  proof (cases ok)
    case True
    then have run: "queue_ready K True s = Inr s'" using QueueReady assms(3) by simp
    have "queue_inv (e_queue s)" using assms(1) by (simp add: engine_shape_def)
    from queue_ready_run [OF run this] obtain q n where "s' = s\<lparr>e_queue := q, e_node := n\<rparr>"
      "foldl (\<lambda>c r. andthen c (serve_local_request K r)) (Inr (e_node s)) (queue_contents (e_queue s)) = Inr n" .
    then show ?thesis using frame_calm [OF frame_requests [OF _ frame_refl]] by simp
  qed (use assms(3) QueueReady in \<open>simp add: queue_ready_def\<close>)
next
  case (PeerWritable fd ok)
  then show ?thesis
    using assms(3) close_peer_calm [of "e_node s" s fd] by (auto simp: peer_writable_def)
next
  case (PeerReadable fd answers)
  then have run: "peer_readable K fd answers s = Inr s'" "event_ok (PeerReadable fd answers) s"
    using assms(2,3) by simp_all
  obtain ses cs stop closed fs rest ses' n where ses: "e_sessions s fd = Some ses"
    and stop: "ends_loop stop closed" "chunks_fit (bytes_read ses) cs"
    and fr: "frames PACKET_SIZE (received ses @ concat cs) = (fs, rest)"
    and loop: "recv_loop (dispatch K fd) (map Chunk cs @ [stop]) ses (e_node s) = Inr (Some (closed, ses', n))"
    and s': "s' = (let s1 = s\<lparr>e_node := n, e_sessions := (e_sessions s)(fd \<mapsto> ses')\<rparr>
        in if closed then close_peer fd s1 else s1)"
    using peer_readable_run [OF assms(1) run] by metis
  have si: "session_inv ses" using assms(1) ses by (auto simp: engine_shape_def)
  have "calm (e_node s) n"
    using calm_peer.recv_loop_inv [OF stop(1) si stop(2) fr calm_refl _ loop] by simp
  then show ?thesis by (simp add: s' Let_def close_peer_calm)
qed

section \<open>Asked for\<close>

text \<open>Since \<open>n0\<close>, this node has sent the coordinator a request for page \<open>i\<close>.\<close>

definition asked_since :: "'m node \<Rightarrow> nat \<Rightarrow> 'm node \<Rightarrow> bool" where
  "asked_since n0 i n \<longleftrightarrow> (\<exists>p. (coordinator_fd n0, p) \<in> set (drop (length (sent_packets n0)) (sent_packets n)) \<and>
     pkt_type p \<in> {MSG_REQUEST_PAGE_READ, MSG_REQUEST_PAGE_WRITE} \<and> unat (pkt_page_index p) = i)"

definition queued :: "nat \<Rightarrow> request_queue \<Rightarrow> bool" where
  "queued i q \<longleftrightarrow> (\<exists>r \<in> set (queue_contents q). unat (rq_page_index r) = i)"

lemma asked_since_grows:
  "asked_since n0 i n \<Longrightarrow> prefix (sent_packets n0) (sent_packets n) \<Longrightarrow> prefix (sent_packets n) (sent_packets n1) \<Longrightarrow>
     asked_since n0 i n1"
  unfolding asked_since_def by (fastforce elim!: prefixE)

lemma worker_asks:
  assumes "coordinator_fd n = coordinator_fd n0" and "prefix (sent_packets n0) (sent_packets n)"
    and "r \<in> set rs" and "unat (rq_page_index r) = i"
    and "sent_packets n1 = sent_packets n @ map (\<lambda>r. (coordinator_fd n, local_request_packet n r)) rs"
  shows "asked_since n0 i n1"
proof -
  have "(coordinator_fd n0, local_request_packet n r) \<in> set (drop (length (sent_packets n0)) (sent_packets n1))"
    using assms by (auto elim!: prefixE)
  then show ?thesis
    unfolding asked_since_def
    by (intro exI [of _ "local_request_packet n r"] conjI)
      (use assms(4) in \<open>simp_all add: local_request_packet_def make_packet_def\<close>)
qed

text \<open>What holds after a run from \<open>s0\<close>, where page \<open>i\<close> does not wait.\<close>

definition accounted :: "'m engine \<Rightarrow> nat \<Rightarrow> 'm engine \<Rightarrow> bool" where
  "accounted s0 i s \<longleftrightarrow> engine_shape s \<and> num_pages (e_node s) = num_pages (e_node s0) \<and>
     prefix (sent_packets (e_node s0)) (sent_packets (e_node s)) \<and>
     (coordinator_fd (e_node s) \<noteq> - 1 \<longrightarrow> coordinator_fd (e_node s) = coordinator_fd (e_node s0) \<and>
        (awaits (pt_status (page_table (e_node s) ! i)) \<longrightarrow>
           queued i (e_queue s) \<or> asked_since (e_node s0) i (e_node s)))"

lemma accounted_drained:
  assumes "accounted s0 i s" and "i < num_pages (e_node s0)" and "engine_shape s'" and "calm (e_node s) (e_node s')"
    and "coordinator_fd (e_node s) \<noteq> - 1 \<Longrightarrow> queued i (e_queue s) \<Longrightarrow> \<not> queued i (e_queue s') \<Longrightarrow>
      asked_since (e_node s0) i (e_node s')"
  shows "accounted s0 i s'"
proof (cases "coordinator_fd (e_node s') = - 1")
  case False
  then have c: "coordinator_fd (e_node s) \<noteq> - 1" "coordinator_fd (e_node s') = coordinator_fd (e_node s)"
    using assms(4) by (auto simp: calm_def)
  have grows: "asked_since (e_node s0) i (e_node s) \<Longrightarrow> asked_since (e_node s0) i (e_node s')"
    using asked_since_grows assms(1,4) unfolding accounted_def calm_def by blast
  have "awaits (pt_status (page_table (e_node s) ! i))" if "awaits (pt_status (page_table (e_node s') ! i))"
    using that assms(1,2,4) by (simp add: accounted_def calm_def)
  then show ?thesis
    using assms(1,3,4) c grows assms(5) [OF c(1)] by (auto simp: accounted_def calm_def intro: prefix_order.trans)
qed (use assms(1,3,4) in \<open>auto simp: accounted_def calm_def intro: prefix_order.trans\<close>)

lemma accounted_event:
  assumes "accounted s0 i s" and "i < num_pages (e_node s0)" and "event_ok ev s" and "handle_event K ev s = Inr s'"
  shows "accounted s0 i s'"
proof -
  have shape: "engine_shape s" using assms(1) by (simp add: accounted_def)
  then have q: "queue_inv (e_queue s)" by (simp add: engine_shape_def)
  have asks: "asked_since (e_node s0) i (e_node s')"
    if c: "coordinator_fd (e_node s) \<noteq> - 1" and i: "queued i (e_queue s)" "\<not> queued i (e_queue s')"
  proof -
    obtain r where r: "r \<in> set (queue_contents (e_queue s))" "unat (rq_page_index r) = i"
      using i(1) by (auto simp: queued_def)
    have drained: "e_queue s' \<noteq> e_queue s" using i by auto
    then obtain ok where ev: "ev = QueueReady ok"
      using assms(4) by (cases ev) (auto simp: peer_writable_def close_peer_def peer_readable_def Let_def
          dest!: accept_loop_calm split: option.splits if_splits)
    with drained assms(4) have "queue_ready K True s = Inr s'" by (cases ok) (auto simp: queue_ready_def)
    from queue_ready_run [OF this q] obtain q' n where s': "s' = s\<lparr>e_queue := q', e_node := n\<rparr>"
      and n: "foldl (\<lambda>c r. andthen c (serve_local_request K r)) (Inr (e_node s)) (queue_contents (e_queue s)) = Inr n" .
    have "sent_packets n = sent_packets (e_node s) @
        map (\<lambda>r. (coordinator_fd (e_node s), local_request_packet (e_node s) r)) (queue_contents (e_queue s))"
      using n worker_drain [OF c, of K "queue_contents (e_queue s)"] by auto
    then have "asked_since (e_node s0) i n"
      using worker_asks [OF _ _ r, of "e_node s" "e_node s0" n] assms(1) c by (simp add: accounted_def)
    then show ?thesis by (simp add: s')
  qed
  show ?thesis
    by (rule accounted_drained [OF assms(1,2) handle_event_shape [OF shape assms(3,4)]
          handle_event_calm [OF shape assms(3,4)] asks])
qed

lemma accounted_request:
  assumes "accounted s0 i s" and "i < num_pages (e_node s0)" and "queue_pop (e_queue s) = (Some r, q)"
    and "serve_local_request K r (e_node s) = Inr n" and "engine_shape (s\<lparr>e_queue := q, e_node := n\<rparr>)"
  shows "accounted s0 i (s\<lparr>e_queue := q, e_node := n\<rparr>)"
proof (rule accounted_drained [OF assms(1,2,5)])
  show "calm (e_node s) (e_node (s\<lparr>e_queue := q, e_node := n\<rparr>))"
    using frame_calm [OF frame_local_request [OF assms(4) frame_refl]] by simp
next
  assume c: "coordinator_fd (e_node s) \<noteq> - 1" and i: "queued i (e_queue s)" "\<not> queued i (e_queue (s\<lparr>e_queue := q, e_node := n\<rparr>))"
  have "queue_inv (e_queue s)" using assms(1) by (simp add: accounted_def engine_shape_def)
  from popped_request(1) [OF this assms(3)] have r: "unat (rq_page_index r) = i"
    using i by (auto simp: queued_def)
  have "sent_packets n = sent_packets (e_node s) @ map (\<lambda>r. (coordinator_fd (e_node s), local_request_packet (e_node s) r)) [r]"
    using worker_drain [OF c, of K "[r]"] assms(4) by auto
  then show "asked_since (e_node s0) i (e_node (s\<lparr>e_queue := q, e_node := n\<rparr>))"
    using worker_asks [of "e_node s" "e_node s0" r "[r]" i n] assms(1) c r by (simp add: accounted_def)
qed

lemma accounted_step:
  assumes "engine_step ok K region s s'" and "accounted s0 i s" and "i < num_pages (e_node s0)"
    and "num_pages (e_node s0) \<le> 2 ^ 31"
  shows "accounted s0 i s'"
  using assms(1,2)
proof (induction rule: engine_step.induct)
  case (event ev s s')
  then show ?case using accounted_event assms(3) by blast
next
  case (request s r q n)
  have "engine_shape (s\<lparr>e_queue := q, e_node := n\<rparr>)"
    using engine_step_shape [OF engine_step.request [OF request(1,2), where ok = "\<lambda>_. True" and region = 0]] request(3)
    by (simp add: accounted_def)
  then show ?case using accounted_request request assms(3) by blast
next
  case (fault rd s b f)
  let ?s = "s\<lparr>e_queue := ft_queue f, e_node := (e_node s)\<lparr>page_table := ft_table f\<rparr>\<rparr>"
  have shape: "engine_shape ?s"
    using engine_step_shape [OF engine_step.fault [OF fault(1), where ok = "\<lambda>_. True" and K = K]] fault(2)
    by (simp add: accounted_def)
  have q: "queue_inv (ft_queue \<lparr>ft_table = page_table (e_node s), ft_queue = e_queue s\<rparr>)"
    "length (ft_table \<lparr>ft_table = page_table (e_node s), ft_queue = e_queue s\<rparr>) \<le> 2 ^ 31"
    using fault(2) assms(4) by (simp_all add: accounted_def engine_shape_def num_pages_def)
  note effect = handle_fault_awaits [OF fault(1) q] and len = fault_step(1) [OF fault(1)]
  have "queued i (ft_queue f)" if "queued i (e_queue s)"
    using that effect(1) by (auto simp: queued_def)
  moreover have "length (ft_table f) = num_pages (e_node s0)" "i < length (page_table (e_node s))"
    using len q(1) fault(2) assms(3) by (simp_all add: accounted_def num_pages_def)
  moreover have "asked_since n0 i ((e_node s)\<lparr>page_table := t\<rparr>) = asked_since n0 i (e_node s)" for n0 t
    by (simp add: asked_since_def)
  ultimately show ?case
    using fault(2) shape effect(2) [of i] unfolding accounted_def num_pages_def
    by (auto simp: queued_def)
next
  case (evict sends recvs s busy hand wire r w)
  let ?s = "s\<lparr>e_node := (e_node s)\<lparr>eviction_ring := ev_ring w, node_gpd := ev_gpd w, node_mem := ev_mem w\<rparr>\<rparr>"
  have "engine_shape ?s"
    using engine_step_shape [OF engine_step.evict [OF evict(1), where ok = "\<lambda>_. True" and region = 0]] evict(2)
    by (simp add: accounted_def)
  moreover have "calm (e_node s) (e_node ?s)" by (simp add: calm_def num_pages_def)
  ultimately show ?case by (rule accounted_drained [OF evict(2) assms(3)]) simp
qed

section \<open>Property\<close>

text \<open>C17. No page waits unasked. Follow any run of a worker, whatever the peers send, from a state in which
  page \<open>i\<close> does not wait (so, for a page that waits, from just before it last began to): if at the end the
  page waits (\<open>PAGE_PENDING\<close> or \<open>PAGE_WRITE_PENDING\<close>) and the connection to the coordinator is still there,
  then a request for the page is in the queue, or a read or write request for it has been sent to the
  coordinator since.\<close>

theorem pending_page_is_asked_for:
  assumes "(engine_step ok K region)\<^sup>*\<^sup>* s0 s" and "engine_inv s0" and "i < num_pages (e_node s0)"
    and "\<not> awaits (pt_status (page_table (e_node s0) ! i))" and "awaits (pt_status (page_table (e_node s) ! i))"
    and "coordinator_fd (e_node s) \<noteq> - 1"
  shows "(\<exists>r \<in> set (queue_contents (e_queue s)). unat (rq_page_index r) = i) \<or>
    (\<exists>pkt. (coordinator_fd (e_node s), pkt) \<in>
        set (drop (length (sent_packets (e_node s0))) (sent_packets (e_node s))) \<and>
      pkt_type pkt \<in> {MSG_REQUEST_PAGE_READ, MSG_REQUEST_PAGE_WRITE} \<and> unat (pkt_page_index pkt) = i)"
proof -
  have pages: "num_pages (e_node s0) \<le> 2 ^ 31" using assms(2) by (simp add: engine_inv_def node_inv_def)
  have "accounted s0 i s" using assms(1)
  proof (induction rule: rtranclp_induct)
    case base
    then show ?case using assms(2,4) by (simp add: accounted_def engine_inv_shape)
  next
    case (step s1 s2)
    then show ?case using accounted_step assms(3) pages by blast
  qed
  then show ?thesis using assms(5,6) by (auto simp: accounted_def queued_def asked_since_def)
qed

definition first_worker :: "(u64 \<Rightarrow> (page \<times> bool) option) engine" where
  "first_worker = first_engine\<lparr>e_node := e_node first_engine\<lparr>coordinator_fd := 9,
     page_table := init_page_table 0x10000 4096 1\<rparr>, e_sessions := [9 \<mapsto> fresh_session 9]\<rparr>"

lemma first_worker_inv: "engine_inv first_worker"
  using first_engine_inv
  by (auto simp: engine_inv_def first_worker_def first_engine_def sockets_open_def prepare_node_def Let_def hub_def
      node_inv_def num_pages_def NODE_SLOTS_def fresh_session_def session_inv_def PACKET_SIZE_def)

text \<open>A read fault, and then the queue wakes the engine, which asks the coordinator.\<close>

theorem pending_page_is_asked_for_witness:
  "\<exists>s p. (engine_step (\<lambda>_. True) map_kernel 0x10000)\<^sup>*\<^sup>* first_worker s \<and> awaits (pt_status (page_table (e_node s) ! 0)) \<and>
     queue_contents (e_queue s) = [] \<and> (9, p) \<in> set (sent_packets (e_node s)) \<and> unat (pkt_page_index p) = 0"
proof -
  let ?K = map_kernel and ?m = "MsgRead \<lparr>um_pagefault = True, um_address = 0x10005, um_write = False\<rparr>"
  have node: "page_table (e_node first_worker) = init_page_table 0x10000 4096 1" "e_queue first_worker = blank_queue"
    "coordinator_fd (e_node first_worker) = 9" "sent_packets (e_node first_worker) = []"
    by (simp_all add: first_worker_def first_engine_def prepare_node_def Let_def hub_def)
  have ok: "region_ok 0x10000 (length (ft_table (fault_view first_worker)))" "0 < length (ft_table (fault_view first_worker))"
    "queue_inv (ft_queue (fault_view first_worker))" "q_size (ft_queue (fault_view first_worker)) \<noteq> QUEUE_CAPACITY"
    "pt_status (ft_table (fault_view first_worker) ! 0) \<noteq> PAGE_VALID"
    by (simp_all add: fault_view_def node region_ok_def QUEUE_CAPACITY_def)
  obtain q where f: "handle_fault 0x10000 4096 ?m (fault_view first_worker) = Inr (True,
      \<lparr>ft_table = (ft_table (fault_view first_worker))[0 := (ft_table (fault_view first_worker) ! 0)\<lparr>pt_status := PAGE_PENDING\<rparr>],
       ft_queue = q\<rparr>)"
    and q: "queue_inv q" "queue_contents q = [\<lparr>rq_page_index = 0, rq_is_write = False\<rparr>]"
    by (rule fault_queued [OF ok(1,2) _ ok(3-5), of 5 False]) (simp_all add: fault_view_def node)
  let ?s1 = "with_fault_state \<lparr>ft_table = (ft_table (fault_view first_worker))[0 := (ft_table (fault_view first_worker) ! 0)\<lparr>pt_status := PAGE_PENDING\<rparr>],
       ft_queue = q\<rparr> first_worker"
  have s1: "e_queue ?s1 = q" "coordinator_fd (e_node ?s1) = 9" "sent_packets (e_node ?s1) = []"
    "pt_status (page_table (e_node ?s1) ! 0) = PAGE_PENDING"
    by (simp_all add: with_fault_state_def fault_view_def node)
  obtain q' n where d: "drain_queue ?K q (e_node ?s1) = Inr (q', n)" "queue_contents q' = []"
    "n = (e_node ?s1)\<lparr>sent_packets := map (\<lambda>r. (9, local_request_packet (e_node ?s1) r)) (queue_contents q)\<rparr>"
    using worker_drain_forwards_faults [OF q(1), of "e_node ?s1" ?K] s1 by auto
  let ?s2 = "?s1\<lparr>e_queue := q', e_node := n\<rparr>"
  have "handle_event ?K (QueueReady True) ?s1 = Inr ?s2" using d(1) s1(1) by (simp add: queue_ready_def)
  then have "engine_step (\<lambda>_. True) ?K 0x10000 ?s1 ?s2" by (intro engine_step.event [where ev = "QueueReady True"]) simp_all
  with fault_is_step [OF f, of "\<lambda>_. True" ?K] have run: "(engine_step (\<lambda>_. True) ?K 0x10000)\<^sup>*\<^sup>* first_worker ?s2"
    by (meson converse_rtranclp_into_rtranclp r_into_rtranclp)
  have end_: "awaits (pt_status (page_table (e_node ?s2) ! 0))" "coordinator_fd (e_node ?s2) = 9" "queue_contents (e_queue ?s2) = []"
    using s1 d by (simp_all add: awaits_def)
  have "\<exists>p. (9, p) \<in> set (sent_packets (e_node ?s2)) \<and> unat (pkt_page_index p) = 0"
    using pending_page_is_asked_for [OF run first_worker_inv, of 0] end_ node by (auto simp: num_pages_def awaits_def)
  then show ?thesis using run end_ by blast
qed

end
