(* ===== verification/Worker_Pages.thy ===== *)
theory Worker_Pages
  imports Waiting_Pages
begin

text \<open>
  What becomes of the pages of a worker. Its own directory never names an owner as long as nobody asks it for
  a write, which the coordinator of this program never does: it fetches with read requests only. So no page of
  a worker is ever in the local state \<open>STATE_MODIFIED\<close>, and an eviction writes nothing back.
\<close>

section \<open>A directory without owners\<close>

definition unowned :: "gpd \<Rightarrow> bool" where
  "unowned g \<longleftrightarrow> (\<forall>e \<in> set g. state e \<noteq> STATE_MODIFIED \<and> owner_node_id e = 0)"

lemma unowned_update: "unowned g \<Longrightarrow> state e \<noteq> STATE_MODIFIED \<Longrightarrow> owner_node_id e = 0 \<Longrightarrow> unowned (g[i := e])"
  using set_update_subset_insert [of g i e] by (auto simp: unowned_def)

lemma unowned_shared: "to_shared i r n = Inr (old, n') \<Longrightarrow> unowned (node_gpd n) \<Longrightarrow> unowned (node_gpd n')"
  by (auto simp: to_shared_def gpd_transition_to_shared_def Let_def intro!: unowned_update split: if_splits)

lemma unowned_set_local:
  assumes "set_local_msi_state node_id g idx STATE_INVALID = Inr g'" and "unowned g"
  shows "unowned g'"
proof (cases "unat idx < length g")
  case True
  then have "owner_node_id (g ! unat idx) = 0" using assms(2) by (simp add: unowned_def)
  then obtain e where "g' = g[unat idx := e]" "state e = STATE_INVALID" "owner_node_id e = 0"
    using assms(1) True by (auto simp: set_local_msi_state_def Let_def split: if_splits)
  then show ?thesis using unowned_update assms(2) by simp
qed (use assms in \<open>simp add: set_local_msi_state_def\<close>)

lemma unowned_local_state:
  assumes "unowned g" and "get_local_msi_state node_id g idx = Inr st"
  shows "st \<noteq> STATE_MODIFIED"
  using assms by (cases "unat idx < length g")
    (auto simp: get_local_msi_state_def gpd_get_state_def unowned_def split: if_splits)

section \<open>The handlers of a worker keep it\<close>

lemma pieces_gpd [simp]:
  "install_page K i bytes n = Inr n' \<Longrightarrow> node_gpd n' = node_gpd n"
  "lift_protection K i mark n = Inr n' \<Longrightarrow> node_gpd n' = node_gpd n"
  "put_pending i f n = Inr n' \<Longrightarrow> node_gpd n' = node_gpd n"
  "node_gpd (invalidate_local_page_copy K i n) = node_gpd n"
  "node_gpd (writeprotect_local_page_copy K i n) = node_gpd n"
  "node_gpd (send_packet fd p n) = node_gpd n"
  "node_gpd (learn_node_fd r fd n) = node_gpd n"
  by (auto simp: install_page_def lift_protection_def put_pending_def Let_def set_status_def invalidate_local_page_copy_def
      writeprotect_local_page_copy_def send_packet_def learn_node_fd_def split: option.splits)

lemma accept_page_gpd: "accept_page K pkt n = Inr n' \<Longrightarrow> node_gpd n' = node_gpd n"
  by (auto simp: accept_page_def Let_def split: if_splits)

lemma ack_gpd: "on_invalidate_ack K fd pkt n = Inr n' \<Longrightarrow> node_gpd n' = node_gpd n"
  by (auto simp: on_invalidate_ack_def release_grant_def Let_def split: if_splits)

lemma unowned_owner: "gpd_get_owner g i = Inr own \<Longrightarrow> unowned g \<Longrightarrow> own = 0"
  by (auto simp: gpd_get_owner_def get_at_def unowned_def split: if_splits)

lemma unowned_valid_read:
  "serve_valid_copy K fd idx r False n = Inr n' \<Longrightarrow> unowned (node_gpd n) \<Longrightarrow> unowned (node_gpd n')"
  by (auto simp: serve_valid_copy_def Let_def dest: unowned_shared split: if_splits)

lemma unowned_zero_read:
  "serve_zero_page K fd idx r False n = Inr n' \<Longrightarrow> unowned (node_gpd n) \<Longrightarrow> unowned (node_gpd n')"
  by (auto simp: serve_zero_page_def Let_def dest: unowned_shared)

lemma unowned_read_request:
  assumes "on_request K fd pkt n = Inr n'" and "pkt_type pkt \<noteq> MSG_REQUEST_PAGE_WRITE" and "unowned (node_gpd n)"
  shows "unowned (node_gpd n')"
proof (cases "unat (pkt_page_index pkt) < num_pages n")
  case True
  let ?n = "learn_node_fd (pkt_sender_node_id pkt) fd n"
  have u: "unowned (node_gpd ?n)" using assms(3) by simp
  have "serve_valid_copy K fd (pkt_page_index pkt) (pkt_sender_node_id pkt) False ?n = Inr n' \<or>
      serve_zero_page K fd (pkt_page_index pkt) (pkt_sender_node_id pkt) False ?n = Inr n'"
    using assms(1,2) True u
    by (auto simp: on_request_def Let_def owner_reachable_def dest!: unowned_owner split: if_splits)
  then show ?thesis using unowned_valid_read unowned_zero_read u by blast
qed (use assms in \<open>simp add: on_request_def Let_def\<close>)

lemma unowned_dispatch:
  assumes "dispatch K fd n pkt = Inr n'" and "coordinator_fd n \<noteq> - 1" and "pkt_type pkt \<noteq> MSG_REQUEST_PAGE_WRITE"
    and "unowned (node_gpd n)"
  shows "unowned (node_gpd n')"
  using assms unowned_read_request [OF _ assms(3,4)]
  by (auto simp: dispatch_def on_node_join_def on_send_page_def on_invalidate_eq accept_page_gpd ack_gpd Let_def
      split: if_splits)

interpretation worker: packet_service "dispatch K fd" "\<lambda>n. coordinator_fd n \<noteq> - 1 \<and> unowned (node_gpd n)"
  "\<lambda>p. pkt_type p \<noteq> MSG_REQUEST_PAGE_WRITE" "\<lambda>n p. \<forall>n'. dispatch K fd n p \<noteq> Inr n'"
proof unfold_locales
  fix n p n'
  assume a: "coordinator_fd n \<noteq> - 1 \<and> unowned (node_gpd n)" "pkt_type p \<noteq> MSG_REQUEST_PAGE_WRITE"
    "dispatch K fd n p = Inr n'"
  then have "coordinator_fd n' = coordinator_fd n"
    using frame_dispatch [OF a(3)] by (auto simp: frame_def learn_node_fd_def)
  then show "coordinator_fd n' \<noteq> - 1 \<and> unowned (node_gpd n')"
    using unowned_dispatch [OF a(3) _ a(2)] a(1) by simp
qed blast

section \<open>Every step keeps it\<close>

definition worker_inv :: "'m engine \<Rightarrow> bool" where
  "worker_inv s \<longleftrightarrow> engine_shape s \<and> (coordinator_fd (e_node s) \<noteq> - 1 \<longrightarrow> unowned (node_gpd (e_node s)))"

definition no_write_request :: "dsm_packet \<Rightarrow> bool" where
  "no_write_request p \<longleftrightarrow> pkt_type p \<noteq> MSG_REQUEST_PAGE_WRITE"

lemma worker_serves_gpd:
  "coordinator_fd n \<noteq> - 1 \<Longrightarrow> foldl (\<lambda>c r. andthen c (serve_local_request K r)) (Inr n) rs = Inr n' \<Longrightarrow>
     node_gpd n' = node_gpd n"
  using worker_drain [of n K rs] by auto

lemma unowned_event:
  assumes "worker_inv s" and "event_ok ev s" and "packets_ok no_write_request ev s" and "handle_event K ev s = Inr s'"
    and "coordinator_fd (e_node s') \<noteq> - 1"
  shows "unowned (node_gpd (e_node s'))"
proof -
  have shape: "engine_shape s" using assms(1) by (simp add: worker_inv_def)
  have c: "coordinator_fd (e_node s) \<noteq> - 1"
    using handle_event_calm [OF shape assms(2,4)] assms(5) by (auto simp: calm_def)
  then have u: "unowned (node_gpd (e_node s))" using assms(1) by (simp add: worker_inv_def)
  show ?thesis
  proof (cases ev)
    case (ListenerReady rs)
    then show ?thesis using accept_loop_calm [of rs s s'] assms(4) u by simp
  next
    case (QueueReady ok)
    show ?thesis
    proof (cases ok)
      case True
      then have run: "queue_ready K True s = Inr s'" using QueueReady assms(4) by simp
      have "queue_inv (e_queue s)" using shape by (simp add: engine_shape_def)
      from queue_ready_run [OF run this] show ?thesis
        by (rule) (use worker_serves_gpd [OF c] u in simp)
    qed (use assms(4) QueueReady u in \<open>simp add: queue_ready_def\<close>)
  next
    case (PeerWritable fd ok)
    then show ?thesis using assms(4) u by (auto simp: peer_writable_def close_peer_def forget_fd_def)
  next
    case (PeerReadable fd answers)
    then have run: "peer_readable K fd answers s = Inr s'" "event_ok (PeerReadable fd answers) s"
      using assms(2,4) by simp_all
    obtain ses cs stop closed fs rest ses' n where ses: "e_sessions s fd = Some ses"
      and ans: "answers = map Chunk cs @ [stop]"
      and stop: "ends_loop stop closed" "chunks_fit (bytes_read ses) cs"
      and fr: "frames PACKET_SIZE (received ses @ concat cs) = (fs, rest)"
      and loop: "recv_loop (dispatch K fd) (map Chunk cs @ [stop]) ses (e_node s) = Inr (Some (closed, ses', n))"
      and s': "s' = (let s1 = s\<lparr>e_node := n, e_sessions := (e_sessions s)(fd \<mapsto> ses')\<rparr>
          in if closed then close_peer fd s1 else s1)"
      using peer_readable_run [OF shape run] by metis
    have si: "session_inv ses" using shape ses by (auto simp: engine_shape_def)
    have ok: "\<forall>f \<in> set fs. pkt_type (decode_packet f) \<noteq> MSG_REQUEST_PAGE_WRITE"
      using assms(3) PeerReadable ses ans fr by (simp add: no_write_request_def)
    have "unowned (node_gpd n)"
      using worker.recv_loop_inv [OF stop(1) si stop(2) fr _ ok loop] c u by simp
    then show ?thesis by (simp add: s' Let_def close_peer_def forget_fd_def)
  qed
qed

lemma worker_step:
  assumes "engine_step no_write_request K region s s'" and "worker_inv s"
  shows "worker_inv s'"
proof -
  have "engine_shape s'" using engine_step_shape [OF assms(1)] assms(2) by (simp add: worker_inv_def)
  moreover have "coordinator_fd (e_node s') \<noteq> - 1 \<longrightarrow> unowned (node_gpd (e_node s'))"
    using assms
  proof (induction rule: engine_step.induct)
    case (event ev s s')
    then show ?case using unowned_event by blast
  next
    case (request s r q n)
    have "coordinator_fd n = coordinator_fd (e_node s)"
      using frame_local_request [OF request(2) frame_refl] by (simp add: frame_def)
    then show ?case
      using worker_serves_gpd [of "e_node s" K "[r]" n] request(2,3) by (auto simp: worker_inv_def)
  next
    case (evict sends recvs s busy hand wire r w)
    have "unowned (ev_gpd w)" if "unowned (node_gpd (e_node s))"
      using evict(1) by (rule execute_eviction_run)
        (use that in \<open>simp_all add: unowned_set_local [OF evict_victim_effect(3)]\<close>)
    then show ?case using evict(2) by (simp add: worker_inv_def)
  qed (simp add: worker_inv_def)
  ultimately show ?thesis by (simp add: worker_inv_def)
qed

section \<open>Property\<close>

text \<open>C22. A worker's eviction loses data. Take any run of a worker that starts with a fresh directory, in
  which nobody asks it for a write (the coordinator asks for reads only) and which still has its connection to
  the coordinator; it may have served reads and evicted before. A call of the eviction thread then writes
  nothing to the network, whatever the page it evicts holds, and its memory is gone.\<close>

theorem worker_eviction_loses_data:
  assumes "kernel_ok K" and "(engine_step no_write_request K region)\<^sup>*\<^sup>* s0 s" and "engine_shape s0"
    and "node_gpd (e_node s0) = replicate (num_pages (e_node s0)) fresh_entry" and "coordinator_fd (e_node s) \<noteq> - 1"
    and "ev_gpd w = node_gpd (e_node s)" and "dsm_execute_eviction K sends recvs node_id busy w = Inr (r, w')"
  shows "ev_wire w' = ev_wire w \<and> (r = 0 \<longrightarrow> (\<exists>page \<in> set (ev_ring w').
    lp_status page = 0 \<and> view K (ev_mem w') = (view K (ev_mem w))(lp_base_addr page := None)))"
proof -
  have "worker_inv s" using assms(2)
  proof (induction rule: rtranclp_induct)
    case base
    then show ?case using assms(3,4) by (simp add: worker_inv_def unowned_def fresh_entry_def)
  qed (use worker_step in blast)
  then have u: "unowned (ev_gpd w)" using assms(5,6) by (simp add: worker_inv_def)
  from assms(7) show ?thesis
  proof (cases rule: execute_eviction_run)
    case (victim i w1)
    note eff = evict_victim_effect [OF victim(2)]
    have "ev_wire w' = ev_wire w" using eff(4) unowned_local_state u victim(4,6) by metis
    moreover have "(ev_ring w1 ! i)\<lparr>lp_status := 0\<rparr> \<in> set (ev_ring w')"
      using victim(3) by (simp add: eff(1) set_update_memI)
    moreover have "view K (ev_mem w') = (view K (ev_mem w))(lp_base_addr (ev_ring w1 ! i) := None)"
      using eff(2) assms(1) victim(5) by simp
    ultimately show ?thesis by (intro conjI impI bexI [of _ "(ev_ring w1 ! i)\<lparr>lp_status := 0\<rparr>"]) simp_all
  qed simp
qed

text \<open>A worker that holds page 0 and has a fresh directory.\<close>

definition holding_worker :: "(u64 \<Rightarrow> (page \<times> bool) option) engine" where
  "holding_worker = first_worker\<lparr>e_node := e_node first_worker\<lparr>local_node_id := 2, node_gpd := [fresh_entry],
     page_table := [\<lparr>pt_base_addr = 0x10000, pt_status = PAGE_VALID\<rparr>],
     node_mem := [0x10000 \<mapsto> (replicate 4096 7, False)]\<rparr>\<rparr>"

lemma holding_worker_shape: "engine_shape holding_worker"
  using first_worker_inv unfolding engine_inv_shape
  by (auto simp: engine_shape_def holding_worker_def node_shape_def num_pages_def sockets_open_def first_worker_def
      first_engine_def prepare_node_def Let_def hub_def)

text \<open>It serves a read of page 0 to the coordinator, and then evicts the page.\<close>

theorem worker_eviction_loses_data_witness:
  "\<exists>s w w'. (engine_step no_write_request map_kernel 0x10000)\<^sup>*\<^sup>* holding_worker s \<and>
     sent_packets (e_node s) = [(9, make_packet MSG_SEND_PAGE 0 2 (replicate 4096 7))] \<and>
     ev_mem w 0x10000 = Some (replicate 4096 7, False) \<and> ev_gpd w = node_gpd (e_node s) \<and>
     dsm_execute_eviction map_kernel [] [] 2 (\<lambda>_ _. False) w = Inr (0, w') \<and> ev_wire w' = [] \<and> ev_mem w' 0x10000 = None"
proof -
  let ?K = map_kernel and ?p = "ask MSG_REQUEST_PAGE_READ 1" and ?n = "e_node holding_worker"
  let ?e = "fresh_entry\<lparr>state := STATE_SHARED, owner_node_id := 0, shared_nodes_bitmap := node_bit 1\<rparr>"
  let ?pkt = "make_packet MSG_SEND_PAGE 0 2 (replicate 4096 7)"
  have fields: "coordinator_fd ?n = 9" "sent_packets ?n = []" "node_gpd ?n = [fresh_entry]" "num_pages ?n = 1"
    "e_sessions holding_worker = [9 \<mapsto> fresh_session 9]" "local_node_id ?n = 2"
    "page_table ?n = [\<lparr>pt_base_addr = 0x10000, pt_status = PAGE_VALID\<rparr>]"
    "node_mem ?n = [0x10000 \<mapsto> (replicate 4096 7, False)]"
    by (simp_all add: holding_worker_def first_worker_def first_engine_def prepare_node_def Let_def hub_def num_pages_def)
  let ?n' = "(learn_node_fd 1 9 ?n)\<lparr>node_gpd := [?e], sent_packets := [(9, ?pkt)]\<rparr>"
  have d: "dispatch ?K 9 ?n ?p = Inr ?n'"
    using fields
    by (simp add: dispatch_def on_request_def Let_def gpd_get_owner_def serve_valid_copy_def to_shared_def
        gpd_transition_to_shared_def load_page_view send_packet_def learn_node_fd_def fresh_entry_def ask_def make_packet_def)
  let ?s = "holding_worker\<lparr>e_node := ?n'\<rparr>"
  have ok: "packet_ok ?p" by (simp add: packet_ok_def ask_def make_packet_def)
  have len: "length (encode_packet ?p) = PACKET_SIZE" using length_encode_packet [OF ok] .
  have ses: "e_sessions holding_worker 9 = Some (fresh_session 9)" "session_inv (fresh_session 9)"
    "bytes_read (fresh_session 9) = 0" "chunks_fit 0 [encode_packet ?p]"
    using fields(5) len by (auto simp: fresh_session_def session_inv_def PACKET_SIZE_def)
  obtain ses' where r: "peer_readable ?K 9 (map Chunk [encode_packet ?p] @ [RecvAgain]) holding_worker =
      Inr (holding_worker\<lparr>e_node := ?n', e_sessions := (e_sessions holding_worker)(9 \<mapsto> ses')\<rparr>)"
    by (rule peer_reads_packet [OF ses(1-3) ok _ ses(4) d]) simp
  let ?s = "holding_worker\<lparr>e_node := ?n', e_sessions := (e_sessions holding_worker)(9 \<mapsto> ses')\<rparr>"
  let ?ev = "PeerReadable 9 (map Chunk [encode_packet ?p] @ [RecvAgain])"
  have fr: "frames PACKET_SIZE (received (fresh_session 9) @ concat [encode_packet ?p]) = ([encode_packet ?p], [])"
    using packets.frames_of_packets [of "[?p]" "[]"] ok by (simp add: PACKET_SIZE_def)
  have ev: "event_ok ?ev holding_worker"
    using ses unfolding event_ok.simps
    by (intro exI [of _ "fresh_session 9"] exI [of _ "[encode_packet ?p]"] exI [of _ RecvAgain] exI [of _ False]) simp
  have "packets_ok no_write_request ?ev holding_worker"
    using fr ses(1) by (auto simp: no_write_request_def decode_encode_packet map_eq_append_conv Cons_eq_append_conv)
  then have step: "engine_step no_write_request ?K 0x10000 holding_worker ?s"
    by (rule engine_step.event [OF ev]) (use r in simp)
  have run: "(engine_step no_write_request ?K 0x10000)\<^sup>*\<^sup>* holding_worker ?s"
    using step by (rule r_into_rtranclp)
  let ?w = "\<lparr>ev_ring = init_eviction_ring 0x10000 4096 1, clock_hand = 0, ev_gpd = node_gpd (e_node ?s),
    ev_mem = node_mem (e_node ?s), ev_wire = []\<rparr>"
  have two: "ev_ring ?w \<noteq> []" "length (ev_ring ?w) * 2 = Suc (Suc 0)" by (simp_all add: init_eviction_ring_def)
  have "\<exists>w'. evict_loop ?K [] [] 2 (\<lambda>_ _. False) (Suc (Suc 0)) ?w = Inr (0, w') \<and>
      (\<forall>page \<in> set (ev_ring w'). lp_base_addr page = 0x10000)"
    by (simp add: init_eviction_ring_def evict_loop.simps Let_def evict_victim_def get_local_msi_state_def
        set_local_msi_state_def gpd_get_state_def gpd_get_shared_mask_def fresh_entry_def shl1_def)
  then obtain w' where w': "dsm_execute_eviction ?K [] [] 2 (\<lambda>_ _. False) ?w = Inr (0, w')"
    and base: "\<forall>page \<in> set (ev_ring w'). lp_base_addr page = 0x10000"
    using two by (auto simp: dsm_execute_eviction_def)
  have loses: "ev_wire w' = [] \<and> (\<exists>page \<in> set (ev_ring w').
      lp_status page = 0 \<and> view ?K (ev_mem w') = (view ?K (node_mem ?n))(lp_base_addr page := None))"
    using worker_eviction_loses_data [OF map_kernel_ok run holding_worker_shape _ _ _ w'] fields
    by (simp add: learn_node_fd_def NODE_SLOTS_def)
  have "ev_mem w' 0x10000 = None" using loses base by auto
  then show ?thesis
    using run w' loses fields by (intro exI [of _ ?s] exI [of _ ?w] exI [of _ w']) (auto simp: learn_node_fd_def NODE_SLOTS_def)
qed

end
