(* ===== verification/Net_Grants.thy ===== *)
theory Net_Grants
  imports Net_Effects
begin

text \<open>
  What a coordinator has handed out, read off the packets it has sent, against what its directory
  records. A node has been granted a page when the last \<open>MSG_SEND_PAGE\<close> or \<open>MSG_INVALIDATE\<close> for the
  page on its socket is a \<open>MSG_SEND_PAGE\<close>. Here the sockets stay open, each node speaks on its own
  socket, and the eviction thread is idle, which it is on a coordinator.
\<close>

section \<open>Grants in the log of sent packets\<close>

fun grant_step :: "nat \<Rightarrow> (int \<Rightarrow> bool) \<Rightarrow> int \<times> dsm_packet \<Rightarrow> int \<Rightarrow> bool" where
  "grant_step i G (fd, p) =
     (if unat (pkt_page_index p) \<noteq> i then G
      else if pkt_type p = MSG_SEND_PAGE then G(fd := True)
      else if pkt_type p = MSG_INVALIDATE then G(fd := False)
      else G)"

definition granted :: "(int \<times> dsm_packet) list \<Rightarrow> nat \<Rightarrow> int \<Rightarrow> bool" where
  "granted log i = foldl (grant_step i) (\<lambda>_. False) log"

lemma granted_Nil [simp]: "granted [] i = (\<lambda>_. False)"
  by (simp add: granted_def)

lemma granted_snoc [simp]: "granted (log @ [x]) i = grant_step i (granted log i) x"
  by (simp add: granted_def)

lemma granted_invalidates:
  "granted (log @ map (\<lambda>m. (fds ! m, make_packet MSG_INVALIDATE (of_nat j) 0 zero_page)) targets) i =
     (if unat (of_nat j :: u64) = i then (\<lambda>fd. granted log i fd \<and> fd \<notin> (!) fds ` set targets)
      else granted log i)"
proof (induction targets rule: rev_induct)
  case (snoc m targets)
  have "granted (log @ map (\<lambda>m. (fds ! m, make_packet MSG_INVALIDATE (of_nat j) 0 zero_page)) (targets @ [m])) i =
      grant_step i (granted (log @ map (\<lambda>m. (fds ! m, make_packet MSG_INVALIDATE (of_nat j) 0 zero_page)) targets) i)
        (fds ! m, make_packet MSG_INVALIDATE (of_nat j) 0 zero_page)"
    using granted_snoc [of "log @ map (\<lambda>m. (fds ! m, make_packet MSG_INVALIDATE (of_nat j) 0 zero_page)) targets"]
    by simp
  then show ?case using snoc by (auto simp: make_packet_def fun_eq_iff)
qed auto

section \<open>One page\<close>

text \<open>
  \<open>V\<close>: the other nodes; \<open>sock\<close>: their sockets; \<open>H\<close>: the recorded holders of the page; \<open>c\<close>: its
  pending entry; \<open>G\<close>: the grants. Recorded holders have a known socket, every granted node is a
  recorded holder, and so is the node a remembered grant will be sent to.
\<close>

definition pending_covered :: "nat set \<Rightarrow> (nat \<Rightarrow> int) \<Rightarrow> int list \<Rightarrow> nat set \<Rightarrow> coord_pending \<Rightarrow> bool" where
  "pending_covered V sock fds H c \<longleftrightarrow>
     (cp_expected_acks c \<noteq> 0 \<longrightarrow> (\<forall>v \<in> V. cp_client_fd c = sock v \<longrightarrow> v \<in> H)) \<and>
     (unat (cp_requester_node_id c) \<in> V \<longrightarrow> cp_client_fd c = sock (unat (cp_requester_node_id c)) \<and>
        fds ! unat (cp_requester_node_id c) = sock (unat (cp_requester_node_id c))) \<and>
     (cp_requester_node_id c \<noteq> 0 \<longrightarrow> unat (cp_requester_node_id c) \<notin> V \<longrightarrow> cp_client_fd c \<notin> sock ` V)"

definition page_covered ::
  "nat set \<Rightarrow> (nat \<Rightarrow> int) \<Rightarrow> int list \<Rightarrow> nat set \<Rightarrow> coord_pending \<Rightarrow> (int \<Rightarrow> bool) \<Rightarrow> bool" where
  "page_covered V sock fds H c G \<longleftrightarrow>
     (\<forall>v \<in> V. (v \<in> H \<longrightarrow> fds ! v = sock v) \<and> (G (sock v) \<longrightarrow> v \<in> H)) \<and> pending_covered V sock fds H c"

lemma page_covered_send:
  "page_covered V sock fds H c G \<Longrightarrow> \<forall>v \<in> V. fd = sock v \<longrightarrow> v \<in> H \<Longrightarrow>
     page_covered V sock fds H c (G(fd := True))"
  by (auto simp: page_covered_def)

lemma page_covered_read:
  "page_covered V sock fds H c G \<Longrightarrow> r \<in> V \<longrightarrow> fds ! r = sock r \<Longrightarrow>
     page_covered V sock fds (insert r H) c G"
  by (auto simp: page_covered_def pending_covered_def)

lemma page_covered_write:
  assumes "page_covered V sock fds H c G" and "r \<in> V \<longrightarrow> fds ! r = sock r"
    and "\<forall>v \<in> V. v \<in> H \<longrightarrow> v \<noteq> r \<longrightarrow> sock v \<in> told" and "pending_covered V sock fds {r} c'"
  shows "page_covered V sock fds {r} c' (\<lambda>fd. G fd \<and> fd \<notin> told)"
  using assms by (auto simp: page_covered_def)

lemma page_covered_pending:
  "page_covered V sock fds H c G \<Longrightarrow> pending_covered V sock fds H c' \<Longrightarrow> page_covered V sock fds H c' G"
  by (simp add: page_covered_def)

lemma page_covered_learn:
  assumes "page_covered V sock fds H c G"
  shows "page_covered V sock (fds[r := sock r]) H c G"
proof -
  have "fds[r := sock r] ! v = sock v" if "fds ! v = sock v" for v
    using that by (cases "v = r"; cases "r < length fds") (auto simp: list_update_beyond)
  then show ?thesis using assms by (auto simp: page_covered_def pending_covered_def)
qed

section \<open>All pages of a coordinator\<close>

definition other_nodes :: "'m node \<Rightarrow> nat set" where
  "other_nodes n = {v. 0 < v \<and> v < 64 \<and> v \<noteq> unat (local_node_id n)}"

definition covered :: "(nat \<Rightarrow> int) \<Rightarrow> 'm node \<Rightarrow> nat \<Rightarrow> bool" where
  "covered sock n i \<longleftrightarrow> page_covered (other_nodes n) sock (node_fds n) (gpd_holders (node_gpd n) i)
     (the (gpd_pending_reqs n) ! i) (granted (sent_packets n) i)"

definition grants_inv :: "(nat \<Rightarrow> int) \<Rightarrow> 'm node \<Rightarrow> bool" where
  "grants_inv sock n \<longleftrightarrow> node_inv n \<and> gpd_pending_reqs n \<noteq> None \<and> coordinator_fd n = - 1 \<and>
     gpd_inv (node_gpd n) \<and> (\<forall>i < num_pages n. covered sock n i)"

text \<open>Different nodes have different sockets, and none is \<open>-1\<close>.\<close>

definition own_sockets :: "(nat \<Rightarrow> int) \<Rightarrow> bool" where
  "own_sockets sock \<longleftrightarrow> inj_on sock {1..63} \<and> - 1 \<notin> sock ` {1..63}"

lemma own_socketsD:
  "own_sockets sock \<Longrightarrow> v \<in> other_nodes n \<Longrightarrow> sock v \<noteq> - 1"
  "own_sockets sock \<Longrightarrow> v \<in> other_nodes n \<Longrightarrow> w \<in> other_nodes n \<Longrightarrow> sock v = sock w \<longleftrightarrow> v = w"
proof -
  have mem: "v \<in> {1..63}" if "v \<in> other_nodes n" for v :: nat using that by (auto simp: other_nodes_def)
  show "own_sockets sock \<Longrightarrow> v \<in> other_nodes n \<Longrightarrow> sock v \<noteq> - 1"
    using mem [of v] by (force simp: own_sockets_def)
  show "own_sockets sock \<Longrightarrow> v \<in> other_nodes n \<Longrightarrow> w \<in> other_nodes n \<Longrightarrow> sock v = sock w \<longleftrightarrow> v = w"
    using mem [of v] mem [of w] by (auto simp: own_sockets_def inj_on_def)
qed

text \<open>A step that changes, of all this, only the page \<open>j\<close>.\<close>

lemma covered_elsewhere:
  assumes "grants_inv sock n" and "steady n n'" and "gpd_inv (node_gpd n')" and "j < num_pages n"
    and "\<forall>i. i \<noteq> j \<longrightarrow> node_gpd n' ! i = node_gpd n ! i"
    and "\<forall>i. i \<noteq> j \<longrightarrow> the (gpd_pending_reqs n') ! i = the (gpd_pending_reqs n) ! i"
    and "\<forall>i. i \<noteq> j \<longrightarrow> granted (sent_packets n') i = granted (sent_packets n) i"
    and "covered sock n' j"
  shows "grants_inv sock n'"
proof -
  have inv: "node_inv n" "node_inv n'" and same: "num_pages n' = num_pages n" "local_node_id n' = local_node_id n"
    "node_fds n' = node_fds n" "coordinator_fd n' = coordinator_fd n"
    "gpd_pending_reqs n' = None \<longleftrightarrow> gpd_pending_reqs n = None"
    using assms(1,2) by (auto simp: grants_inv_def steady_def kept_def)
  have len: "length (node_gpd n') = length (node_gpd n)"
    using inv same(1) by (simp add: node_inv_def)
  have "covered sock n' i" if "i < num_pages n'" for i
  proof (cases "i = j")
    case False
    then have "gpd_holders (node_gpd n') i = gpd_holders (node_gpd n) i"
      using assms(5) len by (simp add: gpd_holders_def)
    then show ?thesis
      using assms(1,6,7) False that same by (simp add: covered_def grants_inv_def other_nodes_def)
  qed (use assms(8) in simp)
  then show ?thesis using assms(1,3) inv(2) same by (simp add: grants_inv_def)
qed

section \<open>The pieces of the handlers\<close>

lemma grants_invD:
  "grants_inv sock n \<Longrightarrow> node_inv n" "grants_inv sock n \<Longrightarrow> gpd_pending_reqs n \<noteq> None"
  "grants_inv sock n \<Longrightarrow> coordinator_fd n = - 1" "grants_inv sock n \<Longrightarrow> gpd_inv (node_gpd n)"
  "grants_inv sock n \<Longrightarrow> i < num_pages n \<Longrightarrow> covered sock n i"
  by (simp_all add: grants_inv_def)

lemma grants_inv_pages:
  "grants_inv sock n \<Longrightarrow> length (node_gpd n) = num_pages n \<and> length (the (gpd_pending_reqs n)) = num_pages n"
  by (auto simp: grants_inv_def node_inv_def)

lemma grants_local:
  assumes "grants_inv sock n" and "local_change j n n'"
  shows "grants_inv sock n'"
proof -
  have "node_inv n'" "num_pages n' = num_pages n"
    using local_change_inv [OF assms(2)] local_change_pages [OF assms(2)] assms(1) by (simp_all add: grants_inv_def)
  then show ?thesis
    using assms by (simp add: grants_inv_def covered_def other_nodes_def local_change_def)
qed

lemma send_packet_simps [simp]:
  "node_inv (send_packet fd p n) \<longleftrightarrow> node_inv n" "num_pages (send_packet fd p n) = num_pages n"
  "node_fds (send_packet fd p n) = node_fds n" "node_gpd (send_packet fd p n) = node_gpd n"
  "gpd_pending_reqs (send_packet fd p n) = gpd_pending_reqs n"
  "local_node_id (send_packet fd p n) = local_node_id n" "coordinator_fd (send_packet fd p n) = coordinator_fd n"
  "sent_packets (send_packet fd p n) = sent_packets n @ [(fd, p)]"
  "other_nodes (send_packet fd p n) = other_nodes n"
  by (simp_all add: send_packet_def node_inv_def other_nodes_def cong: option.case_cong)

lemma grants_quiet:
  "grants_inv sock n \<Longrightarrow> pkt_type p \<noteq> MSG_SEND_PAGE \<Longrightarrow> pkt_type p \<noteq> MSG_INVALIDATE \<Longrightarrow>
     grants_inv sock (send_packet fd p n)"
  by (simp add: grants_inv_def covered_def)

lemma grants_send_page:
  assumes "grants_inv sock n" and "pkt_type p = MSG_SEND_PAGE"
    and "\<forall>v \<in> other_nodes n. fd = sock v \<longrightarrow> v \<in> gpd_holders (node_gpd n) (unat (pkt_page_index p))"
  shows "grants_inv sock (send_packet fd p n)"
proof -
  have "covered sock (send_packet fd p n) i" if "i < num_pages n" for i
    using grants_invD(5) [OF assms(1) that] assms(2,3)
      page_covered_send [of "other_nodes n" sock "node_fds n" "gpd_holders (node_gpd n) i"
        "the (gpd_pending_reqs n) ! i" "granted (sent_packets n) i" fd]
    by (cases "unat (pkt_page_index p) = i") (simp_all add: covered_def)
  then show ?thesis using assms(1) by (simp add: grants_inv_def)
qed

lemma grants_put_pending:
  assumes "grants_inv sock n" and "put_pending j f n = Inr n'" and "j < num_pages n"
    and "c = the (gpd_pending_reqs n) ! j"
    and "pending_covered (other_nodes n) sock (node_fds n) (gpd_holders (node_gpd n) j) c \<Longrightarrow>
      pending_covered (other_nodes n) sock (node_fds n) (gpd_holders (node_gpd n) j) (f c)"
    and "requester_ok c \<Longrightarrow> requester_ok (f c)"
  shows "grants_inv sock n'"
proof -
  obtain ps where ps: "gpd_pending_reqs n = Some ps" using grants_invD(2) [OF assms(1)] by blast
  have len: "length ps = num_pages n" using grants_inv_pages [OF assms(1)] ps by simp
  then have n': "n' = n\<lparr>gpd_pending_reqs := Some (ps[j := f c])\<rparr>"
    using assms(2-4) ps by (simp add: put_pending_def)
  have old: "\<forall>c \<in> set ps. requester_ok c"
    using grants_invD(1) [OF assms(1)] ps by (simp add: node_inv_def requester_ok_def)
  then have "\<forall>c \<in> set (ps[j := f c]). requester_ok c"
    using assms(3,4,6) ps len set_update_subset_insert [of ps j "f c"] by auto
  then have inv: "node_inv n'"
    using grants_invD(1) [OF assms(1)] ps n' by (simp add: node_inv_def requester_ok_def)
  have "covered sock n' i" if "i < num_pages n" for i
    using grants_invD(5) [OF assms(1) that] assms(3-5) ps len that
    by (cases "i = j") (auto simp: covered_def n' other_nodes_def page_covered_def)
  then show ?thesis using assms(1) inv n' by (simp add: grants_inv_def)
qed

lemma grants_learn:
  assumes "grants_inv sock n" and "unat s < 64 \<longrightarrow> fd = sock (unat s)"
  shows "grants_inv sock (learn_node_fd s fd n)"
proof (cases "unat s < NODE_SLOTS")
  case True
  have "covered sock (learn_node_fd s fd n) i" if "i < num_pages n" for i
    using grants_invD(5) [OF assms(1) that] True assms(2) page_covered_learn
    by (simp add: covered_def learn_node_fd_def other_nodes_def NODE_SLOTS_def)
  then show ?thesis
    using assms(1) True by (simp add: grants_inv_def learn_node_fd_def node_inv_def cong: option.case_cong)
qed (use assms(1) in \<open>simp add: learn_node_fd_def\<close>)

lemma to_shared_inv:
  assumes "grants_inv sock n" and "j < num_pages n" and "valid_node r" and "to_shared j r n = Inr (old, n')"
  obtains e where "n' = n\<lparr>node_gpd := (node_gpd n)[j := e]\<rparr>" and "entry_ok e"
    and "gpd_holders ((node_gpd n)[j := e]) j = insert (unat r) (gpd_holders (node_gpd n) j)"
proof -
  have j: "j < length (node_gpd n)" using grants_inv_pages [OF assms(1)] assms(2) by simp
  show thesis
    using to_shared_step [OF grants_invD(4) [OF assms(1)] j assms(3), of 0] assms(4) j that
    by (auto simp: to_shared_def gpd_holders_def)
qed

lemma to_modified_inv:
  assumes "grants_inv sock n" and "j < num_pages n" and "valid_node r" and "to_modified j r n = Inr (msk, n')"
  obtains e where "n' = n\<lparr>node_gpd := (node_gpd n)[j := e]\<rparr>" and "entry_ok e"
    and "gpd_holders ((node_gpd n)[j := e]) j = {unat r}"
    and "nodes_of msk = gpd_holders (node_gpd n) j - {unat r}"
proof -
  have j: "j < length (node_gpd n)" using grants_inv_pages [OF assms(1)] assms(2) by simp
  show thesis
    using to_modified_step [OF grants_invD(4) [OF assms(1)] j assms(3), of 0] assms(4) j that
    by (auto simp: to_modified_def gpd_holders_def)
qed

lemma grants_read:
  assumes "grants_inv sock n" and "j < num_pages n" and "valid_node r" and "to_shared j r n = Inr (old, n')"
    and "unat r \<in> other_nodes n \<longrightarrow> node_fds n ! unat r = sock (unat r)"
  shows "grants_inv sock n'" and "unat r \<in> gpd_holders (node_gpd n') j"
proof -
  obtain e where e: "n' = n\<lparr>node_gpd := (node_gpd n)[j := e]\<rparr>" "entry_ok e"
    "gpd_holders ((node_gpd n)[j := e]) j = insert (unat r) (gpd_holders (node_gpd n) j)"
    using to_shared_inv [OF assms(1-4)] .
  have "covered sock n' j"
    using page_covered_read assms(5) grants_invD(5) [OF assms(1,2)] e(1,3)
    by (simp add: covered_def other_nodes_def)
  moreover have "steady n n'" using to_shared_steady [OF assms(4) grants_invD(1) [OF assms(1)] assms(2,3)] .
  ultimately show "grants_inv sock n'"
    using e(1,2) gpd_inv_update [OF grants_invD(4) [OF assms(1)] e(2)]
    by (intro covered_elsewhere [OF assms(1) _ _ assms(2)]) simp_all
  show "unat r \<in> gpd_holders (node_gpd n') j" using e by simp
qed

section \<open>A write transaction\<close>

lemma pending_covered_narrow:
  "pending_covered V sock fds H c \<Longrightarrow> V \<inter> H \<subseteq> {r} \<Longrightarrow> pending_covered V sock fds {r} c"
  by (auto simp: pending_covered_def)

lemma grants_write:
  assumes inv: "grants_inv sock n" and own: "own_sockets sock" and j: "unat idx < num_pages n"
    and r: "valid_node r" "unat r \<in> other_nodes n \<longrightarrow> node_fds n ! unat r = sock (unat r)"
    and m: "to_modified (unat idx) r n = Inr (msk, n1)" and n2: "local_change (unat idx) n1 n2"
    and msk2: "nodes_of msk - {unat (local_node_id n)} \<subseteq> nodes_of msk2"
    and q: "q = None \<or> q = Some r"
    and c: "c = the (gpd_pending_reqs n) ! unat idx"
    and rem: "\<And>k. pending_covered (other_nodes n) sock (node_fds n) {unat r} ((remember c)\<lparr>cp_expected_acks := k\<rparr>)"
      "\<And>c. requester_ok c \<Longrightarrow> requester_ok (remember c)"
    and run: "invalidate_then_grant idx (inval_targets msk2 q n2) remember grant n2 = Inr n'"
    and grant: "grants_inv sock n2 \<Longrightarrow> unat r \<in> gpd_holders (node_gpd n2) (unat idx) \<Longrightarrow> grant n2 = Inr n' \<Longrightarrow>
      grants_inv sock n'"
  shows "grants_inv sock n'"
proof -
  let ?j = "unat idx" and ?V = "other_nodes n" and ?H = "gpd_holders (node_gpd n) (unat idx)"
  let ?T = "inval_targets msk2 q n2"
  obtain e where e: "n1 = n\<lparr>node_gpd := (node_gpd n)[?j := e]\<rparr>" "entry_ok e"
    "gpd_holders ((node_gpd n)[?j := e]) ?j = {unat r}" and msk: "nodes_of msk = ?H - {unat r}"
    using to_modified_inv [OF inv j r(1) m] .
  have same2: "node_fds n2 = node_fds n" "node_gpd n2 = (node_gpd n)[?j := e]" "sent_packets n2 = sent_packets n"
    "gpd_pending_reqs n2 = gpd_pending_reqs n" "other_nodes n2 = ?V" "local_node_id n2 = local_node_id n"
    using n2 e(1) by (simp_all add: local_change_def other_nodes_def)
  have steady2: "steady n n2"
    using to_modified_steady [OF m grants_invD(1) [OF inv] j r(1)] local_change_steady [OF n2] by (rule steady_trans)
  have gpd2: "gpd_inv (node_gpd n2)" using gpd_inv_update [OF grants_invD(4) [OF inv] e(2)] same2(2) by simp
  have cov: "page_covered ?V sock (node_fds n) ?H c (granted (sent_packets n) ?j)"
    using grants_invD(5) [OF inv j] c by (simp add: covered_def)
  have told: "\<forall>v \<in> ?V. v \<in> ?H \<longrightarrow> v \<noteq> unat r \<longrightarrow> v \<in> set ?T"
    using cov own_socketsD(1) [OF own] msk msk2 q
    by (auto simp: set_inval_targets same2 page_covered_def other_nodes_def)
  show ?thesis
  proof (cases "?T = []")
    case True
    then have "?V \<inter> ?H \<subseteq> {unat r}" using told by auto
    then have "pending_covered ?V sock (node_fds n) {unat r} c"
      using cov unfolding page_covered_def by (blast intro: pending_covered_narrow)
    then have "covered sock n2 ?j"
      using page_covered_write [OF cov r(2), of "{}" c] told True c e(3) same2 by (simp add: covered_def)
    then have "grants_inv sock n2"
      by (intro covered_elsewhere [OF inv steady2 gpd2 j]) (simp_all add: same2)
    then show ?thesis
      using grant run True e(3) same2(2) by (simp add: invalidate_then_grant_none)
  next
    case False
    obtain ps where ps: "gpd_pending_reqs n = Some ps" using grants_invD(2) [OF inv] by blast
    have len: "?j < length ps" using grants_inv_pages [OF inv] ps j by simp
    let ?c = "(remember c)\<lparr>cp_expected_acks := of_nat (length ?T)\<rparr>"
    let ?n3 = "n2\<lparr>gpd_pending_reqs := Some (ps[?j := ?c])\<rparr>"
    have n': "n' = send_invalidates ?j ?T ?n3"
      using invalidate_then_grant_some [OF refl False _ len, of n2 remember grant] run ps c same2(4) by simp
    have "put_pending ?j (\<lambda>c. (remember c)\<lparr>cp_expected_acks := of_nat (length ?T)\<rparr>) n2 = Inr ?n3"
      using ps c len same2(4) by (simp add: put_pending_def)
    then have "steady n2 ?n3" by (rule put_pending_steady') (use rem(2) in \<open>auto simp: requester_ok_def\<close>)
    then have steady': "steady n n'"
      unfolding n' using steady2 send_invalidates_steady steady_trans by blast
    have sent: "sent_packets n' = sent_packets n @
        map (\<lambda>m. (node_fds n ! m, make_packet MSG_INVALIDATE (of_nat ?j) 0 zero_page)) ?T"
      by (simp add: n' send_invalidates_def same2)
    have G: "granted (sent_packets n') i = (if ?j = i then
        (\<lambda>fd. granted (sent_packets n) i fd \<and> fd \<notin> (!) (node_fds n) ` set ?T) else granted (sent_packets n) i)" for i
      unfolding sent granted_invalidates by simp
    have socks: "\<forall>v \<in> ?V. v \<in> ?H \<longrightarrow> v \<noteq> unat r \<longrightarrow> sock v \<in> (!) (node_fds n) ` set ?T"
      using told cov by (auto simp: page_covered_def intro: rev_image_eqI)
    have "covered sock n' ?j"
      using page_covered_write [OF cov r(2) socks rem(1)] e(3) G [of ?j] len
      by (simp add: covered_def n' send_invalidates_def same2 other_nodes_def)
    then show ?thesis
      using G gpd2 by (intro covered_elsewhere [OF inv steady' _ j])
        (simp_all add: n' send_invalidates_def same2 ps)
  qed
qed

section \<open>Every handler keeps the grants covered\<close>

lemma self_not_other [simp]: "unat (local_node_id n) \<notin> other_nodes n"
  by (simp add: other_nodes_def)

lemma other_node: "valid_node r \<Longrightarrow> r \<noteq> local_node_id n \<Longrightarrow> unat r \<in> other_nodes n"
  by (auto simp: other_nodes_def valid_node_def word_unat_eq_iff)

lemma pending_of:
  assumes "grants_inv sock n" and "get_pending i n = Inr c" and "i < num_pages n"
  shows "c = the (gpd_pending_reqs n) ! i" and "requester_ok c"
    and "pending_covered (other_nodes n) sock (node_fds n) (gpd_holders (node_gpd n) i) c"
  using assms(2) grants_invD(5) [OF assms(1,3)] get_pending_ok [OF grants_invD(1) [OF assms(1)] assms(2)]
  by (auto simp: get_pending_def covered_def page_covered_def requester_ok_def split: option.splits)

lemma grants_forget_requester:
  assumes "grants_inv sock n" and "put_pending j (\<lambda>c. c\<lparr>cp_requester_node_id := 0\<rparr>) n = Inr n'"
    and "j < num_pages n"
  shows "grants_inv sock n'"
  by (rule grants_put_pending [OF assms refl])
    (auto simp: pending_covered_def other_nodes_def requester_ok_def)

lemma grants_deliver:
  assumes "deliver_fetched K r fd pkt n = Inr n'" and "grants_inv sock n" and "own_sockets sock"
    and "unat (pkt_page_index pkt) < num_pages n" and "pkt_type pkt = MSG_SEND_PAGE" and "valid_node r"
    and "unat r \<in> other_nodes n \<longrightarrow> fd = sock (unat r)"
    and "unat r \<in> gpd_holders (node_gpd n) (unat (pkt_page_index pkt))"
  shows "grants_inv sock n'"
proof -
  let ?j = "unat (pkt_page_index pkt)"
  obtain n1 where n1: "(if r = local_node_id n then install_page K ?j (pkt_payload pkt) n
        else Inr (send_packet fd pkt n)) = Inr n1"
    and n': "put_pending ?j (\<lambda>c. c\<lparr>cp_requester_node_id := 0\<rparr>) n1 = Inr n'"
    using assms(1) by (auto simp: deliver_fetched_def)
  have "grants_inv sock n1 \<and> num_pages n1 = num_pages n"
  proof (cases "r = local_node_id n")
    case True
    then have "local_change ?j n n1" using n1 install_page_change by simp
    then show ?thesis using grants_local [OF assms(2)] local_change_pages by blast
  next
    case False
    then have r: "unat r \<in> other_nodes n" using assms(6) other_node by blast
    have "\<forall>v \<in> other_nodes n. fd = sock v \<longrightarrow> v \<in> gpd_holders (node_gpd n) ?j"
      using own_socketsD(2) [OF assms(3) r] assms(7,8) r by metis
    then show ?thesis using grants_send_page [OF assms(2,5)] n1 False by auto
  qed
  then show ?thesis using grants_forget_requester [OF _ n'] assms(4) by simp
qed

lemma drop_own_copy_result:
  assumes "drop_own_copy K idx writer msk n = Inr (msk2, n2)"
  shows "local_change (unat idx) n n2" and "nodes_of msk - {unat (local_node_id n)} \<subseteq> nodes_of msk2"
    and "local_node_id n2 = local_node_id n"
proof -
  have refl: "local_change (unat idx) n n"
    by (auto simp: local_change_def intro: exI [of _ "pt_status (page_table n ! unat idx)"])
  show "local_change (unat idx) n n2" "nodes_of msk - {unat (local_node_id n)} \<subseteq> nodes_of msk2"
    using assms refl invalidate_change [of "unat idx" n K]
    by (auto simp: drop_own_copy_def nodes_of_and_not nodes_of_node_bit shl1_Inr_iff split: if_splits)
  then show "local_node_id n2 = local_node_id n" by (simp add: local_change_def)
qed

lemma grants_complete_fetch:
  assumes "complete_fetch K pkt c n = Inr n'" and "grants_inv sock n" and "own_sockets sock"
    and "unat (pkt_page_index pkt) < num_pages n" and "pkt_type pkt = MSG_SEND_PAGE"
    and "get_pending (unat (pkt_page_index pkt)) n = Inr c" and "cp_requester_node_id c \<noteq> 0"
  shows "grants_inv sock n'"
proof -
  let ?j = "unat (pkt_page_index pkt)" and ?r = "cp_requester_node_id c" and ?V = "other_nodes n"
  note pend = pending_of [OF assms(2,6,4)]
  have r: "valid_node ?r" using pend(2) assms(7) by (simp add: requester_ok_def)
  have fds: "unat ?r \<in> ?V \<longrightarrow> cp_client_fd c = sock (unat ?r)" "unat ?r \<in> ?V \<longrightarrow> node_fds n ! unat ?r = sock (unat ?r)"
    "unat ?r \<notin> ?V \<longrightarrow> cp_client_fd c \<notin> sock ` ?V"
    using pend(3) assms(7) by (auto simp: pending_covered_def)
  show ?thesis
  proof (cases "cp_type c = MSG_REQUEST_PAGE_WRITE")
    case True
    obtain msk n1 msk2 n2 where n1: "to_modified ?j ?r n = Inr (msk, n1)" and
      n2: "drop_own_copy K (pkt_page_index pkt) ?r msk n1 = Inr (msk2, n2)" and
      run: "invalidate_then_grant (pkt_page_index pkt) (inval_targets msk2 (Some ?r) n2)
        (\<lambda>c. c\<lparr>cp_deferred_payload := pkt_payload pkt\<rparr>)
        (deliver_fetched K ?r (cp_client_fd c) pkt) n2 = Inr n'"
      using assms(1) True by (auto simp: complete_fetch_def Let_def)
    have me: "local_node_id n1 = local_node_id n"
      using to_modified_steady [OF n1 grants_invD(1) [OF assms(2)] assms(4) r] steadyD(3) by blast
    have me2: "other_nodes n2 = ?V" "num_pages n2 = num_pages n"
      using drop_own_copy_result(3) [OF n2] me steadyD(2) [OF drop_own_copy_steady [OF n2]]
        steadyD(2) [OF to_modified_steady [OF n1 grants_invD(1) [OF assms(2)] assms(4) r]]
      by (simp_all add: other_nodes_def)
    have rem: "pending_covered ?V sock (node_fds n) {unat ?r} (c\<lparr>cp_deferred_payload := b, cp_expected_acks := k\<rparr>)" for b k
      using fds own_socketsD(2) [OF assms(3)] assms(7) by (auto simp: pending_covered_def)
    show ?thesis
    proof (rule grants_write [OF assms(2,3,4) r fds(2) n1 drop_own_copy_result(1) [OF n2] _ _ refl _ _ run])
      show "nodes_of msk - {unat (local_node_id n)} \<subseteq> nodes_of msk2"
        using drop_own_copy_result(2) [OF n2] me by simp
      show "pending_covered ?V sock (node_fds n) {unat ?r}
          ((the (gpd_pending_reqs n) ! ?j)\<lparr>cp_deferred_payload := pkt_payload pkt, cp_expected_acks := k\<rparr>)" for k
        using rem pend(1) by simp
      show "grants_inv sock n2 \<Longrightarrow> unat ?r \<in> gpd_holders (node_gpd n2) ?j \<Longrightarrow>
          deliver_fetched K ?r (cp_client_fd c) pkt n2 = Inr n' \<Longrightarrow> grants_inv sock n'"
        using grants_deliver [of K ?r "cp_client_fd c" pkt n2 n' sock] assms(3-5) r fds(1) me2 by simp
    qed (simp_all add: requester_ok_def)
  next
    case False
    then obtain old n1 where n1: "to_shared ?j ?r n = Inr (old, n1)" and
      run: "deliver_fetched K ?r (cp_client_fd c) pkt n1 = Inr n'"
      using assms(1) by (auto simp: complete_fetch_def Let_def)
    note s = to_shared_steady [OF n1 grants_invD(1) [OF assms(2)] assms(4) r]
    show ?thesis
      using grants_deliver [OF run grants_read(1) [OF assms(2,4) r n1 fds(2)] assms(3) _ assms(5) r]
        grants_read(2) [OF assms(2,4) r n1 fds(2)] steadyD(2,3) [OF s] assms(4) fds(1)
      by (simp add: other_nodes_def)
  qed
qed

lemma accept_page_change: "accept_page K pkt n = Inr n' \<Longrightarrow> n' = n \<or> local_change (unat (pkt_page_index pkt)) n n'"
  by (auto simp: accept_page_def Let_def install_page_change lift_protection_change split: if_splits)

lemma grants_accept: "grants_inv sock n \<Longrightarrow> accept_page K pkt n = Inr n' \<Longrightarrow> grants_inv sock n'"
  using accept_page_change grants_local by blast

lemma grants_on_send_page:
  assumes "on_send_page K fd pkt n = Inr n'" and "grants_inv sock n" and "own_sockets sock"
    and "pkt_type pkt = MSG_SEND_PAGE"
  shows "grants_inv sock n'"
proof (cases "unat (pkt_page_index pkt) < num_pages n")
  case True
  then obtain c where c: "get_pending (unat (pkt_page_index pkt)) n = Inr c"
    and run: "(if cp_requester_node_id c \<noteq> 0 then complete_fetch K pkt c n else accept_page K pkt n) = Inr n'"
    using assms(1) grants_invD(2,3) [OF assms(2)] by (auto simp: on_send_page_def Let_def)
  show ?thesis
  proof (cases "cp_requester_node_id c = 0")
    case False
    then show ?thesis using grants_complete_fetch [OF _ assms(2,3) True assms(4) c] run by simp
  qed (use run grants_accept [OF assms(2)] in simp)
qed (use assms in \<open>simp add: on_send_page_def Let_def\<close>)

lemma grants_release:
  assumes "release_grant K idx c n = Inr n'" and "grants_inv sock n" and "unat idx < num_pages n"
    and "\<forall>v \<in> other_nodes n. cp_client_fd c = sock v \<longrightarrow> v \<in> gpd_holders (node_gpd n) (unat idx)"
  shows "grants_inv sock n'"
proof -
  obtain p :: page_tracker and n1 where n1: "(if cp_requester_node_id c = local_node_id n then
          if pt_status p = PAGE_WRITE_PENDING then lift_protection K (unat idx) True n
          else install_page K (unat idx) (cp_deferred_payload c) n
        else Inr (send_packet (cp_client_fd c)
          (make_packet MSG_SEND_PAGE idx (local_node_id n) (cp_deferred_payload c)) n)) = Inr n1"
    and n': "put_pending (unat idx) (\<lambda>c. c\<lparr>cp_requester_node_id := 0\<rparr>) n1 = Inr n'"
    using assms(1) unfolding release_grant_def by (elim andthen_InrE) (rule that)
  have "grants_inv sock n1 \<and> num_pages n1 = num_pages n"
  proof (cases "cp_requester_node_id c = local_node_id n")
    case True
    then have "local_change (unat idx) n n1"
      using n1 install_page_change lift_protection_change by (auto split: if_splits)
    then show ?thesis using grants_local [OF assms(2)] local_change_pages by blast
  next
    case False
    then show ?thesis
      using n1 grants_send_page [OF assms(2), of "make_packet MSG_SEND_PAGE idx (local_node_id n) (cp_deferred_payload c)"]
        assms(4) by (auto simp: make_packet_def)
  qed
  then show ?thesis using grants_forget_requester [OF _ n'] assms(3) by simp
qed

lemma grants_on_invalidate_ack:
  assumes "on_invalidate_ack K fd pkt n = Inr n'" and "grants_inv sock n"
  shows "grants_inv sock n'"
proof (cases "unat (pkt_page_index pkt) < num_pages n")
  case True
  let ?j = "unat (pkt_page_index pkt)"
  obtain c :: coord_pending where c: "get_pending ?j n = Inr c"
    and step: "(if cp_expected_acks c > 0 then
            andthen (put_pending ?j (\<lambda>c. c\<lparr>cp_expected_acks := cp_expected_acks c - 1\<rparr>) n) (\<lambda>n1.
            andthen (get_pending ?j n1) (\<lambda>c1.
              if cp_expected_acks c1 = 0 then release_grant K (pkt_page_index pkt) c1 n1 else Inr n1))
          else Inr n) = Inr n'"
    using assms(1) grants_invD(2) [OF assms(2)] True unfolding on_invalidate_ack_def Let_def by auto
  show ?thesis
  proof (cases "cp_expected_acks c > 0")
    case pos: True
    then obtain n1 c1 where put: "put_pending ?j (\<lambda>c. c\<lparr>cp_expected_acks := cp_expected_acks c - 1\<rparr>) n = Inr n1"
      and c1: "get_pending ?j n1 = Inr c1"
      and run: "(if cp_expected_acks c1 = 0 then release_grant K (pkt_page_index pkt) c1 n1 else Inr n1) = Inr n'"
      using step unfolding if_P [OF pos] by blast
    note pend = pending_of [OF assms(2) c True]
    have acks: "\<forall>v \<in> other_nodes n. cp_client_fd c = sock v \<longrightarrow> v \<in> gpd_holders (node_gpd n) ?j"
      using pend(3) pos by (auto simp: pending_covered_def)
    have inv1: "grants_inv sock n1"
      by (rule grants_put_pending [OF assms(2) put True pend(1)])
        (use acks in \<open>auto simp: pending_covered_def requester_ok_def\<close>)
    have "c1 = c\<lparr>cp_expected_acks := cp_expected_acks c - 1\<rparr>"
      using put_then_get [OF put] c c1 by simp
    then have "\<forall>v \<in> other_nodes n1. cp_client_fd c1 = sock v \<longrightarrow> v \<in> gpd_holders (node_gpd n1) ?j"
      using acks put_pending_frame [OF put] by (simp add: other_nodes_def)
    then show ?thesis
      using grants_release [OF _ inv1] run inv1 put_pending_frame(9) [OF put] True
      by (cases "cp_expected_acks c1 = 0") auto
  qed (use step assms(2) in simp)
qed (use assms in \<open>simp add: on_invalidate_ack_def Let_def\<close>)

lemma grants_on_invalidate:
  assumes "on_invalidate K fd pkt n = Inr n'" and "grants_inv sock n"
  shows "grants_inv sock n'"
proof (cases "unat (pkt_page_index pkt) < num_pages n")
  case True
  let ?n1 = "invalidate_local_page_copy K (unat (pkt_page_index pkt)) n"
  have "grants_inv sock ?n1" using grants_local [OF assms(2) invalidate_change] .
  then show ?thesis
    using assms(1) True grants_quiet [of sock ?n1]
    by (auto simp: on_invalidate_eq Let_def invalidate_local_page_copy_def make_packet_def)
qed (use assms in \<open>simp add: on_invalidate_eq Let_def\<close>)

section \<open>Requests\<close>

text \<open>The entry that remembers the request of another node on its own socket.\<close>

lemma request_remembered:
  assumes "own_sockets sock" and "unat r \<in> other_nodes n" and "node_fds n ! unat r = sock (unat r)"
    and "cp_requester_node_id c = r" and "cp_client_fd c = sock (unat r)"
  shows "pending_covered (other_nodes n) sock (node_fds n) {unat r} c"
  using assms own_socketsD(2) [OF assms(1)] by (auto simp: pending_covered_def)

lemma reply_covered:
  assumes "grants_inv sock n" and "own_sockets sock" and "unat r \<in> other_nodes n"
    and "unat r \<in> gpd_holders (node_gpd n) (unat idx)"
  shows "grants_inv sock (send_packet (sock (unat r)) (make_packet MSG_SEND_PAGE idx me bytes) n)"
  using assms own_socketsD(2) [OF assms(2,3)]
  by (intro grants_send_page) (auto simp: make_packet_def)

lemma grants_serve_valid:
  assumes "serve_valid_copy K fd idx r w n = Inr n'" and "grants_inv sock n" and "own_sockets sock"
    and "unat idx < num_pages n" and "valid_node r" and "unat r \<in> other_nodes n"
    and "fd = sock (unat r)" and "node_fds n ! unat r = sock (unat r)"
  shows "grants_inv sock n'"
proof -
  let ?j = "unat idx" and ?V = "other_nodes n"
  obtain p :: page_tracker and bytes where p: "get_at (page_table n) ?j = Inr p"
    and bytes: "load_page K (node_mem n) (pt_base_addr p) = Inr bytes"
    using assms(1) unfolding serve_valid_copy_def by (elim andthen_InrE) (rule that)
  let ?reply = "make_packet MSG_SEND_PAGE idx (local_node_id n) bytes"
  note inv = grants_invD(1) [OF assms(2)]
  show ?thesis
  proof (cases w)
    case True
    let ?mem = "\<lambda>c. c\<lparr>cp_requester_node_id := r, cp_type := MSG_REQUEST_PAGE_WRITE, cp_client_fd := fd,
      cp_deferred_payload := bytes\<rparr>"
    obtain msk n1 own_bit where n1: "to_modified ?j r n = Inr (msk, n1)"
      and bit: "shl1 (local_node_id (invalidate_local_page_copy K ?j n1)) = Inr own_bit"
      and run: "invalidate_then_grant idx
          (inval_targets (msk AND NOT own_bit) (Some r) (invalidate_local_page_copy K ?j n1)) ?mem
          (\<lambda>n3. Inr (send_packet fd ?reply n3)) (invalidate_local_page_copy K ?j n1) = Inr n'"
      using assms(1) True p bytes by (auto simp: serve_valid_copy_def Let_def)
    let ?n2 = "invalidate_local_page_copy K ?j n1"
    have me: "local_node_id n1 = local_node_id n" "local_node_id ?n2 = local_node_id n1"
      using steadyD(3) [OF to_modified_steady [OF n1 inv assms(4,5)]] invalidate_change [of ?j n1 K]
      by (simp_all add: local_change_def)
    show ?thesis
    proof (rule grants_write [OF assms(2,3,4,5) _ n1 invalidate_change [of ?j n1 K] _ _ refl _ _ run])
      show "nodes_of msk - {unat (local_node_id n)} \<subseteq> nodes_of (msk AND NOT own_bit)"
        using bit me by (auto simp: nodes_of_and_not shl1_Inr_iff nodes_of_node_bit)
      show "pending_covered ?V sock (node_fds n) {unat r} ((?mem (the (gpd_pending_reqs n) ! ?j))\<lparr>cp_expected_acks := k\<rparr>)" for k
        using request_remembered [OF assms(3,6,8)] assms(7) by simp
      show "grants_inv sock ?n2 \<Longrightarrow> unat r \<in> gpd_holders (node_gpd ?n2) ?j \<Longrightarrow>
          Inr (send_packet fd ?reply ?n2) = Inr n' \<Longrightarrow> grants_inv sock n'"
        using reply_covered [of sock ?n2 r idx] assms(3,6,7) me by (auto simp: other_nodes_def)
    qed (use assms(5,8) in \<open>auto simp: requester_ok_def\<close>)
  next
    case False
    obtain old n1 where n1: "to_shared ?j r n = Inr (old, n1)"
      and n': "n' = send_packet fd ?reply
        (if old = local_node_id n1 then writeprotect_local_page_copy K ?j n1 else n1)"
      using assms(1) False p bytes by (auto simp: serve_valid_copy_def Let_def)
    let ?n2 = "if old = local_node_id n1 then writeprotect_local_page_copy K ?j n1 else n1"
    have r: "unat r \<in> ?V \<longrightarrow> node_fds n ! unat r = sock (unat r)" using assms(8) by simp
    note rd = grants_read [OF assms(2,4,5) n1 r]
    have "grants_inv sock ?n2" using rd(1) grants_local [OF rd(1) writeprotect_change] by simp
    moreover have "unat r \<in> gpd_holders (node_gpd ?n2) ?j" "other_nodes ?n2 = ?V"
      using rd(2) writeprotect_change [of ?j n1 K] steadyD(3) [OF to_shared_steady [OF n1 inv assms(4,5)]]
      by (auto simp: local_change_def other_nodes_def)
    ultimately show ?thesis
      using reply_covered [of sock ?n2 r idx] assms(3,6,7) n' by simp
  qed
qed

lemma grants_serve_zero:
  assumes "serve_zero_page K fd idx r w n = Inr n'" and "grants_inv sock n" and "own_sockets sock"
    and "unat idx < num_pages n" and "valid_node r" and "unat r \<in> other_nodes n"
    and "fd = sock (unat r)" and "node_fds n ! unat r = sock (unat r)"
  shows "grants_inv sock n'"
proof -
  let ?j = "unat idx" and ?V = "other_nodes n"
  let ?reply = "make_packet MSG_SEND_PAGE idx (local_node_id n) zero_page"
  note inv = grants_invD(1) [OF assms(2)]
  show ?thesis
  proof (cases w)
    case True
    let ?mem = "\<lambda>c. c\<lparr>cp_requester_node_id := r, cp_type := MSG_REQUEST_PAGE_WRITE, cp_client_fd := fd,
      cp_deferred_payload := zero_page\<rparr>"
    obtain msk n1 msk2 n2 where n1: "to_modified ?j r n = Inr (msk, n1)"
      and n2: "drop_own_copy K idx r msk n1 = Inr (msk2, n2)"
      and run: "invalidate_then_grant idx (inval_targets msk2 (Some r) n2) ?mem
          (\<lambda>n3. Inr (send_packet fd ?reply n3)) n2 = Inr n'"
      using assms(1) True by (auto simp: serve_zero_page_def Let_def)
    have me: "local_node_id n1 = local_node_id n"
      using steadyD(3) [OF to_modified_steady [OF n1 inv assms(4,5)]] .
    show ?thesis
    proof (rule grants_write [OF assms(2,3,4,5) _ n1 drop_own_copy_result(1) [OF n2] _ _ refl _ _ run])
      show "nodes_of msk - {unat (local_node_id n)} \<subseteq> nodes_of msk2"
        using drop_own_copy_result(2) [OF n2] me by simp
      show "pending_covered ?V sock (node_fds n) {unat r} ((?mem (the (gpd_pending_reqs n) ! ?j))\<lparr>cp_expected_acks := k\<rparr>)" for k
        using request_remembered [OF assms(3,6,8)] assms(7) by simp
      show "grants_inv sock n2 \<Longrightarrow> unat r \<in> gpd_holders (node_gpd n2) ?j \<Longrightarrow>
          Inr (send_packet fd ?reply n2) = Inr n' \<Longrightarrow> grants_inv sock n'"
        using reply_covered [of sock n2 r idx] assms(3,6,7) me drop_own_copy_result(3) [OF n2]
        by (auto simp: other_nodes_def)
    qed (use assms(5,8) in \<open>auto simp: requester_ok_def\<close>)
  next
    case False
    obtain old n1 where n1: "to_shared ?j r n = Inr (old, n1)" and n': "n' = send_packet fd ?reply n1"
      using assms(1) False by (auto simp: serve_zero_page_def Let_def)
    have r: "unat r \<in> ?V \<longrightarrow> node_fds n ! unat r = sock (unat r)" using assms(8) by simp
    note rd = grants_read [OF assms(2,4,5) n1 r]
    have "other_nodes n1 = ?V"
      using steadyD(3) [OF to_shared_steady [OF n1 inv assms(4,5)]] by (simp add: other_nodes_def)
    then show ?thesis
      using reply_covered [OF rd(1) assms(3) _ rd(2)] assms(6,7) n' by simp
  qed
qed

lemma grants_fetch:
  assumes "fetch_from_owner idx own r ty fd n = Inr n'" and "grants_inv sock n" and "own_sockets sock"
    and "unat idx < num_pages n" and "valid_node r"
    and "unat r \<in> other_nodes n \<longrightarrow> fd = sock (unat r) \<and> node_fds n ! unat r = sock (unat r)"
    and "unat r \<notin> other_nodes n \<longrightarrow> fd = - 1"
  shows "grants_inv sock n'"
proof -
  obtain n1 where put: "put_pending (unat idx) (\<lambda>c. c\<lparr>cp_requester_node_id := r, cp_type := ty,
      cp_client_fd := fd, cp_expected_acks := 0\<rparr>) n = Inr n1"
    and n': "\<exists>fd'. n' = send_packet fd' (make_packet MSG_REQUEST_PAGE_READ idx (local_node_id n1) zero_page) n1"
    using assms(1) grants_invD(2) [OF assms(2)] by (auto simp: fetch_from_owner_def)
  have "- 1 \<notin> sock ` other_nodes n" using own_socketsD(1) [OF assms(3)] by force
  then have "grants_inv sock n1"
    using assms(5-7) by (intro grants_put_pending [OF assms(2) put assms(4) refl])
      (auto simp: pending_covered_def requester_ok_def)
  then show ?thesis using n' by (auto simp: make_packet_def intro!: grants_quiet)
qed

lemma grants_on_request:
  assumes "on_request K fd pkt n = Inr n'" and "grants_inv sock n" and "own_sockets sock"
    and "valid_node (pkt_sender_node_id pkt)" and "unat (pkt_sender_node_id pkt) \<in> other_nodes n"
    and "fd = sock (unat (pkt_sender_node_id pkt))"
  shows "grants_inv sock n'"
proof (cases "unat (pkt_page_index pkt) < num_pages n")
  case True
  let ?r = "pkt_sender_node_id pkt" and ?idx = "pkt_page_index pkt"
  let ?n1 = "learn_node_fd ?r fd n"
  have inv1: "grants_inv sock ?n1" using grants_learn [OF assms(2)] assms(6) by simp
  have n1: "other_nodes ?n1 = other_nodes n" "num_pages ?n1 = num_pages n"
    by (simp_all add: learn_node_fd_def other_nodes_def)
  have slots: "length (node_fds n) = 64" using grants_invD(1) [OF assms(2)] by (simp add: node_inv_def NODE_SLOTS_def)
  then have fds: "node_fds ?n1 ! unat ?r = sock (unat ?r)"
    using assms(4,6) by (simp add: learn_node_fd_def NODE_SLOTS_def valid_node_def)
  obtain own :: u32 and p :: page_tracker where step:
    "(if pt_status p = PAGE_VALID then serve_valid_copy K fd ?idx ?r (pkt_type pkt = MSG_REQUEST_PAGE_WRITE) ?n1
      else andthen (owner_reachable own ?n1) (\<lambda>reachable.
        if reachable \<and> own \<noteq> ?r then fetch_from_owner ?idx own ?r (pkt_type pkt) fd ?n1
        else serve_zero_page K fd ?idx ?r (pkt_type pkt = MSG_REQUEST_PAGE_WRITE) ?n1)) = Inr n'"
    using assms(1) True unfolding on_request_def Let_def if_P [OF True] by (elim andthen_InrE) (rule that)
  note side = inv1 assms(3) True [folded n1(2)] assms(4)
  have V: "unat ?r \<in> other_nodes ?n1" using assms(5) n1(1) by simp
  show ?thesis
  proof (cases "pt_status p = PAGE_VALID")
    case True
    then show ?thesis using grants_serve_valid [OF _ side V assms(6) fds] step by simp
  next
    case False
    obtain reachable where "(if reachable \<and> own \<noteq> ?r then fetch_from_owner ?idx own ?r (pkt_type pkt) fd ?n1
        else serve_zero_page K fd ?idx ?r (pkt_type pkt = MSG_REQUEST_PAGE_WRITE) ?n1) = Inr n'"
      using step unfolding if_not_P [OF False] by (elim andthen_InrE) (rule that)
    then show ?thesis
      using grants_fetch [OF _ side] grants_serve_zero [OF _ side V assms(6) fds] V assms(6) fds
      by (auto split: if_splits)
  qed
qed (use assms in \<open>simp add: on_request_def Let_def\<close>)

section \<open>The coordinator's own faults\<close>

text \<open>
  The one step that can leave a holder behind: a write fault of the coordinator on a page it has no
  copy of and whose owner cannot be asked, while other nodes are recorded as holders.
\<close>

definition blind_write :: "page_request \<Rightarrow> 'm node \<Rightarrow> bool" where
  "blind_write r n \<longleftrightarrow> rq_is_write r \<and>
     pt_status (page_table n ! unat (rq_page_index r)) \<notin> {PAGE_VALID, PAGE_WRITE_PENDING} \<and>
     owner_reachable (owner_node_id (node_gpd n ! unat (rq_page_index r))) n = Inr False \<and>
     gpd_holders (node_gpd n) (unat (rq_page_index r)) \<inter> other_nodes n \<noteq> {}"

lemma local_change_refl: "local_change i n n"
  by (auto simp: local_change_def intro: exI [of _ "pt_status (page_table n ! i)"])

lemma grants_upgrade:
  assumes "upgrade_local_copy K idx n = Inr n'" and "grants_inv sock n" and "own_sockets sock"
    and "unat idx < num_pages n"
  shows "grants_inv sock n'"
proof -
  let ?me = "local_node_id n"
  have me: "valid_node ?me" using grants_invD(1) [OF assms(2)] by (simp add: node_inv_def)
  obtain msk n1 where n1: "to_modified (unat idx) ?me n = Inr (msk, n1)"
    and run: "invalidate_then_grant idx (inval_targets msk None n1)
         (\<lambda>c. c\<lparr>cp_requester_node_id := local_node_id n1, cp_type := MSG_REQUEST_PAGE_WRITE,
                cp_client_fd := - 1\<rparr>) (lift_protection K (unat idx) False) n1 = Inr n'"
    using assms(1) by (auto simp: upgrade_local_copy_def)
  have same: "local_node_id n1 = ?me"
    using steadyD(3) [OF to_modified_steady [OF n1 grants_invD(1) [OF assms(2)] assms(4) me]] .
  have none: "- 1 \<notin> sock ` other_nodes n" using own_socketsD(1) [OF assms(3)] by force
  show ?thesis
  proof (rule grants_write [OF assms(2,3,4) me _ n1 local_change_refl _ _ refl _ _ run])
    show "pending_covered (other_nodes n) sock (node_fds n) {unat ?me}
        ((the (gpd_pending_reqs n) ! unat idx)\<lparr>cp_requester_node_id := local_node_id n1,
          cp_type := MSG_REQUEST_PAGE_WRITE, cp_client_fd := - 1, cp_expected_acks := k\<rparr>)" for k
      using none same by (auto simp: pending_covered_def)
    show "grants_inv sock n1 \<Longrightarrow> unat ?me \<in> gpd_holders (node_gpd n1) (unat idx) \<Longrightarrow>
        lift_protection K (unat idx) False n1 = Inr n' \<Longrightarrow> grants_inv sock n'"
      using grants_local lift_protection_change by blast
  qed (use me same in \<open>auto simp: requester_ok_def\<close>)
qed

lemma grants_install_zero:
  assumes "install_zero_page K idx w n = Inr n'" and "grants_inv sock n" and "unat idx < num_pages n"
    and "w \<longrightarrow> gpd_holders (node_gpd n) (unat idx) \<inter> other_nodes n = {}"
  shows "grants_inv sock n'"
proof -
  let ?j = "unat idx"
  obtain n1 where n1: "install_page K ?j zero_page n = Inr n1"
    and run: "(if w then andthen (to_modified ?j (local_node_id n1) n1) (\<lambda>(_, n2). Inr n2)
       else andthen (to_shared ?j (local_node_id n1) n1) (\<lambda>(_, n2). Inr n2)) = Inr n'"
    using assms(1) by (auto simp: install_zero_page_def)
  note ch = install_page_change [OF n1]
  have inv1: "grants_inv sock n1" using grants_local [OF assms(2) ch] .
  have j: "?j < num_pages n1" using local_change_pages [OF ch] assms(3) by simp
  have me: "valid_node (local_node_id n1)" using grants_invD(1) [OF inv1] by (simp add: node_inv_def)
  show ?thesis
  proof (cases w)
    case True
    then obtain msk where m: "to_modified ?j (local_node_id n1) n1 = Inr (msk, n')" using run by auto
    obtain e where e: "n' = n1\<lparr>node_gpd := (node_gpd n1)[?j := e]\<rparr>" "entry_ok e"
      "gpd_holders ((node_gpd n1)[?j := e]) ?j = {unat (local_node_id n1)}"
      using to_modified_inv [OF inv1 j me m] .
    have empty: "other_nodes n1 \<inter> gpd_holders (node_gpd n1) ?j = {}"
      using assms(4) True ch by (auto simp: local_change_def other_nodes_def)
    have "covered sock n' ?j"
      using grants_invD(5) [OF inv1 j] empty e(1,3)
      by (auto simp: covered_def page_covered_def pending_covered_def other_nodes_def)
    then show ?thesis
      using gpd_inv_update [OF grants_invD(4) [OF inv1] e(2)]
      by (intro covered_elsewhere [OF inv1 to_modified_steady [OF m grants_invD(1) [OF inv1] j me] _ j])
        (simp_all add: e(1))
  next
    case False
    then obtain old where m: "to_shared ?j (local_node_id n1) n1 = Inr (old, n')" using run by auto
    show ?thesis using grants_read(1) [OF inv1 j me m] by simp
  qed
qed

lemma grants_local_request:
  assumes "serve_local_request K r n = Inr n'" and "grants_inv sock n" and "own_sockets sock"
    and "unat (rq_page_index r) < num_pages n" and "\<not> blind_write r n"
  shows "grants_inv sock n'"
proof -
  let ?j = "unat (rq_page_index r)" and ?idx = "rq_page_index r" and ?w = "rq_is_write r"
  have len: "?j < length (node_gpd n)" "?j < length (page_table n)"
    using grants_inv_pages [OF assms(2)] assms(4) by (simp_all add: num_pages_def)
  have me: "valid_node (local_node_id n)" using grants_invD(1) [OF assms(2)] by (simp add: node_inv_def)
  let ?own = "owner_node_id (node_gpd n ! ?j)" and ?p = "page_table n ! ?j"
  have step: "(if pt_status ?p = PAGE_VALID \<or> pt_status ?p = PAGE_WRITE_PENDING then
        if ?w then upgrade_local_copy K ?idx n else Inr n
      else andthen (owner_reachable ?own n) (\<lambda>reachable.
        if reachable then fetch_from_owner ?idx ?own (local_node_id n)
          (if ?w then MSG_REQUEST_PAGE_WRITE else MSG_REQUEST_PAGE_READ) (- 1) n
        else install_zero_page K ?idx ?w n)) = Inr n'"
    using assms(1) grants_invD(3) [OF assms(2)] len by (simp add: serve_local_request_def Let_def gpd_get_owner_def)
  show ?thesis
  proof (cases "pt_status ?p = PAGE_VALID \<or> pt_status ?p = PAGE_WRITE_PENDING")
    case True
    then show ?thesis using step assms(2) grants_upgrade [OF _ assms(2-4)] by (cases ?w) auto
  next
    case False
    obtain reachable where reach: "owner_reachable ?own n = Inr reachable"
      and go: "(if reachable then fetch_from_owner ?idx ?own (local_node_id n)
          (if ?w then MSG_REQUEST_PAGE_WRITE else MSG_REQUEST_PAGE_READ) (- 1) n
        else install_zero_page K ?idx ?w n) = Inr n'"
      using step unfolding if_not_P [OF False] by (elim andthen_InrE) (rule that)
    show ?thesis
    proof (cases reachable)
      case True
      then show ?thesis using grants_fetch [OF _ assms(2-4) me] go by simp
    next
      case not: False
      then have "?w \<longrightarrow> gpd_holders (node_gpd n) ?j \<inter> other_nodes n = {}"
        using assms(5) False reach by (auto simp: blind_write_def)
      then show ?thesis using grants_install_zero [OF _ assms(2,4)] go not by simp
    qed
  qed
qed

section \<open>Any packet\<close>

text \<open>What a node sends to introduce itself or to ask for a page carries its own identifier.\<close>

definition peer_ok :: "(nat \<Rightarrow> int) \<Rightarrow> 'm node \<Rightarrow> int \<Rightarrow> dsm_packet \<Rightarrow> bool" where
  "peer_ok sock n fd pkt \<longleftrightarrow>
     (pkt_type pkt \<in> {MSG_NODE_JOIN, MSG_REQUEST_PAGE_READ, MSG_REQUEST_PAGE_WRITE} \<longrightarrow>
        unat (pkt_sender_node_id pkt) \<in> other_nodes n \<and> fd = sock (unat (pkt_sender_node_id pkt)))"

lemma grants_dispatch:
  assumes "dispatch K fd n pkt = Inr n'" and "grants_inv sock n" and "own_sockets sock" and "peer_ok sock n fd pkt"
  shows "grants_inv sock n'"
proof -
  have valid: "valid_node r" if "unat r \<in> other_nodes n" for r
    using that by (simp add: other_nodes_def valid_node_def)
  consider (join) "pkt_type pkt = MSG_NODE_JOIN" | (page) "pkt_type pkt = MSG_SEND_PAGE"
    | (inval) "pkt_type pkt = MSG_INVALIDATE" | (ack) "pkt_type pkt = MSG_INVALIDATE_ACK"
    | (req) "pkt_type pkt = MSG_REQUEST_PAGE_READ \<or> pkt_type pkt = MSG_REQUEST_PAGE_WRITE" | (other) "n' = n"
    using assms(1) by (auto simp: dispatch_def split: if_splits)
  then show ?thesis
  proof cases
    case join
    then show ?thesis
      using assms(1,4) grants_learn [OF assms(2)] by (auto simp: dispatch_def on_node_join_def peer_ok_def)
  next
    case page
    then show ?thesis using assms(1) grants_on_send_page [OF _ assms(2,3)] by (simp add: dispatch_def)
  next
    case inval
    then show ?thesis using assms(1) grants_on_invalidate [OF _ assms(2)] by (simp add: dispatch_def)
  next
    case ack
    then show ?thesis using assms(1) grants_on_invalidate_ack [OF _ assms(2)] by (simp add: dispatch_def)
  next
    case req
    then have run: "on_request K fd pkt n = Inr n'" using assms(1) by (auto simp: dispatch_def)
    have "unat (pkt_sender_node_id pkt) \<in> other_nodes n" "fd = sock (unat (pkt_sender_node_id pkt))"
      using assms(4) req by (auto simp: peer_ok_def)
    then show ?thesis using grants_on_request [OF run assms(2,3)] valid by blast
  qed (use assms(2) in simp)
qed

end
