(* ===== verification/Cluster_Copies.thy ===== *)
theory Cluster_Copies
  imports Net_Grants Fault_Handler
begin

text \<open>
  A coordinator and a worker together: every page that a worker has mapped, once it has handled what
  the coordinator sent it, is a page the coordinator's directory knows it to hold.
\<close>

section \<open>Runs of a coordinator\<close>

text \<open>
  Packets of the other nodes, faults of this process and requests from its queue, in any order. The
  queue between the last two is arbitrary. \<open>blind_write\<close> is the one kind of request left out.
\<close>

inductive coordinator_run :: "'m kernel \<Rightarrow> (nat \<Rightarrow> int) \<Rightarrow> 'm node \<Rightarrow> 'm node \<Rightarrow> bool" for K sock n0 where
  start: "coordinator_run K sock n0 n0"
| packet: "coordinator_run K sock n0 n \<Longrightarrow> peer_ok sock n fd pkt \<Longrightarrow> dispatch K fd n pkt = Inr n' \<Longrightarrow>
    coordinator_run K sock n0 n'"
| fault: "coordinator_run K sock n0 n \<Longrightarrow>
    handle_fault region 4096 rd \<lparr>ft_table = page_table n, ft_queue = q\<rparr> = Inr (b, f) \<Longrightarrow>
    coordinator_run K sock n0 (n\<lparr>page_table := ft_table f\<rparr>)"
| request: "coordinator_run K sock n0 n \<Longrightarrow> unat (rq_page_index r) < num_pages n \<Longrightarrow> \<not> blind_write r n \<Longrightarrow>
    serve_local_request K r n = Inr n' \<Longrightarrow> coordinator_run K sock n0 n'"

text \<open>A coordinator as its start-up leaves it.\<close>

definition fresh_coordinator :: "'m node \<Rightarrow> bool" where
  "fresh_coordinator n \<longleftrightarrow> node_inv n \<and> coordinator_fd n = - 1 \<and>
     gpd_pending_reqs n = Some (replicate (num_pages n) idle_pending) \<and>
     node_gpd n = replicate (num_pages n) fresh_entry \<and> sent_packets n = []"

lemma fault_change:
  assumes "handle_fault region 4096 rd \<lparr>ft_table = page_table n, ft_queue = q\<rparr> = Inr (b, f)"
  obtains i where "local_change i n (n\<lparr>page_table := ft_table f\<rparr>)"
proof -
  let ?s = "\<lparr>ft_table = page_table n, ft_queue = q\<rparr>"
  consider "f = ?s" | idx w st where "f = request_page idx w st ?s"
    using handle_fault_cases [OF assms] by blast
  then show thesis
  proof cases
    case 1
    then show ?thesis using that [of 0] local_change_refl [of 0 n] by simp
  next
    case 2
    then have "ft_table f = (page_table n)[nat idx := (page_table n ! nat idx)\<lparr>pt_status :=
        if fst (queue_push q \<lparr>rq_page_index = of_int idx, rq_is_write = w\<rparr>) < 0 then PAGE_EMPTY else st\<rparr>]"
      by (simp add: request_page_def Let_def case_prod_beta)
    then show ?thesis using that unfolding local_change_def by fastforce
  qed
qed

lemma fresh_coordinator_grants: "fresh_coordinator n \<Longrightarrow> grants_inv sock n"
  by (auto simp: fresh_coordinator_def grants_inv_def covered_def page_covered_def pending_covered_def
      idle_pending_def gpd_holders_def gpd_inv_def list_all_iff other_nodes_def)

lemma coordinator_run_grants:
  "coordinator_run K sock n0 n \<Longrightarrow> own_sockets sock \<Longrightarrow> fresh_coordinator n0 \<Longrightarrow> grants_inv sock n"
proof (induction rule: coordinator_run.induct)
  case (fault n region rd q b f)
  then show ?case using fault_change [OF fault(2)] grants_local by metis
qed (use fresh_coordinator_grants grants_dispatch grants_local_request in blast)+

section \<open>A coordinator never asks another node for a write\<close>

definition no_write_asked :: "'m node \<Rightarrow> bool" where
  "no_write_asked n \<longleftrightarrow> (\<forall>x \<in> set (sent_packets n). pkt_type (snd x) \<noteq> MSG_REQUEST_PAGE_WRITE)"

lemma nwa_simps [simp]:
  "no_write_asked (send_packet fd p n) \<longleftrightarrow> no_write_asked n \<and> pkt_type p \<noteq> MSG_REQUEST_PAGE_WRITE"
  "no_write_asked (send_invalidates i targets n) \<longleftrightarrow> no_write_asked n"
  "no_write_asked (learn_node_fd s fd n) \<longleftrightarrow> no_write_asked n"
  "no_write_asked (invalidate_local_page_copy K i n) \<longleftrightarrow> no_write_asked n"
  "no_write_asked (writeprotect_local_page_copy K i n) \<longleftrightarrow> no_write_asked n"
  "no_write_asked (set_status i st n) \<longleftrightarrow> no_write_asked n"
  "no_write_asked (n\<lparr>node_mem := m\<rparr>) \<longleftrightarrow> no_write_asked n"
  "pkt_type (make_packet ty idx sender bytes) = ty"
  by (auto simp: no_write_asked_def local_ops make_packet_def)

lemma nwa_same: "sent_packets n' = sent_packets n \<Longrightarrow> no_write_asked n' \<longleftrightarrow> no_write_asked n"
  by (simp add: no_write_asked_def)

lemma nwa_local: "local_change i n n' \<Longrightarrow> no_write_asked n' \<longleftrightarrow> no_write_asked n"
  by (rule nwa_same) (simp add: local_change_def)

lemma nwa_put: "put_pending i f n = Inr n' \<Longrightarrow> no_write_asked n' \<longleftrightarrow> no_write_asked n"
  by (rule nwa_same) (rule put_pending_frame(1))

lemma nwa_shared: "to_shared i r n = Inr (old, n') \<Longrightarrow> no_write_asked n' \<longleftrightarrow> no_write_asked n"
  by (rule nwa_same) (auto simp: to_shared_def)

lemma nwa_modified: "to_modified i r n = Inr (msk, n') \<Longrightarrow> no_write_asked n' \<longleftrightarrow> no_write_asked n"
  by (rule nwa_same) (auto simp: to_modified_def)

lemma nwa_drop: "drop_own_copy K idx r msk n = Inr (msk', n') \<Longrightarrow> no_write_asked n' \<longleftrightarrow> no_write_asked n"
  by (auto simp: drop_own_copy_def split: if_splits)

lemmas nwa_rules = nwa_put nwa_shared nwa_modified nwa_drop nwa_local [OF install_page_change]
  nwa_local [OF lift_protection_change]

lemma nwa_itg:
  assumes "invalidate_then_grant idx targets remember grant n = Inr n'" and "no_write_asked n"
    and "grant n = Inr n' \<Longrightarrow> no_write_asked n'"
  shows "no_write_asked n'"
  using assms by (auto simp: invalidate_then_grant_def Let_def nwa_rules split: if_splits)

lemma nwa_deliver:
  "deliver_fetched K r fd pkt n = Inr n' \<Longrightarrow> no_write_asked n \<Longrightarrow> pkt_type pkt \<noteq> MSG_REQUEST_PAGE_WRITE \<Longrightarrow>
     no_write_asked n'"
  by (auto simp: deliver_fetched_def nwa_rules split: if_splits)

lemma nwa_complete:
  assumes "complete_fetch K pkt c n = Inr n'" and "no_write_asked n" and "pkt_type pkt \<noteq> MSG_REQUEST_PAGE_WRITE"
  shows "no_write_asked n'"
  using assms
  by (auto simp: complete_fetch_def Let_def nwa_rules split: if_splits elim!: nwa_itg intro: nwa_deliver)

lemma nwa_release: "release_grant K idx c n = Inr n' \<Longrightarrow> no_write_asked n \<Longrightarrow> no_write_asked n'"
  by (auto simp: release_grant_def nwa_rules split: if_splits)

lemma nwa_valid: "serve_valid_copy K fd idx r w n = Inr n' \<Longrightarrow> no_write_asked n \<Longrightarrow> no_write_asked n'"
  by (auto simp: serve_valid_copy_def Let_def nwa_rules split: if_splits elim!: nwa_itg)

lemma nwa_zero: "serve_zero_page K fd idx r w n = Inr n' \<Longrightarrow> no_write_asked n \<Longrightarrow> no_write_asked n'"
  by (auto simp: serve_zero_page_def Let_def nwa_rules split: if_splits elim!: nwa_itg)

lemma nwa_fetch: "fetch_from_owner idx own r ty fd n = Inr n' \<Longrightarrow> no_write_asked n \<Longrightarrow> no_write_asked n'"
  by (auto simp: fetch_from_owner_def nwa_rules split: if_splits)

lemma nwa_request:
  assumes "on_request K fd pkt n = Inr n'" and "no_write_asked n"
  shows "no_write_asked n'"
  using assms
  by (auto simp: on_request_def Let_def split: if_splits elim!: nwa_valid nwa_zero nwa_fetch)

lemma nwa_dispatch:
  assumes "dispatch K fd n pkt = Inr n'" and "no_write_asked n"
  shows "no_write_asked n'"
proof -
  have ack: "on_invalidate_ack K fd pkt n = Inr n' \<Longrightarrow> no_write_asked n'"
    using assms(2) by (auto simp: on_invalidate_ack_def Let_def nwa_rules split: if_splits elim!: nwa_release)
  have page: "on_send_page K fd pkt n = Inr n' \<Longrightarrow> pkt_type pkt = MSG_SEND_PAGE \<Longrightarrow> no_write_asked n'"
    using assms(2)
    by (auto simp: on_send_page_def accept_page_def Let_def nwa_rules split: if_splits elim!: nwa_complete)
  have inval: "on_invalidate K fd pkt n = Inr n' \<Longrightarrow> no_write_asked n'"
    using assms(2) by (auto simp: on_invalidate_eq Let_def split: if_splits)
  show ?thesis
    using assms ack page inval by (auto simp: dispatch_def on_node_join_def split: if_splits elim!: nwa_request)
qed

lemma nwa_local_request:
  assumes "serve_local_request K r n = Inr n'" and "no_write_asked n" and "coordinator_fd n = - 1"
  shows "no_write_asked n'"
  using assms
  by (auto simp: serve_local_request_def upgrade_local_copy_def install_zero_page_def Let_def nwa_rules
      split: if_splits elim!: nwa_itg nwa_fetch)

lemma coordinator_run_reads:
  "coordinator_run K sock n0 n \<Longrightarrow> own_sockets sock \<Longrightarrow> fresh_coordinator n0 \<Longrightarrow> no_write_asked n"
proof (induction rule: coordinator_run.induct)
  case start
  then show ?case by (simp add: fresh_coordinator_def no_write_asked_def)
next
  case (packet n fd pkt n')
  then show ?case using nwa_dispatch by blast
next
  case (fault n region rd q b f)
  then show ?case by (simp add: no_write_asked_def)
next
  case (request n r n')
  then show ?case
    using nwa_local_request grants_invD(3) [OF coordinator_run_grants [OF request(1)]] by blast
qed

section \<open>Runs of a worker\<close>

text \<open>
  The packets on the socket \<open>up\<close> to the coordinator, in their order, with the worker's own faults and
  requests in between.
\<close>

inductive worker_run :: "'m kernel \<Rightarrow> int \<Rightarrow> 'm node \<Rightarrow> dsm_packet list \<Rightarrow> 'm node \<Rightarrow> bool" for K up n0 where
  start: "worker_run K up n0 [] n0"
| packet: "worker_run K up n0 ps n \<Longrightarrow> dispatch K up n p = Inr n' \<Longrightarrow> worker_run K up n0 (ps @ [p]) n'"
| fault: "worker_run K up n0 ps n \<Longrightarrow>
    handle_fault region 4096 rd \<lparr>ft_table = page_table n, ft_queue = q\<rparr> = Inr (b, f) \<Longrightarrow>
    worker_run K up n0 ps (n\<lparr>page_table := ft_table f\<rparr>)"
| request: "worker_run K up n0 ps n \<Longrightarrow> serve_local_request K r n = Inr n' \<Longrightarrow> worker_run K up n0 ps n'"

definition mapped :: "'m kernel \<Rightarrow> 'm node \<Rightarrow> nat \<Rightarrow> bool" where
  "mapped K n i \<longleftrightarrow> view K (node_mem n) (pt_base_addr (page_table n ! i)) \<noteq> None"

definition bases :: "'m node \<Rightarrow> u64 list" where
  "bases n = map pt_base_addr (page_table n)"

definition acks_idle :: "'m node \<Rightarrow> bool" where
  "acks_idle n \<longleftrightarrow> (\<forall>ps. gpd_pending_reqs n = Some ps \<longrightarrow> (\<forall>c \<in> set ps. cp_expected_acks c = 0))"

definition follower :: "int \<Rightarrow> 'm node \<Rightarrow> bool" where
  "follower up n \<longleftrightarrow> coordinator_fd n = up \<and> up \<noteq> - 1 \<and> distinct (bases n) \<and> acks_idle n"

text \<open>Steps that map nothing new.\<close>

definition maps_nothing :: "'m kernel \<Rightarrow> 'm node \<Rightarrow> 'm node \<Rightarrow> bool" where
  "maps_nothing K n n' \<longleftrightarrow> bases n' = bases n \<and> coordinator_fd n' = coordinator_fd n \<and>
     (acks_idle n \<longrightarrow> acks_idle n') \<and>
     (\<forall>a. view K (node_mem n') a \<noteq> None \<longrightarrow> view K (node_mem n) a \<noteq> None)"

lemma maps_nothing_refl: "maps_nothing K n n"
  by (simp add: maps_nothing_def)

lemma maps_nothing_trans: "maps_nothing K n n1 \<Longrightarrow> maps_nothing K n1 n2 \<Longrightarrow> maps_nothing K n n2"
  by (auto simp: maps_nothing_def)

lemma bases_local: "local_change i n n' \<Longrightarrow> bases n' = bases n"
  by (cases "i < length (page_table n)")
    (auto simp: local_change_def bases_def map_update list_update_same_conv list_update_beyond
      intro!: nth_equalityI simp: nth_list_update)

lemma bases_nth: "i < num_pages n \<Longrightarrow> bases n ! i = pt_base_addr (page_table n ! i)"
  by (simp add: bases_def num_pages_def)

lemma length_bases [simp]: "length (bases n) = num_pages n"
  by (simp add: bases_def num_pages_def)

lemma mapped_bases: "i < num_pages n \<Longrightarrow> mapped K n i \<longleftrightarrow> view K (node_mem n) (bases n ! i) \<noteq> None"
  by (simp add: mapped_def bases_nth)

lemma maps_nothing_local:
  "local_change i n n' \<Longrightarrow> (\<forall>a. view K (node_mem n') a \<noteq> None \<longrightarrow> view K (node_mem n) a \<noteq> None) \<Longrightarrow>
     maps_nothing K n n'"
  using bases_local [of i n n'] by (simp add: maps_nothing_def local_change_def acks_idle_def)

lemma maps_nothing_protect:
  assumes "kernel_ok K"
  shows "maps_nothing K n (writeprotect_local_page_copy K i n)"
  using assms by (intro maps_nothing_local [OF writeprotect_change]) (auto simp: writeprotect_local_page_copy_def)

lemma maps_nothing_send: "maps_nothing K n (send_packet fd p n)"
  by (simp add: maps_nothing_def send_packet_def bases_def acks_idle_def)

lemma maps_nothing_learn: "maps_nothing K n (learn_node_fd s fd n)"
  by (simp add: maps_nothing_def learn_node_fd_def bases_def acks_idle_def)

lemma maps_nothing_shared: "to_shared i r n = Inr (old, n') \<Longrightarrow> maps_nothing K n n'"
  by (auto simp: to_shared_def maps_nothing_def bases_def acks_idle_def)

lemma maps_nothing_fetch:
  assumes "fetch_from_owner idx own r ty fd n = Inr n'"
  shows "maps_nothing K n n'"
proof -
  obtain n1 where n1: "(if gpd_pending_reqs n \<noteq> None then
        put_pending (unat idx) (\<lambda>c. c\<lparr>cp_requester_node_id := r, cp_type := ty, cp_client_fd := fd,
          cp_expected_acks := 0\<rparr>) n else Inr n) = Inr n1"
    and n': "\<exists>fd' p. n' = send_packet fd' p n1"
    using assms by (auto simp: fetch_from_owner_def)
  have "maps_nothing K n n1"
  proof (cases "gpd_pending_reqs n")
    case (Some ps)
    let ?c = "(ps ! unat idx)\<lparr>cp_requester_node_id := r, cp_type := ty, cp_client_fd := fd, cp_expected_acks := 0\<rparr>"
    have same: "n1 = n\<lparr>gpd_pending_reqs := Some (ps[unat idx := ?c])\<rparr>"
      using n1 Some by (auto simp: put_pending_def)
    have "\<forall>c \<in> set (ps[unat idx := ?c]). cp_expected_acks c = 0" if "\<forall>c \<in> set ps. cp_expected_acks c = 0"
      using that set_update_subset_insert [of ps "unat idx" ?c] by auto
    then show ?thesis using Some by (simp add: same maps_nothing_def bases_def acks_idle_def)
  qed (use n1 maps_nothing_refl in simp)
  then show ?thesis using n' maps_nothing_send maps_nothing_trans by blast
qed

lemma serve_valid_reply:
  assumes "serve_valid_copy K fd idx r False n = Inr n'"
  obtains old n2 p where "to_shared (unat idx) r n = Inr (old, n2)"
    and "n' = send_packet fd p (if old = local_node_id n2 then writeprotect_local_page_copy K (unat idx) n2 else n2)"
  using assms by (auto simp: serve_valid_copy_def Let_def simp del: if_split)

lemma maps_nothing_read:
  assumes "on_request K fd pkt n = Inr n'" and "pkt_type pkt \<noteq> MSG_REQUEST_PAGE_WRITE" and "kernel_ok K"
  shows "maps_nothing K n n'"
proof -
  let ?n1 = "learn_node_fd (pkt_sender_node_id pkt) fd n"
  have valid: "maps_nothing K n1 n'" if v: "serve_valid_copy K fd idx r False n1 = Inr n'" for idx r n1
  proof -
    obtain old n2 p where n2: "to_shared (unat idx) r n1 = Inr (old, n2)" and n': "n' = send_packet fd p
        (if old = local_node_id n2 then writeprotect_local_page_copy K (unat idx) n2 else n2)"
      using serve_valid_reply [OF v] .
    have "maps_nothing K n1 (if old = local_node_id n2 then writeprotect_local_page_copy K (unat idx) n2 else n2)"
      using maps_nothing_shared [OF n2, of K] maps_nothing_protect [OF assms(3), of n2 "unat idx"]
        maps_nothing_trans by (cases "old = local_node_id n2") auto
    then show ?thesis unfolding n' by (rule maps_nothing_trans [OF _ maps_nothing_send])
  qed
  have zero: "maps_nothing K n1 n'" if z: "serve_zero_page K fd idx r False n1 = Inr n'" for idx r n1
  proof -
    obtain old n2 p where n2: "to_shared (unat idx) r n1 = Inr (old, n2)" and "n' = send_packet fd p n2"
      using z by (auto simp: serve_zero_page_def Let_def)
    then show ?thesis using maps_nothing_shared [OF n2, of K] maps_nothing_send maps_nothing_trans by metis
  qed
  let ?w = "pkt_type pkt = MSG_REQUEST_PAGE_WRITE"
  have no_write: "?w = False" using assms(2) by simp
  have "n' = n \<or> maps_nothing K ?n1 n'"
  proof (cases "unat (pkt_page_index pkt) < num_pages n")
    case True
    then obtain own and q :: page_tracker where
      "(if pt_status q = PAGE_VALID then serve_valid_copy K fd (pkt_page_index pkt) (pkt_sender_node_id pkt) ?w ?n1
        else andthen (owner_reachable own ?n1) (\<lambda>reachable.
            if reachable \<and> own \<noteq> pkt_sender_node_id pkt
            then fetch_from_owner (pkt_page_index pkt) own (pkt_sender_node_id pkt) (pkt_type pkt) fd ?n1
            else serve_zero_page K fd (pkt_page_index pkt) (pkt_sender_node_id pkt) ?w ?n1)) = Inr n'"
      using assms(1) unfolding on_request_def Let_def if_P [OF True] by (elim andthen_InrE) (rule that)
    then consider "serve_valid_copy K fd (pkt_page_index pkt) (pkt_sender_node_id pkt) False ?n1 = Inr n'"
      | own where "fetch_from_owner (pkt_page_index pkt) own (pkt_sender_node_id pkt) (pkt_type pkt) fd ?n1 = Inr n'"
      | "serve_zero_page K fd (pkt_page_index pkt) (pkt_sender_node_id pkt) False ?n1 = Inr n'"
      unfolding no_write if_False by (cases "pt_status q = PAGE_VALID") (auto split: if_split_asm)
    then show ?thesis using valid zero maps_nothing_fetch by cases blast+
  qed (use assms(1) in \<open>simp add: on_request_def Let_def\<close>)
  then show ?thesis using maps_nothing_learn maps_nothing_trans maps_nothing_refl by blast
qed

section \<open>One step of a worker\<close>

lemma follower_kept: "follower up n \<Longrightarrow> maps_nothing K n n' \<Longrightarrow> follower up n'"
  by (simp add: follower_def maps_nothing_def)

lemma maps_nothing_mapped:
  "maps_nothing K n n' \<Longrightarrow> i < num_pages n \<Longrightarrow> mapped K n' i \<Longrightarrow> mapped K n i"
  using length_bases [of n] length_bases [of n'] by (simp add: maps_nothing_def mapped_bases)

lemma follower_local: "follower up n \<Longrightarrow> local_change j n n' \<Longrightarrow> follower up n' \<and> bases n' = bases n"
  using bases_local [of j n n'] by (simp add: follower_def local_change_def acks_idle_def)

lemma follower_send [simp]: "follower up (send_packet fd p n) \<longleftrightarrow> follower up n"
  by (simp add: follower_def acks_idle_def bases_def send_packet_def)

lemma mapped_send [simp]: "mapped K (send_packet fd p n) i \<longleftrightarrow> mapped K n i"
  by (simp add: mapped_def send_packet_def)

lemma bases_send [simp]: "bases (send_packet fd p n) = bases n"
  by (simp add: bases_def send_packet_def)

lemma other_base:
  "follower up n \<Longrightarrow> i < num_pages n \<Longrightarrow> j < num_pages n \<Longrightarrow>
     pt_base_addr (page_table n ! i) = pt_base_addr (page_table n ! j) \<longleftrightarrow> i = j"
  using nth_eq_iff_index_eq [of "bases n" i j] by (simp add: follower_def bases_nth)

lemma idle_ack_ignored:
  assumes "on_invalidate_ack K fd p n = Inr n'" and "acks_idle n"
  shows "n' = n"
proof (cases "unat (pkt_page_index p) < num_pages n \<and> gpd_pending_reqs n \<noteq> None")
  case True
  then obtain ps where ps: "gpd_pending_reqs n = Some ps" by blast
  then have "cp_expected_acks (ps ! unat (pkt_page_index p)) = 0" if "unat (pkt_page_index p) < length ps"
    using assms(2) that by (simp add: acks_idle_def)
  then show ?thesis
    using assms(1) True ps by (auto simp: on_invalidate_ack_def Let_def get_pending_def)
qed (use assms in \<open>auto simp: on_invalidate_ack_def Let_def\<close>)

definition worker_step :: "'m kernel \<Rightarrow> int \<Rightarrow> dsm_packet \<Rightarrow> 'm node \<Rightarrow> 'm node \<Rightarrow> bool" where
  "worker_step K up p n n' \<longleftrightarrow> follower up n' \<and> bases n' = bases n \<and>
     (\<forall>i < num_pages n. mapped K n' i \<longrightarrow> grant_step i (\<lambda>_. mapped K n i) (up, p) up)"

lemma worker_step_quiet:
  "follower up n \<Longrightarrow> maps_nothing K n n' \<Longrightarrow> pkt_type p \<noteq> MSG_INVALIDATE \<Longrightarrow> worker_step K up p n n'"
  using follower_kept [of up n K n'] maps_nothing_mapped [of K n n']
  by (auto simp: worker_step_def maps_nothing_def)

lemma worker_invalidate:
  assumes "on_invalidate K up p n = Inr n'" and "follower up n" and "kernel_ok K"
    and "pkt_type p = MSG_INVALIDATE"
  shows "worker_step K up p n n'"
proof (cases "unat (pkt_page_index p) < num_pages n")
  case True
  let ?j = "unat (pkt_page_index p)" and ?n1 = "invalidate_local_page_copy K (unat (pkt_page_index p)) n"
  have n': "\<exists>fd a. n' = send_packet fd a ?n1"
    using assms(1) True by (auto simp: on_invalidate_eq invalidate_local_page_copy_def Let_def)
  have view: "view K (node_mem ?n1) = (view K (node_mem n))(pt_base_addr (page_table n ! ?j) := None)"
    using invalidate_view [OF assms(3) True] by simp
  have f: "follower up ?n1" "bases ?n1 = bases n"
    using follower_local [OF assms(2) invalidate_change] by auto
  have "i \<noteq> ?j \<and> mapped K n i" if "i < num_pages n" and m: "mapped K ?n1 i" for i
  proof -
    have "i < num_pages ?n1" using that(1) f(2) length_bases by metis
    then have "view K (node_mem ?n1) (bases n ! i) \<noteq> None" using m f(2) by (simp add: mapped_bases)
    then show ?thesis
      using view that(1) True other_base [OF assms(2) that(1) True]
      by (auto simp: mapped_bases bases_nth split: if_splits)
  qed
  then have "\<forall>i < num_pages n. mapped K ?n1 i \<longrightarrow> i \<noteq> ?j \<and> mapped K n i" by blast
  then show ?thesis using n' f by (auto simp: worker_step_def assms(4))
next
  case False
  then have "n' = n" using assms(1) by (simp add: on_invalidate_eq Let_def)
  then show ?thesis using assms(2) False by (auto simp: worker_step_def)
qed

lemma accept_page_cases:
  assumes "accept_page K p n = Inr n'"
  shows "n' = n \<or> install_page K (unat (pkt_page_index p)) (pkt_payload p) n = Inr n' \<or>
    lift_protection K (unat (pkt_page_index p)) True n = Inr n'"
proof -
  obtain q :: page_tracker where "(if pt_status q = PAGE_PENDING \<or> pt_status q = PAGE_WRITE_PENDING \<or> pt_status q = PAGE_EMPTY then
          if pt_status q = PAGE_WRITE_PENDING then lift_protection K (unat (pkt_page_index p)) True n
          else install_page K (unat (pkt_page_index p)) (pkt_payload p) n
        else Inr n) = Inr n'"
    using assms unfolding accept_page_def Let_def by (elim andthen_InrE) (rule that)
  then show ?thesis by (cases "pt_status q") auto
qed

lemma worker_accept:
  assumes "accept_page K p n = Inr n'" and "follower up n" and "kernel_ok K"
    and "pkt_type p = MSG_SEND_PAGE" and "unat (pkt_page_index p) < num_pages n"
  shows "worker_step K up p n n'"
proof -
  let ?j = "unat (pkt_page_index p)"
  let ?a = "pt_base_addr (page_table n ! ?j)"
  have "n' = n \<or> install_page K ?j (pkt_payload p) n = Inr n' \<or> lift_protection K ?j True n = Inr n'"
    using accept_page_cases [OF assms(1)] .
  then consider "n' = n" | "install_page K ?j (pkt_payload p) n = Inr n'" | "lift_protection K ?j True n = Inr n'"
    by blast
  then have "local_change ?j n n' \<and> (\<forall>a. a \<noteq> ?a \<longrightarrow> view K (node_mem n') a = view K (node_mem n) a)"
  proof cases
    case 2
    then show ?thesis using install_page_change [OF 2] install_page_view [OF assms(3) 2] by simp
  next
    case 3
    then show ?thesis using lift_protection_change [OF 3] lift_protection_view [OF assms(3) 3] by simp
  qed (simp add: local_change_refl)
  then have local: "local_change ?j n n'" and
    view: "\<forall>a. a \<noteq> ?a \<longrightarrow> view K (node_mem n') a = view K (node_mem n) a" by auto
  have f: "follower up n'" "bases n' = bases n" using follower_local [OF assms(2) local] by auto
  have "mapped K n i" if "i < num_pages n" and m: "mapped K n' i" and "i \<noteq> ?j" for i
  proof -
    have "i < num_pages n'" using that(1) f(2) length_bases by metis
    then have "view K (node_mem n') (bases n ! i) \<noteq> None" using m f(2) by (simp add: mapped_bases)
    then show ?thesis
      using view that(1,3) other_base [OF assms(2) that(1) assms(5)]
      by (auto simp: mapped_bases bases_nth)
  qed
  then show ?thesis using f by (auto simp: worker_step_def assms(4))
qed

lemma worker_dispatch:
  assumes "dispatch K up n p = Inr n'" and "follower up n" and "kernel_ok K"
    and "pkt_type p \<noteq> MSG_REQUEST_PAGE_WRITE"
  shows "worker_step K up p n n'"
proof -
  consider (page) "pkt_type p = MSG_SEND_PAGE" | (inval) "pkt_type p = MSG_INVALIDATE"
    | (other) "pkt_type p \<noteq> MSG_SEND_PAGE" "pkt_type p \<noteq> MSG_INVALIDATE" by blast
  then show ?thesis
  proof cases
    case page
    then have run: "on_send_page K up p n = Inr n'" using assms(1) by (simp add: dispatch_def)
    show ?thesis
    proof (cases "unat (pkt_page_index p) < num_pages n")
      case True
      then have "accept_page K p n = Inr n'"
        using run assms(2) by (simp add: on_send_page_def Let_def follower_def)
      then show ?thesis using worker_accept assms(2,3) page True by blast
    next
      case False
      then have "n' = n" using run by (simp add: on_send_page_def Let_def)
      then show ?thesis using worker_step_quiet [OF assms(2) maps_nothing_refl] page by simp
    qed
  next
    case inval
    then show ?thesis using worker_invalidate assms(1-3) by (simp add: dispatch_def)
  next
    case other
    have "maps_nothing K n n'"
    proof (cases "pkt_type p = MSG_INVALIDATE_ACK")
      case True
      then have "n' = n" using assms(1,2) idle_ack_ignored [of K up p n n'] by (simp add: dispatch_def follower_def)
      then show ?thesis by (simp add: maps_nothing_refl)
    next
      case False
      then have "on_request K up p n = Inr n' \<or> n' = learn_node_fd (pkt_sender_node_id p) up n \<or> n' = n"
        using assms(1) other by (simp add: dispatch_def on_node_join_def split: if_split_asm)
      then show ?thesis using maps_nothing_read assms(3,4) maps_nothing_learn maps_nothing_refl by blast
    qed
    then show ?thesis using worker_step_quiet assms(2) other(2) by blast
  qed
qed

section \<open>A whole run of a worker\<close>

lemma grant_step_other: "fst x \<noteq> fd \<Longrightarrow> grant_step i G x fd = G fd"
  by (cases x) auto

lemma grant_step_mono: "(G fd \<longrightarrow> H fd) \<Longrightarrow> grant_step i G x fd \<longrightarrow> grant_step i H x fd"
  by (cases x) auto

text \<open>The packets of a log on one socket, and what they grant by themselves.\<close>

definition packets_on :: "int \<Rightarrow> (int \<times> dsm_packet) list \<Rightarrow> dsm_packet list" where
  "packets_on fd log = map snd (filter (\<lambda>x. fst x = fd) log)"

definition granted_on :: "dsm_packet list \<Rightarrow> nat \<Rightarrow> int \<Rightarrow> bool" where
  "granted_on ps i fd = granted (map (Pair fd) ps) i fd"

lemma granted_on_simps [simp]:
  "\<not> granted_on [] i fd"
  "granted_on (ps @ [p]) i fd = grant_step i (\<lambda>_. granted_on ps i fd) (fd, p) fd"
  by (auto simp: granted_on_def)

lemma granted_on_any: "granted_on ps i fd = granted_on ps i fd'"
proof (induction ps rule: rev_induct)
  case (snoc p ps)
  then show ?case by simp
qed simp

lemma granted_packets_on: "granted_on (packets_on fd log) i fd = granted log i fd"
proof (induction log rule: rev_induct)
  case (snoc x log)
  then show ?case by (cases x) (auto simp: packets_on_def)
qed (simp add: packets_on_def)

lemma still_granted:
  "granted_on ps i fd \<Longrightarrow> \<forall>p \<in> set rest. \<not> (pkt_type p = MSG_INVALIDATE \<and> unat (pkt_page_index p) = i) \<Longrightarrow>
     granted_on (ps @ rest) i fd"
proof (induction rest rule: rev_induct)
  case (snoc p rest)
  then show ?case using granted_on_simps(2) [of "ps @ rest" p i fd] by auto
qed simp

lemma worker_run_mapped:
  assumes "worker_run K up w0 ps w" and "kernel_ok K" and "follower up w0"
    and "\<forall>i < num_pages w0. \<not> mapped K w0 i" and "\<forall>p \<in> set ps. pkt_type p \<noteq> MSG_REQUEST_PAGE_WRITE"
  shows "follower up w \<and> bases w = bases w0 \<and> (\<forall>i < num_pages w0. mapped K w i \<longrightarrow> granted_on ps i up)"
  using assms(1,5)
proof (induction rule: worker_run.induct)
  case start
  then show ?case using assms(3,4) by simp
next
  case (packet ps n p n')
  then have IH: "follower up n" "bases n = bases w0" "\<forall>i < num_pages w0. mapped K n i \<longrightarrow> granted_on ps i up"
    by auto
  have step: "worker_step K up p n n'" using worker_dispatch [OF packet(2) IH(1) assms(2)] packet(4) by simp
  moreover have pages: "num_pages n = num_pages w0" using IH(2) length_bases by metis
  moreover have "granted_on (ps @ [p]) i up" if "i < num_pages w0" "mapped K n' i" for i
    using step that IH(3) pages grant_step_mono [of "\<lambda>_. mapped K n i" up "\<lambda>_. granted_on ps i up" i "(up, p)"]
    by (simp add: worker_step_def)
  ultimately show ?case using IH(2) by (simp add: worker_step_def)
next
  case (fault ps n region rd q b f)
  obtain i where "local_change i n (n\<lparr>page_table := ft_table f\<rparr>)" using fault_change [OF fault(2)] .
  moreover from this have "maps_nothing K n (n\<lparr>page_table := ft_table f\<rparr>)" by (rule maps_nothing_local) simp
  ultimately show ?case
    using fault follower_kept maps_nothing_mapped [of K n] length_bases [of n] length_bases [of w0]
    by (metis maps_nothing_def)
next
  case (request ps n r n')
  then have "follower up n" by simp
  then have "\<exists>p. n' = send_packet up p n"
    using request(2) by (auto simp: serve_local_request_def Let_def follower_def)
  then show ?case using request(3,4) by auto
qed

section \<open>The directory knows every copy\<close>

text \<open>C2. Start a coordinator and a worker afresh. Let the coordinator handle packets of its peers, each on
  its own socket and under its own identifier, and faults and requests of its own, in any order, but no
  write request of its own for a page that it does not hold and others do. Let the worker handle any prefix
  of what the coordinator has sent on the worker's socket, with its own faults and requests in between.
  Without evictions, every page that is mapped at the worker is recorded under the worker in the
  coordinator's directory, or an invalidation of the page is on its way to the worker.\<close>

theorem copies_are_recorded:
  assumes "own_sockets sock" and "fresh_coordinator c0" and "coordinator_run K sock c0 c"
    and "v \<in> other_nodes c" and "packets_on (sock v) (sent_packets c) = handled @ travelling"
    and "kernel_ok L" and "follower up w0" and "\<forall>i < num_pages w0. \<not> mapped L w0 i"
    and "worker_run L up w0 handled w" and "mapped L w i" and "i < num_pages w0" and "i < num_pages c"
  shows "v \<in> gpd_holders (node_gpd c) i \<or>
    (\<exists>p \<in> set travelling. pkt_type p = MSG_INVALIDATE \<and> unat (pkt_page_index p) = i)"
proof -
  have inv: "grants_inv sock c" using coordinator_run_grants assms(1-3) by blast
  have "no_write_asked c" using coordinator_run_reads assms(1-3) by blast
  moreover have "set handled \<subseteq> set (packets_on (sock v) (sent_packets c))" using assms(5) by simp
  ultimately have "\<forall>p \<in> set handled. pkt_type p \<noteq> MSG_REQUEST_PAGE_WRITE"
    by (auto simp: no_write_asked_def packets_on_def)
  then have "granted_on handled i up"
    using worker_run_mapped [OF assms(9,6,7,8)] assms(10,11) by blast
  then have "granted_on handled i (sock v)" using granted_on_any by blast
  then have "granted (sent_packets c) i (sock v)"
    if "\<forall>p \<in> set travelling. \<not> (pkt_type p = MSG_INVALIDATE \<and> unat (pkt_page_index p) = i)"
    using still_granted [OF _ that] assms(5) granted_packets_on by metis
  moreover have "granted (sent_packets c) i (sock v) \<Longrightarrow> v \<in> gpd_holders (node_gpd c) i"
    using grants_invD(5) [OF inv assms(12)] assms(4) by (simp add: covered_def page_covered_def)
  ultimately show ?thesis by blast
qed

definition lone_coordinator :: "(u64 \<Rightarrow> (page \<times> bool) option) node" where
  "lone_coordinator = hub fresh_entry zero_page\<lparr>node_fds := replicate NODE_SLOTS (- 1),
     page_table := [\<lparr>pt_base_addr = 0x10000, pt_status = PAGE_EMPTY\<rparr>], node_mem := Map.empty\<rparr>"

definition ten_on :: "nat \<Rightarrow> int" where
  "ten_on v = int v + 10"

lemma own_sockets_ten_on: "own_sockets ten_on"
  by (auto simp: own_sockets_def inj_on_def ten_on_def)

lemma lone_coordinator_fresh: "fresh_coordinator lone_coordinator"
  using hub_ok [of fresh_entry zero_page]
  by (simp add: fresh_coordinator_def lone_coordinator_def hub_def node_inv_def num_pages_def fresh_entry_ok)

lemma lone_coordinator_serves:
  obtains c where "dispatch map_kernel 12 lone_coordinator (ask MSG_REQUEST_PAGE_READ 2) = Inr c"
    and "sent_packets c = [(12, make_packet MSG_SEND_PAGE 0 1 zero_page)]" and "num_pages c = 1"
    and "local_node_id c = 1"
proof -
  let ?n = "learn_node_fd 2 12 lone_coordinator"
  have inv: "node_inv lone_coordinator" using lone_coordinator_fresh by (simp add: fresh_coordinator_def)
  then have inv1: "node_inv ?n" using learn_node_fd_kept keptD(1) by blast
  have pages: "0 < num_pages ?n" "local_node_id ?n = 1"
    by (simp_all add: learn_node_fd_def lone_coordinator_def hub_def num_pages_def)
  obtain e n1 where n1: "to_shared 0 2 ?n = Inr (owner_node_id (node_gpd ?n ! 0), n1)"
    and "n1 = ?n\<lparr>node_gpd := (node_gpd ?n)[0 := e]\<rparr>"
    by (rule to_shared_returns [OF inv1 pages(1), of 2]) (simp_all add: valid_node_def that)
  moreover have "dispatch map_kernel 12 lone_coordinator (ask MSG_REQUEST_PAGE_READ 2) =
      serve_zero_page map_kernel 12 0 2 False ?n"
    by (simp add: dispatch_def on_request_def Let_def lone_coordinator_def hub_def num_pages_def
        learn_node_fd_def gpd_get_owner_def fresh_entry_def owner_reachable_def)
  ultimately show ?thesis
    using that pages by (simp add: serve_zero_page_def Let_def)
      (simp add: learn_node_fd_def lone_coordinator_def hub_def num_pages_def)
qed

theorem copies_are_recorded_witness:
  "\<exists>c w. coordinator_run map_kernel ten_on lone_coordinator c \<and>
     worker_run map_kernel 9 waiting_worker [make_packet MSG_SEND_PAGE 0 1 zero_page] w \<and>
     mapped map_kernel w 0 \<and> 2 \<in> gpd_holders (node_gpd c) 0"
proof -
  obtain c where c: "dispatch map_kernel 12 lone_coordinator (ask MSG_REQUEST_PAGE_READ 2) = Inr c"
    and sent: "sent_packets c = [(12, make_packet MSG_SEND_PAGE 0 1 zero_page)]"
    and pages: "num_pages c = 1" and me: "local_node_id c = 1"
    using lone_coordinator_serves .
  have "peer_ok ten_on lone_coordinator 12 (ask MSG_REQUEST_PAGE_READ 2)"
    by (simp add: peer_ok_def other_nodes_def ten_on_def lone_coordinator_def hub_def)
  then have run: "coordinator_run map_kernel ten_on lone_coordinator c"
    by (rule coordinator_run.packet [OF coordinator_run.start _ c])
  have v: "2 \<in> other_nodes c" by (simp add: other_nodes_def me)
  have on: "packets_on (ten_on 2) (sent_packets c) = [make_packet MSG_SEND_PAGE 0 1 zero_page] @ []"
    by (simp add: packets_on_def sent ten_on_def)
  let ?w = "waiting_worker\<lparr>page_table := [\<lparr>pt_base_addr = 0x10000, pt_status = PAGE_VALID\<rparr>],
      node_mem := [0x10000 \<mapsto> (zero_page, False)],
      eviction_ring := dsm_mark_accessed 0 (eviction_ring waiting_worker)\<rparr>"
  have "dispatch map_kernel 9 waiting_worker (make_packet MSG_SEND_PAGE 0 1 zero_page) = Inr ?w"
    by (simp add: dispatch_def on_send_page_def accept_page_def install_page_def set_status_def copy_in_def
        Let_def waiting_worker_def hub_def make_packet_def num_pages_def map_kernel_def)
  from worker_run.packet [OF worker_run.start this]
  have wrun: "worker_run map_kernel 9 waiting_worker [make_packet MSG_SEND_PAGE 0 1 zero_page] ?w" by simp
  have w0: "follower 9 waiting_worker" "\<forall>i < num_pages waiting_worker. \<not> mapped map_kernel waiting_worker i"
    by (simp_all add: follower_def bases_def acks_idle_def idle_pending_def mapped_def waiting_worker_def hub_def
        num_pages_def)
  have m: "mapped map_kernel ?w 0" by (simp add: mapped_def waiting_worker_def)
  have n: "0 < num_pages waiting_worker" "0 < num_pages c"
    using pages by (simp_all add: waiting_worker_def hub_def) (simp add: num_pages_def)
  have "2 \<in> gpd_holders (node_gpd c) 0"
    using copies_are_recorded [OF own_sockets_ten_on lone_coordinator_fresh run v on map_kernel_ok w0 wrun m n] by simp
  then show ?thesis using run wrun m by blast
qed

end
