(* ===== verification/Net_Gaps.thy ===== *)
theory Net_Gaps
  imports Net_Grants
begin

text \<open>
  Two gaps in the protocol of the coordinator: zeros are handed out for a page that others hold, and its
  own write can pass over the other holders.
\<close>

section \<open>Pages without an owner\<close>

lemma read_of_ownerless_page:
  assumes "node_inv n" and "i = unat (pkt_page_index pkt)" and "i < num_pages n"
    and "pkt_type pkt = MSG_REQUEST_PAGE_READ" and "valid_node (pkt_sender_node_id pkt)"
    and "pt_status (page_table n ! i) \<noteq> PAGE_VALID" and "owner_node_id (node_gpd n ! i) = 0"
    and "entry_ok (node_gpd n ! i)"
  obtains n' e where "dispatch K fd n pkt = Inr n'"
    and "sent_packets n' = sent_packets n @ [(fd, page_reply n pkt zero_page)]"
    and "node_gpd n' = (node_gpd n)[i := e]"
    and "dir_holders (abs_entry e) = insert (unat (pkt_sender_node_id pkt)) (gpd_holders (node_gpd n) i)"
proof -
  let ?r = "pkt_sender_node_id pkt"
  let ?n1 = "learn_node_fd ?r fd n"
  have inv: "node_inv ?n1" and pages: "i < num_pages ?n1"
    using keptD [OF learn_node_fd_kept [of n ?r fd]] assms(1,3) by auto
  have same: "page_table ?n1 = page_table n" "node_gpd ?n1 = node_gpd n" "sent_packets ?n1 = sent_packets n"
    "local_node_id ?n1 = local_node_id n"
    by (simp_all add: learn_node_fd_def)
  have len: "i < length (page_table n)" "i < length (node_gpd n)"
    using assms(1,3) by (auto simp: node_inv_def num_pages_def)
  obtain e n2 where n2: "to_shared i ?r ?n1 = Inr (owner_node_id (node_gpd ?n1 ! i), n2)"
    and g: "n2 = ?n1\<lparr>node_gpd := (node_gpd ?n1)[i := e]\<rparr>"
    and e: "abs_entry e = dir_read (unat ?r) (abs_entry (node_gpd n ! i))"
    using to_shared_returns [OF inv pages assms(5)] assms(8) same(2) by metis
  have "dispatch K fd n pkt = serve_zero_page K fd (pkt_page_index pkt) ?r False ?n1"
    using assms(2-4,6,7) len
    by (simp add: dispatch_def on_request_def Let_def gpd_get_owner_def same owner_reachable_def)
  also have "\<dots> = Inr (send_packet fd (page_reply n pkt zero_page) n2)"
    using n2 assms(2) by (simp add: serve_zero_page_def Let_def page_reply_def same)
  finally show thesis
    using that e same len by (simp add: g gpd_holders_def)
qed

lemma shared_entry_okI:
  "abs_entry e = SharedBy S \<Longrightarrow> S \<noteq> {} \<Longrightarrow> 0 \<notin> S \<Longrightarrow> owner_node_id e = 0 \<Longrightarrow> entry_ok e"
  by (auto simp: abs_entry_def entry_ok_def in_nodes_of split: msi_state.splits)

section \<open>Properties\<close>

text \<open>C26. A page that node \<open>a\<close> has written is fetched from \<open>a\<close> for a reader \<open>b\<close> by a coordinator that
  holds no copy. From then on the directory names the holders but no owner, and the next reader \<open>c\<close> is sent
  a page of zeros instead of the data, while the directory records \<open>a\<close>, \<open>b\<close> and \<open>c\<close> as sharers of one
  page.\<close>

theorem relayed_page_lost:
  assumes "node_inv n" and "gpd_pending_reqs n \<noteq> None" and "coordinator_fd n = - 1"
    and "i = unat (pkt_page_index page)" and "i < num_pages n" and "pt_status (page_table n ! i) \<noteq> PAGE_VALID"
    and "entry_ok (node_gpd n ! i)" and "abs_entry (node_gpd n ! i) = OwnedBy (unat a)" and "valid_node a"
    and "node_fds n ! unat a = fda" and "fda \<noteq> - 1"
    and "pkt_type page = MSG_SEND_PAGE"
    and "pkt_type req = MSG_REQUEST_PAGE_READ" and "pkt_page_index req = pkt_page_index page"
    and "valid_node (pkt_sender_node_id req)" and "pkt_sender_node_id req \<notin> {a, local_node_id n}"
    and "pkt_type req2 = MSG_REQUEST_PAGE_READ" and "pkt_page_index req2 = pkt_page_index page"
    and "valid_node (pkt_sender_node_id req2)"
  shows "\<exists>n'. run_packets K n [(fdb, req), (fda, page), (fdc, req2)] = Inr n' \<and>
    sent_packets n' = sent_packets n @
      [(fda, make_packet MSG_REQUEST_PAGE_READ (pkt_page_index page) (local_node_id n) zero_page),
       (fdb, page), (fdc, page_reply n req2 zero_page)] \<and>
    gpd_holders (node_gpd n') i = {unat a, unat (pkt_sender_node_id req), unat (pkt_sender_node_id req2)}"
proof -
  obtain ps where ps: "gpd_pending_reqs n = Some ps" using assms(2) by blast
  have len: "i < length ps" "i < length (node_gpd n)" using assms(1,5) ps by (auto simp: node_inv_def)
  have own: "owner_node_id (node_gpd n ! i) = a"
    using assms(8) by (auto simp: abs_entry_def word_unat_eq_iff split: msi_state.splits if_splits)
  have a0: "a \<noteq> 0" using assms(9) by (auto simp: valid_node_def)
  let ?b = "pkt_sender_node_id req"
  let ?c = "(ps ! i)\<lparr>cp_requester_node_id := ?b, cp_type := pkt_type req, cp_client_fd := fdb, cp_expected_acks := 0\<rparr>"
  let ?n1 = "send_packet fda (make_packet MSG_REQUEST_PAGE_READ (pkt_page_index page) (local_node_id n) zero_page)
      (n\<lparr>node_fds := learned n req fdb, gpd_pending_reqs := Some (ps[i := ?c])\<rparr>)"
  have n1: "dispatch K fdb n req = Inr ?n1"
    using fetch_when_owned [OF assms(1) ps assms(15), of K fdb] assms(4-6,10,11,13,14,16) own a0 by auto
  have inv1: "node_inv ?n1"
    using engine.serve_inv [of n req K fdb ?n1] assms(1,2,13,15) n1 by (simp add: sender_ok_def)
  have pages1: "i < num_pages ?n1" using assms(5) by simp
  have f1: "gpd_pending_reqs ?n1 = Some (ps[i := ?c])" "coordinator_fd ?n1 = - 1" "node_gpd ?n1 = node_gpd n"
    "local_node_id ?n1 = local_node_id n" "page_table ?n1 = page_table n"
    using assms(3) by (simp_all add: send_packet_def)
  have b0: "?b \<noteq> 0" using assms(15) by (auto simp: valid_node_def)
  obtain e where n2: "dispatch K fda ?n1 page = Inr (?n1\<lparr>node_gpd := (node_gpd ?n1)[i := e],
      sent_packets := sent_packets ?n1 @ [(cp_client_fd (ps[i := ?c] ! i), page)],
      gpd_pending_reqs := Some (ps[i := ?c, i := (ps[i := ?c] ! i)\<lparr>cp_requester_node_id := 0\<rparr>])\<rparr>)"
    and e: "abs_entry e = SharedBy (insert (unat ?b) (gpd_holders (node_gpd ?n1) i))"
    and free: "owner_node_id e = 0"
    by (rule relay_to_reader [OF inv1 f1(1,2) assms(12,4) pages1, of ?b K fda])
      (use assms(7,13,16) len b0 f1 that in simp_all)
  let ?n2 = "?n1\<lparr>node_gpd := (node_gpd ?n1)[i := e],
      sent_packets := sent_packets ?n1 @ [(cp_client_fd (ps[i := ?c] ! i), page)],
      gpd_pending_reqs := Some (ps[i := ?c, i := (ps[i := ?c] ! i)\<lparr>cp_requester_node_id := 0\<rparr>])\<rparr>"
  have inv2: "node_inv ?n2"
    using engine.serve_inv [of ?n1 page K fda ?n2] inv1 f1(1) assms(12) n2 by (simp add: sender_ok_def)
  have holders: "gpd_holders (node_gpd n) i = {unat a}"
    using len(2) assms(8) by (simp add: gpd_holders_def)
  have f2: "node_gpd ?n2 ! i = e" "num_pages ?n2 = num_pages n" "page_table ?n2 = page_table n"
    "length (node_gpd ?n2) = length (node_gpd n)" "local_node_id ?n2 = local_node_id n"
    using len(2) f1(3,5) by (simp_all add: send_packet_def)
  have "entry_ok e"
    using shared_entry_okI [OF e _ _ free] f1(3) holders assms(9,15) by (simp add: valid_node_def)
  then obtain n' e' where n3: "dispatch K fdc ?n2 req2 = Inr n'"
    and sent: "sent_packets n' = sent_packets ?n2 @ [(fdc, page_reply ?n2 req2 zero_page)]"
    and g: "node_gpd n' = (node_gpd ?n2)[i := e']"
    and e': "dir_holders (abs_entry e') = insert (unat (pkt_sender_node_id req2)) (gpd_holders (node_gpd ?n2) i)"
    using read_of_ownerless_page [OF inv2, of i req2 K fdc] assms(4-6,17-19) f2 free by metis
  have "run_packets K n [(fdb, req), (fda, page), (fdc, req2)] = Inr n'" using n1 n2 n3 by simp
  moreover have "gpd_holders (node_gpd n') i = {unat a, unat ?b, unat (pkt_sender_node_id req2)}"
    using g e' e f2(1,4) f1(3) holders len(2) by (auto simp: gpd_holders_def)
  moreover have "sent_packets n' = sent_packets n @
      [(fda, make_packet MSG_REQUEST_PAGE_READ (pkt_page_index page) (local_node_id n) zero_page),
       (fdb, page), (fdc, page_reply n req2 zero_page)]"
    using sent f2(5) len(1) by (simp add: send_packet_def page_reply_def)
  ultimately show ?thesis by blast
qed

theorem relayed_page_lost_witness:
  "\<exists>n'. run_packets map_kernel
      (hub \<lparr>state = STATE_MODIFIED, owner_node_id = 2, shared_nodes_bitmap = 0\<rparr> zero_page
        \<lparr>page_table := [\<lparr>pt_base_addr = 0x10000, pt_status = PAGE_EMPTY\<rparr>], node_mem := Map.empty\<rparr>)
      [(13, ask MSG_REQUEST_PAGE_READ 3), (12, make_packet MSG_SEND_PAGE 0 2 (replicate 4096 8)),
       (14, ask MSG_REQUEST_PAGE_READ 4)] = Inr n' \<and>
    sent_packets n' = [(12, make_packet MSG_REQUEST_PAGE_READ 0 1 zero_page),
      (13, make_packet MSG_SEND_PAGE 0 2 (replicate 4096 8)), (14, make_packet MSG_SEND_PAGE 0 1 zero_page)]"
proof -
  let ?e = "\<lparr>state = STATE_MODIFIED, owner_node_id = 2, shared_nodes_bitmap = 0\<rparr> :: gpd_entry"
  let ?n = "hub ?e zero_page\<lparr>page_table := [\<lparr>pt_base_addr = 0x10000, pt_status = PAGE_EMPTY\<rparr>], node_mem := Map.empty\<rparr>"
  let ?p = "make_packet MSG_SEND_PAGE 0 2 (replicate 4096 8)"
  have ok: "entry_ok ?e" by (simp add: entry_ok_def valid_node_def)
  have inv: "node_inv ?n" using hub_ok [OF ok] by (simp add: node_inv_def hub_def num_pages_def)
  have f: "gpd_pending_reqs ?n \<noteq> None" "coordinator_fd ?n = - 1" "0 = unat (pkt_page_index ?p)" "0 < num_pages ?n"
    "pt_status (page_table ?n ! 0) \<noteq> PAGE_VALID" "entry_ok (node_gpd ?n ! 0)"
    "abs_entry (node_gpd ?n ! 0) = OwnedBy (unat (2 :: u32))" "valid_node 2" "node_fds ?n ! unat (2 :: u32) = 12" "(12 :: int) \<noteq> - 1"
    "pkt_type ?p = MSG_SEND_PAGE" "pkt_type (ask MSG_REQUEST_PAGE_READ 3) = MSG_REQUEST_PAGE_READ"
    "pkt_page_index (ask MSG_REQUEST_PAGE_READ 3) = pkt_page_index ?p"
    "valid_node (pkt_sender_node_id (ask MSG_REQUEST_PAGE_READ 3))"
    "pkt_sender_node_id (ask MSG_REQUEST_PAGE_READ 3) \<notin> {2, local_node_id ?n}"
    "pkt_type (ask MSG_REQUEST_PAGE_READ 4) = MSG_REQUEST_PAGE_READ"
    "pkt_page_index (ask MSG_REQUEST_PAGE_READ 4) = pkt_page_index ?p"
    "valid_node (pkt_sender_node_id (ask MSG_REQUEST_PAGE_READ 4))"
    using ok by (simp_all add: hub_def num_pages_def make_packet_def valid_node_def abs_entry_def NODE_SLOTS_def)
  have "sent_packets ?n = []" "local_node_id ?n = 1" "pkt_page_index ?p = 0"
    "page_reply ?n (ask MSG_REQUEST_PAGE_READ 4) zero_page = make_packet MSG_SEND_PAGE 0 1 zero_page"
    by (simp_all add: hub_def make_packet_def page_reply_def)
  then show ?thesis
    using relayed_page_lost [OF inv f, of map_kernel 13 14] by (auto simp del: run_packets_simps)
qed

text \<open>C27. A write fault of the coordinator on a page that it holds no copy of and that has no recorded
  owner is answered at once with a writable page of zeros: no packet is sent, whoever the directory records
  as sharers, and they are forgotten while they keep their copies.\<close>

theorem local_write_forgets_sharers:
  assumes "kernel_ok K" and "node_inv n" and "coordinator_fd n = - 1" and "rq_is_write r"
    and "i = unat (rq_page_index r)" and "i < num_pages n"
    and "pt_status (page_table n ! i) \<notin> {PAGE_VALID, PAGE_WRITE_PENDING}"
    and "owner_node_id (node_gpd n ! i) = 0"
  shows "\<exists>n'. serve_local_request K r n = Inr n' \<and> sent_packets n' = sent_packets n \<and>
    gpd_holders (node_gpd n') i = {unat (local_node_id n)} \<and>
    view K (node_mem n') (pt_base_addr (page_table n' ! i)) = Some (zero_page, False)"
proof -
  have len: "i < length (page_table n)" "i < length (node_gpd n)"
    using assms(2,6) by (auto simp: node_inv_def num_pages_def)
  obtain n1 where n1: "install_page K i zero_page n = Inr n1" using install_page_returns [OF assms(6)] by blast
  note ch = install_page_change [OF n1]
  have me: "valid_node (local_node_id n1)" "local_node_id n1 = local_node_id n"
    using ch assms(2) by (auto simp: local_change_def node_inv_def)
  have inv1: "node_inv n1" "i < num_pages n1"
    using local_change_inv [OF ch assms(2)] local_change_pages [OF ch] assms(6) by auto
  obtain e msk n2 where n2: "to_modified i (local_node_id n1) n1 = Inr (msk, n2)"
    and g: "n2 = n1\<lparr>node_gpd := (node_gpd n1)[i := e]\<rparr>"
    and e: "state e = STATE_MODIFIED" "owner_node_id e = local_node_id n1"
    using to_modified_returns [OF inv1 me(1)] by metis
  have "serve_local_request K r n = install_zero_page K (rq_page_index r) True n"
    using assms(3-5,7,8) len by (auto simp: serve_local_request_def Let_def gpd_get_owner_def owner_reachable_def)
  also have "\<dots> = Inr n2" using n1 n2 assms(5) by (simp add: install_zero_page_def)
  finally have run: "serve_local_request K r n = Inr n2" .
  have "gpd_holders (node_gpd n2) i = {unat (local_node_id n)}"
    using ch len(2) e me(2) by (simp add: g gpd_holders_def abs_entry_def local_change_def)
  moreover have "sent_packets n2 = sent_packets n" using ch by (simp add: g local_change_def)
  moreover have "view K (node_mem n2) (pt_base_addr (page_table n2 ! i)) = Some (zero_page, False)"
    using install_page_view [OF assms(1) n1] ch len(1) by (auto simp: g local_change_def)
  ultimately show ?thesis using run by blast
qed

theorem local_write_forgets_sharers_witness:
  "gpd_holders [shared_entry] 0 = {1, 2, 3} \<and>
   (\<exists>n'. serve_local_request map_kernel \<lparr>rq_page_index = 0, rq_is_write = True\<rparr>
      (hub shared_entry zero_page\<lparr>page_table := [\<lparr>pt_base_addr = 0x10000, pt_status = PAGE_PENDING\<rparr>],
         node_mem := Map.empty\<rparr>) = Inr n' \<and>
      sent_packets n' = [] \<and> gpd_holders (node_gpd n') 0 = {1})"
proof -
  let ?n = "hub shared_entry zero_page\<lparr>page_table := [\<lparr>pt_base_addr = 0x10000, pt_status = PAGE_PENDING\<rparr>],
      node_mem := Map.empty\<rparr>"
  let ?r = "\<lparr>rq_page_index = 0, rq_is_write = True\<rparr>"
  have "node_inv ?n" using hub_ok [OF shared_entry_ok(1)] by (simp add: node_inv_def hub_def num_pages_def)
  moreover have "coordinator_fd ?n = - 1" "0 = unat (rq_page_index ?r)" "0 < num_pages ?n" "rq_is_write ?r"
    "pt_status (page_table ?n ! 0) \<notin> {PAGE_VALID, PAGE_WRITE_PENDING}" "owner_node_id (node_gpd ?n ! 0) = 0"
    by (simp_all add: hub_def num_pages_def shared_entry_def)
  moreover have "sent_packets ?n = []" "local_node_id ?n = 1" by (simp_all add: hub_def)
  ultimately show ?thesis
    using local_write_forgets_sharers [OF map_kernel_ok, of ?n ?r 0] by auto
qed

end
