(* ===== verification/Sequencer.thy ===== *)
theory Sequencer
  imports Gpd Wire Node_State
begin

text \<open>
  The per-page sequencer of \<^verbatim>\<open>coordinator_sequencer.h\<close> and \<^verbatim>\<open>coordinator_sequencer.c\<close>: one transaction
  at a time for a page, later requests in a queue. It is linked into the program, but nothing calls
  it; the engine of \<^verbatim>\<open>network_engine.c\<close> has its own way of waiting for acknowledgements. Every
  operation is one critical section under the \<open>page_lock\<close>.
\<close>

section \<open>State\<close>

record deferred_request =
  dr_node_id :: u32
  dr_type :: u8
  dr_client_fd :: int
  dr_page_index :: u64

text \<open>The linked list from \<open>queue_head\<close> to \<open>queue_tail\<close> is a list, head first.\<close>

record page_sequencer =
  transaction_active :: bool
  active_node :: u32
  expected_acks :: u32
  deferred_queue :: "deferred_request list"

text \<open>
  The table, the directory, and the packets given to \<open>send_packet_to_node\<close> with their descriptors.
\<close>

record sequencer =
  sequencer_table :: "page_sequencer list"
  sq_gpd :: gpd
  sq_sent :: "(int \<times> dsm_packet) list"

text \<open>\<open>None\<close>: the table could not be allocated and the process exits.\<close>

definition coordinator_sequencer_init :: "nat \<Rightarrow> bool \<Rightarrow> page_sequencer list option" where
  "coordinator_sequencer_init total_pages malloc_ok =
     (if \<not> malloc_ok then None
      else Some (replicate total_pages
        \<lparr>transaction_active = False, active_node = 0, expected_acks = 0, deferred_queue = []\<rparr>))"

section \<open>Transactions\<close>

definition ack_slots :: "u64 \<Rightarrow> u32 \<Rightarrow> nat list" where
  "ack_slots msk node_id = filter (\<lambda>i. msk AND node_bit i \<noteq> 0 \<and> int i \<noteq> sint node_id) [0..<64]"

definition put_sequencer :: "nat \<Rightarrow> page_sequencer \<Rightarrow> sequencer \<Rightarrow> sequencer" where
  "put_sequencer i seq s = s\<lparr>sequencer_table := (sequencer_table s)[i := seq]\<rparr>"

definition emit :: "(int \<times> dsm_packet) list \<Rightarrow> sequencer \<Rightarrow> sequencer" where
  "emit ps s = s\<lparr>sq_sent := sq_sent s @ ps\<rparr>"

definition execute_gpd_transaction ::
  "nat \<Rightarrow> page_sequencer \<Rightarrow> u64 \<Rightarrow> u32 \<Rightarrow> u8 \<Rightarrow> int \<Rightarrow> int list \<Rightarrow> sequencer \<Rightarrow> sequencer comp" where
  "execute_gpd_transaction i seq0 page_idx node_id ty client_fd fds s =
     (let seq = seq0\<lparr>transaction_active := True, active_node := node_id\<rparr>;
          done = seq\<lparr>transaction_active := False, active_node := 0\<rparr> in
      if ty = MSG_REQUEST_PAGE_WRITE then
        andthen (gpd_transition_to_modified (sq_gpd s) (unat page_idx) node_id 0) (\<lambda>(_, msk, g).
          let s1 = s\<lparr>sq_gpd := g\<rparr>; slots = ack_slots msk node_id;
              acks_needed = of_nat (length slots) :: u32 in
          if acks_needed > 0 then
            let inv_packet = make_packet MSG_INVALIDATE page_idx 0 zero_page in
            if length fds < 64 then Inl BadIndex
            else Inr (emit (map (\<lambda>m. (fds ! m, inv_packet)) (filter (\<lambda>m. fds ! m \<noteq> - 1) slots))
                   (put_sequencer i (seq\<lparr>expected_acks := acks_needed\<rparr>) s1))
          else
            Inr (emit [(client_fd, make_packet MSG_SEND_PAGE page_idx 0 zero_page)]
              (put_sequencer i (done\<lparr>expected_acks := acks_needed\<rparr>) s1)))
      else if ty = MSG_REQUEST_PAGE_READ then
        andthen (gpd_transition_to_shared (sq_gpd s) (unat page_idx) node_id 0) (\<lambda>(_, old_owner, g).
          let s1 = s\<lparr>sq_gpd := g\<rparr> in
          if old_owner \<noteq> 0 \<and> old_owner \<noteq> node_id then
            andthen (get_at fds (unat old_owner)) (\<lambda>fd.
              Inr (emit [(fd, make_packet MSG_INVALIDATE page_idx node_id zero_page)]
                (put_sequencer i (seq\<lparr>expected_acks := 1\<rparr>) s1)))
          else
            Inr (emit [(client_fd, make_packet MSG_SEND_PAGE page_idx 0 zero_page)]
              (put_sequencer i done s1)))
      else Inr (put_sequencer i seq s))"

text \<open>\<open>malloc_ok\<close>: the deferred request could be allocated, which the code does not check.\<close>

definition process_node_request ::
  "bool \<Rightarrow> int \<Rightarrow> dsm_packet \<Rightarrow> int list \<Rightarrow> sequencer \<Rightarrow> sequencer comp" where
  "process_node_request malloc_ok client_fd packet fds s =
     (let page_idx = pkt_page_index packet; node_id = pkt_sender_node_id packet; ty = pkt_type packet;
          i = unat page_idx in
      if i \<ge> length (sequencer_table s) then Inr s
      else
        let seq = sequencer_table s ! i in
        if transaction_active seq then
          if \<not> malloc_ok then Inl NullDeref
          else Inr (put_sequencer i (seq\<lparr>deferred_queue := deferred_queue seq @
            [\<lparr>dr_node_id = node_id, dr_type = ty, dr_client_fd = client_fd, dr_page_index = page_idx\<rparr>]\<rparr>) s)
        else execute_gpd_transaction i seq page_idx node_id ty client_fd fds s)"

definition process_node_invalidate_ack :: "u64 \<Rightarrow> int list \<Rightarrow> sequencer \<Rightarrow> sequencer comp" where
  "process_node_invalidate_ack page_index fds s =
     (let i = unat page_index in
      if i \<ge> length (sequencer_table s) then Inr s
      else
        let seq = sequencer_table s ! i in
        if \<not> transaction_active seq \<or> expected_acks seq = 0 then Inr s
        else
          let seq1 = seq\<lparr>expected_acks := expected_acks seq - 1\<rparr> in
          if expected_acks seq1 = 0 then
            andthen (get_at fds (unat (active_node seq1))) (\<lambda>active_node_fd.
              let s1 = (if active_node_fd \<noteq> - 1
                        then emit [(active_node_fd, make_packet MSG_SEND_PAGE page_index 0 zero_page)] s
                        else s);
                  seq2 = seq1\<lparr>transaction_active := False, active_node := 0\<rparr> in
              case deferred_queue seq2 of
                [] \<Rightarrow> Inr (put_sequencer i seq2 s1)
              | r # rest \<Rightarrow>
                  execute_gpd_transaction i (seq2\<lparr>deferred_queue := rest\<rparr>) (dr_page_index r) (dr_node_id r)
                    (dr_type r) (dr_client_fd r) fds s1)
          else Inr (put_sequencer i seq1 s))"

section \<open>Lemmas\<close>

lemma put_sequencer_simps [simp]:
  "sq_gpd (put_sequencer i seq s) = sq_gpd s" "sq_sent (put_sequencer i seq s) = sq_sent s"
  "sequencer_table (put_sequencer i seq s) = (sequencer_table s)[i := seq]"
  by (simp_all add: put_sequencer_def)

lemma emit_simps [simp]:
  "sq_gpd (emit ps s) = sq_gpd s" "sq_sent (emit ps s) = sq_sent s @ ps"
  "sequencer_table (emit ps s) = sequencer_table s"
  by (simp_all add: emit_def)

lemma small_sint:
  assumes "unat (n :: u32) < 64"
  shows "sint n = int (unat n)"
proof -
  have "int (unat n) < int 64" using assms by (simp only: of_nat_less_iff)
  then have u: "uint n < 2 ^ 31" by simp
  have "- (2 ^ 31) \<le> uint n"
    by (rule order_trans [of _ 0]) simp_all
  then have "signed_take_bit 31 (uint n) = uint n"
    using u by (rule signed_take_bit_int_eq_self)
  then show ?thesis by (simp add: sint_uint)
qed

lemma set_ack_slots:
  assumes "unat n < 64"
  shows "set (ack_slots msk n) = nodes_of msk - {unat n}" and "distinct (ack_slots msk n)"
proof -
  have "x < 64 \<and> msk AND node_bit x \<noteq> 0 \<longleftrightarrow> bit msk x" for x
    using and_node_bit_nonzero [of x msk] bit_word_less [of msk x] by blast
  then show "set (ack_slots msk n) = nodes_of msk - {unat n}"
    unfolding ack_slots_def small_sint [OF assms] of_nat_eq_iff set_filter in_nodes_of nodes_of_def
    by (simp add: set_eq_iff) blast
qed (simp add: ack_slots_def)

lemma length_ack_slots: "length (ack_slots msk n) \<le> 64"
  using length_filter_le [of _ "[0..<64]"] by (simp add: ack_slots_def)

lemma ack_slots_count: "unat (of_nat (length (ack_slots msk n)) :: u32) = length (ack_slots msk n)"
proof -
  have "length (ack_slots msk n) < 2 ^ LENGTH(32)"
    by (rule le_less_trans [OF length_ack_slots]) simp
  then show ?thesis by (rule of_nat_inverse [OF refl])
qed

text \<open>One write transaction on a well-formed directory.\<close>

lemma write_transaction:
  assumes "gpd_inv (sq_gpd s)" and "unat page_idx < length (sq_gpd s)" and "valid_node node_id"
    and "length fds = 64"
  defines "others \<equiv> gpd_holders (sq_gpd s) (unat page_idx) - {unat node_id}"
  obtains s' slots e where
    "execute_gpd_transaction i seq page_idx node_id MSG_REQUEST_PAGE_WRITE client_fd fds s = Inr s'"
    and "distinct slots" and "set slots = others"
    and "sq_gpd s' = (sq_gpd s)[unat page_idx := e]" and "abs_entry e = OwnedBy (unat node_id)" and "entry_ok e"
    and "sequencer_table s' = (sequencer_table s)[i := seq\<lparr>
      transaction_active := slots \<noteq> [], active_node := (if slots = [] then 0 else node_id),
      expected_acks := of_nat (length slots)\<rparr>]"
    and "sq_sent s' = sq_sent s @ (if slots = [] then [(client_fd, make_packet MSG_SEND_PAGE page_idx 0 zero_page)]
      else map (\<lambda>m. (fds ! m, make_packet MSG_INVALIDATE page_idx 0 zero_page)) (filter (\<lambda>m. fds ! m \<noteq> - 1) slots))"
proof -
  obtain e msk where m: "gpd_transition_to_modified (sq_gpd s) (unat page_idx) node_id 0 =
      Inr (True, msk, (sq_gpd s)[unat page_idx := e])"
    and e: "abs_entry e = OwnedBy (unat node_id)" "entry_ok e"
    and msk: "nodes_of msk = dir_holders (abs_entry (sq_gpd s ! unat page_idx)) - {unat node_id}"
    using to_modified_step [OF assms(1-3), of 0] by auto
  let ?slots = "ack_slots msk node_id"
  have slots: "set ?slots = others" "distinct ?slots"
    using set_ack_slots [OF valid_nodeD [OF assms(3)], of msk] msk assms(2)
    by (auto simp: others_def gpd_holders_def)
  have zero: "(of_nat (length ?slots) :: u32) > 0 \<longleftrightarrow> ?slots \<noteq> []"
    by (simp only: word_less_nat_alt ack_slots_count unat_0 length_greater_0_conv)
  show thesis
  proof (cases "?slots = []")
    case True
    then have r: "execute_gpd_transaction i seq page_idx node_id MSG_REQUEST_PAGE_WRITE client_fd fds s =
        Inr (emit [(client_fd, make_packet MSG_SEND_PAGE page_idx 0 zero_page)]
          (put_sequencer i (seq\<lparr>transaction_active := False, active_node := 0, expected_acks := 0\<rparr>)
            (s\<lparr>sq_gpd := (sq_gpd s)[unat page_idx := e]\<rparr>)))"
      using m by (simp add: execute_gpd_transaction_def Let_def)
    show thesis by (rule that [OF r, of "[]" e]) (use True slots e in simp_all)
  next
    case False
    have r: "execute_gpd_transaction i seq page_idx node_id MSG_REQUEST_PAGE_WRITE client_fd fds s =
        Inr (emit (map (\<lambda>m. (fds ! m, make_packet MSG_INVALIDATE page_idx 0 zero_page))
              (filter (\<lambda>m. fds ! m \<noteq> - 1) ?slots))
          (put_sequencer i (seq\<lparr>transaction_active := True, active_node := node_id,
              expected_acks := of_nat (length ?slots)\<rparr>)
            (s\<lparr>sq_gpd := (sq_gpd s)[unat page_idx := e]\<rparr>)))"
      using m zero False assms(4) by (simp add: execute_gpd_transaction_def Let_def)
    show thesis by (rule that [OF r, of ?slots e]) (use False slots e in simp_all)
  qed
qed

fun acks_arrive :: "nat \<Rightarrow> u64 \<Rightarrow> int list \<Rightarrow> sequencer \<Rightarrow> sequencer comp" where
  "acks_arrive 0 page_index fds s = Inr s"
| "acks_arrive (Suc k) page_index fds s =
     andthen (process_node_invalidate_ack page_index fds s) (acks_arrive k page_index fds)"

lemma early_ack:
  assumes "i = unat page_index" and "i < length (sequencer_table s)" and "seq = sequencer_table s ! i"
    and "transaction_active seq" and "Suc 0 < unat (expected_acks seq)"
  shows "process_node_invalidate_ack page_index fds s =
    Inr (put_sequencer i (seq\<lparr>expected_acks := expected_acks seq - 1\<rparr>) s)"
    and "unat (expected_acks seq - 1) = unat (expected_acks seq) - 1"
proof -
  have "expected_acks seq \<noteq> 0" using assms(5) by auto
  then show *: "unat (expected_acks seq - 1) = unat (expected_acks seq) - 1" by (simp add: unat_minus_one)
  have "expected_acks seq - 1 \<noteq> 0" using * assms(5) by auto
  then show "process_node_invalidate_ack page_index fds s =
    Inr (put_sequencer i (seq\<lparr>expected_acks := expected_acks seq - 1\<rparr>) s)"
    using assms \<open>expected_acks seq \<noteq> 0\<close> by (simp add: process_node_invalidate_ack_def Let_def)
qed

lemma early_acks:
  "i = unat page_index \<Longrightarrow> i < length (sequencer_table s) \<Longrightarrow> transaction_active (sequencer_table s ! i) \<Longrightarrow>
     k < unat (expected_acks (sequencer_table s ! i)) \<Longrightarrow>
     \<exists>s' a. acks_arrive k page_index fds s = Inr s' \<and> unat a = unat (expected_acks (sequencer_table s ! i)) - k \<and>
       s' = put_sequencer i ((sequencer_table s ! i)\<lparr>expected_acks := a\<rparr>) s"
proof (induction k arbitrary: s)
  case 0
  have "put_sequencer i ((sequencer_table s ! i)\<lparr>expected_acks := expected_acks (sequencer_table s ! i)\<rparr>) s = s"
    by (simp add: put_sequencer_def)
  then show ?case by (metis acks_arrive.simps(1) diff_zero)
next
  case (Suc k)
  let ?seq = "sequencer_table s ! i"
  let ?s1 = "put_sequencer i (?seq\<lparr>expected_acks := expected_acks ?seq - 1\<rparr>) s"
  have step: "process_node_invalidate_ack page_index fds s = Inr ?s1"
    and less: "unat (expected_acks ?seq - 1) = unat (expected_acks ?seq) - 1"
    using early_ack [OF Suc.prems(1,2) refl Suc.prems(3)] Suc.prems(4) by simp_all
  have "\<exists>s' a. acks_arrive k page_index fds ?s1 = Inr s' \<and>
      unat a = unat (expected_acks (sequencer_table ?s1 ! i)) - k \<and>
      s' = put_sequencer i ((sequencer_table ?s1 ! i)\<lparr>expected_acks := a\<rparr>) ?s1"
    using Suc.prems less by (intro Suc.IH) auto
  then show ?case using step less Suc.prems(2) by (simp add: put_sequencer_def)
qed

section \<open>Properties\<close>

text \<open>One transaction at a time: while a transaction on a page is active, a request for it only
  goes to the end of the page's queue; nothing is sent and the directory does not change.\<close>

lemma busy_page_defers:
  assumes "i = unat (pkt_page_index packet)" and "i < length (sequencer_table s)"
    and "transaction_active (sequencer_table s ! i)"
  shows "\<exists>s'. process_node_request True client_fd packet fds s = Inr s' \<and>
    sq_sent s' = sq_sent s \<and> sq_gpd s' = sq_gpd s \<and>
    sequencer_table s' = (sequencer_table s)[i := (sequencer_table s ! i)\<lparr>deferred_queue :=
      deferred_queue (sequencer_table s ! i) @ [\<lparr>dr_node_id = pkt_sender_node_id packet,
        dr_type = pkt_type packet, dr_client_fd = client_fd, dr_page_index = pkt_page_index packet\<rparr>]\<rparr>]"
  using assms by (simp add: process_node_request_def Let_def)

definition busy_sequencer :: "u32 \<Rightarrow> deferred_request list \<Rightarrow> sequencer" where
  "busy_sequencer acks deferred = \<lparr>sequencer_table = [\<lparr>transaction_active = True, active_node = 2,
     expected_acks = acks, deferred_queue = deferred\<rparr>],
     sq_gpd = [\<lparr>state = STATE_MODIFIED, owner_node_id = 2, shared_nodes_bitmap = 0\<rparr>], sq_sent = []\<rparr>"

lemma busy_page_defers_instance:
  "\<exists>s'. process_node_request True 13 (make_packet MSG_REQUEST_PAGE_READ 0 3 zero_page) [] (busy_sequencer 1 []) = Inr s' \<and>
     deferred_queue (sequencer_table s' ! 0) = [\<lparr>dr_node_id = 3, dr_type = MSG_REQUEST_PAGE_READ,
       dr_client_fd = 13, dr_page_index = 0\<rparr>]"
  using busy_page_defers [of 0 "make_packet MSG_REQUEST_PAGE_READ 0 3 zero_page" "busy_sequencer 1 []" 13 "[]"]
  by (auto simp: busy_sequencer_def make_packet_def)

text \<open>C34. A write request for an idle page: the writer becomes the owner; without other holders it is
  granted at once; otherwise as many acknowledgements are awaited as there are other holders, while
  invalidations go only to those whose socket is known, so a holder without one is waited for although
  it was never told. Grants and invalidations alike carry a page of zeros.\<close>

theorem sequencer_write_request:
  assumes "gpd_inv (sq_gpd s)" and "i = unat (pkt_page_index packet)" and "i < length (sq_gpd s)"
    and "i < length (sequencer_table s)" and "\<not> transaction_active (sequencer_table s ! i)"
    and "pkt_type packet = MSG_REQUEST_PAGE_WRITE" and "valid_node (pkt_sender_node_id packet)"
    and "length fds = 64" and "others = gpd_holders (sq_gpd s) i - {unat (pkt_sender_node_id packet)}"
  shows "\<exists>s' slots. process_node_request malloc_ok client_fd packet fds s = Inr s' \<and>
    distinct slots \<and> set slots = others \<and>
    gpd_exclusive (sq_gpd s') i = Some (unat (pkt_sender_node_id packet)) \<and>
    sq_sent s' = sq_sent s @
      (if others = {} then [(client_fd, make_packet MSG_SEND_PAGE (pkt_page_index packet) 0 zero_page)]
       else map (\<lambda>m. (fds ! m, make_packet MSG_INVALIDATE (pkt_page_index packet) 0 zero_page))
         (filter (\<lambda>m. fds ! m \<noteq> - 1) slots)) \<and>
    (transaction_active (sequencer_table s' ! i) \<longleftrightarrow> others \<noteq> {}) \<and>
    unat (expected_acks (sequencer_table s' ! i)) = card others"
proof -
  let ?seq = "sequencer_table s ! i" and ?idx = "pkt_page_index packet" and ?req = "pkt_sender_node_id packet"
  have start: "process_node_request malloc_ok client_fd packet fds s =
      execute_gpd_transaction i ?seq ?idx ?req MSG_REQUEST_PAGE_WRITE client_fd fds s"
    using assms(2,4-6) by (simp add: process_node_request_def Let_def)
  obtain s' slots e where
    r: "execute_gpd_transaction i ?seq ?idx ?req MSG_REQUEST_PAGE_WRITE client_fd fds s = Inr s'"
    and slots: "distinct slots" "set slots = others"
    and g: "sq_gpd s' = (sq_gpd s)[unat ?idx := e]" "abs_entry e = OwnedBy (unat ?req)"
    and t: "sequencer_table s' = (sequencer_table s)[i := ?seq\<lparr>
      transaction_active := slots \<noteq> [], active_node := (if slots = [] then 0 else ?req),
      expected_acks := of_nat (length slots)\<rparr>]"
    and out: "sq_sent s' = sq_sent s @ (if slots = [] then [(client_fd, make_packet MSG_SEND_PAGE ?idx 0 zero_page)]
      else map (\<lambda>m. (fds ! m, make_packet MSG_INVALIDATE ?idx 0 zero_page)) (filter (\<lambda>m. fds ! m \<noteq> - 1) slots))"
    by (rule write_transaction [OF assms(1) assms(3) [unfolded assms(2)] assms(7,8), of i ?seq client_fd])
      (rule that; simp only: assms(9) assms(2))
  have card: "card others = length slots" using slots distinct_card by fastforce
  have "others \<subseteq> {..<64}"
    using gpd_safe_bound [OF gpd_inv_safe [OF assms(1)]] assms(9) by auto
  then have "length slots \<le> 64" using card_mono [of "{..<64}" others] card by simp
  then have "length slots < 2 ^ LENGTH(32)" by simp
  then have count: "unat (of_nat (length slots) :: u32) = length slots" by (rule of_nat_inverse [OF refl])
  have "gpd_exclusive (sq_gpd s') i = Some (unat ?req)"
    using g assms(2,3) by (cases "state e") (auto simp: gpd_exclusive_def abs_entry_def)
  then show ?thesis
    using start r slots out t card count assms(4) by (intro exI [of _ s'] exI [of _ slots]) auto
qed

definition idle_sequencer :: sequencer where
  "idle_sequencer = \<lparr>sequencer_table = [\<lparr>transaction_active = False, active_node = 0,
     expected_acks = 0, deferred_queue = []\<rparr>],
     sq_gpd = [\<lparr>state = STATE_MODIFIED, owner_node_id = 2, shared_nodes_bitmap = 0\<rparr>], sq_sent = []\<rparr>"

theorem sequencer_write_request_witness:
  "\<exists>s'. process_node_request False 13 (make_packet MSG_REQUEST_PAGE_WRITE 0 3 zero_page) (replicate 64 (- 1)) idle_sequencer = Inr s' \<and>
     sq_sent s' = [] \<and> unat (expected_acks (sequencer_table s' ! 0)) = 1"
proof -
  let ?p = "make_packet MSG_REQUEST_PAGE_WRITE 0 3 zero_page"
  have "gpd_inv (sq_gpd idle_sequencer)" "0 = unat (pkt_page_index ?p)" "0 < length (sq_gpd idle_sequencer)"
    "0 < length (sequencer_table idle_sequencer)" "\<not> transaction_active (sequencer_table idle_sequencer ! 0)"
    "pkt_type ?p = MSG_REQUEST_PAGE_WRITE" "valid_node (pkt_sender_node_id ?p)"
    "length (replicate 64 (- 1 :: int)) = 64"
    "{2} = gpd_holders (sq_gpd idle_sequencer) 0 - {unat (pkt_sender_node_id ?p)}"
    by (simp_all add: idle_sequencer_def gpd_inv_def entry_ok_def valid_node_def make_packet_def
        gpd_holders_def abs_entry_def)
  from sequencer_write_request [OF this, of False 13] obtain s' slots where
    s': "process_node_request False 13 ?p (replicate 64 (- 1)) idle_sequencer = Inr s'"
    and slots: "set slots = {2}" "unat (expected_acks (sequencer_table s' ! 0)) = 1"
    and out: "sq_sent s' = sq_sent idle_sequencer @ map (\<lambda>m. (replicate 64 (- 1) ! m,
        make_packet MSG_INVALIDATE (pkt_page_index ?p) 0 zero_page)) (filter (\<lambda>m. replicate 64 (- 1 :: int) ! m \<noteq> - 1) slots)"
    by auto
  have "filter (\<lambda>m. replicate 64 (- 1 :: int) ! m \<noteq> - 1) slots = []"
    using slots(1) by (auto simp: filter_empty_conv)
  then show ?thesis using s' slots(2) out by (simp add: idle_sequencer_def)
qed

text \<open>C35. The waiting grant: fewer acknowledgements than expected send nothing and leave the page
  locked; the last one sends the grant to the active node's socket, when it has one, and unlocks the
  page if no request was deferred.\<close>

theorem sequencer_grant_on_last_ack:
  assumes "i = unat page_index" and "i < length (sequencer_table s)" and "seq = sequencer_table s ! i"
    and "transaction_active seq" and "unat (expected_acks seq) = Suc k" and "deferred_queue seq = []"
    and "unat (active_node seq) < length fds"
  shows "\<exists>s1 s2. acks_arrive k page_index fds s = Inr s1 \<and> sq_sent s1 = sq_sent s \<and>
    transaction_active (sequencer_table s1 ! i) \<and>
    process_node_invalidate_ack page_index fds s1 = Inr s2 \<and>
    \<not> transaction_active (sequencer_table s2 ! i) \<and>
    sq_sent s2 = sq_sent s @ (if fds ! unat (active_node seq) \<noteq> - 1
      then [(fds ! unat (active_node seq), make_packet MSG_SEND_PAGE page_index 0 zero_page)] else [])"
proof -
  obtain s1 a where s1: "acks_arrive k page_index fds s = Inr s1" "unat a = 1"
    "s1 = put_sequencer i (seq\<lparr>expected_acks := a\<rparr>) s"
    using early_acks [of i page_index s k fds] assms(1-5) by auto
  have "a = 1" using s1(2) by (metis unat_1 word_unat_eq_iff)
  then have "process_node_invalidate_ack page_index fds s1 = Inr (put_sequencer i
      (seq\<lparr>expected_acks := 0, transaction_active := False, active_node := 0\<rparr>)
      (if fds ! unat (active_node seq) \<noteq> - 1
       then emit [(fds ! unat (active_node seq), make_packet MSG_SEND_PAGE page_index 0 zero_page)] s1 else s1))"
    using assms s1(3) by (simp add: process_node_invalidate_ack_def Let_def)
  then show ?thesis using s1 assms(2,4) by simp
qed

theorem sequencer_grant_on_last_ack_witness:
  "\<exists>s1 s2. acks_arrive 1 0 (replicate 64 8) (busy_sequencer 2 []) = Inr s1 \<and>
     process_node_invalidate_ack 0 (replicate 64 8) s1 = Inr s2 \<and>
     sq_sent s2 = [(8, make_packet MSG_SEND_PAGE 0 0 zero_page)]"
  using sequencer_grant_on_last_ack [of 0 0 "busy_sequencer 2 []" "sequencer_table (busy_sequencer 2 []) ! 0" 1
      "replicate 64 8"] by (auto simp: busy_sequencer_def)

text \<open>C36. The last acknowledgement of a transaction takes up only the head of the deferred requests. If that
  is a write by the only recorded holder, it is granted at once, the page is idle again, and the other
  deferred requests stay in the queue: further acknowledgements do nothing, and a write request that arrives
  later is served before them.\<close>

theorem deferred_requests_stranded:
  assumes "gpd_inv (sq_gpd s)" and "i = unat page_index" and "i < length (sq_gpd s)"
    and "i < length (sequencer_table s)" and "seq = sequencer_table s ! i"
    and "transaction_active seq" and "expected_acks seq = 1" and "length fds = 64"
    and "unat (active_node seq) < 64" and "deferred_queue seq = r # rest"
    and "dr_type r = MSG_REQUEST_PAGE_WRITE" and "dr_page_index r = page_index" and "valid_node (dr_node_id r)"
    and "gpd_holders (sq_gpd s) i \<subseteq> {unat (dr_node_id r)}"
    and "pkt_type later = MSG_REQUEST_PAGE_WRITE" and "pkt_page_index later = page_index"
    and "valid_node (pkt_sender_node_id later)"
  shows "\<exists>s' s''. process_node_invalidate_ack page_index fds s = Inr s' \<and>
    sq_sent s' = sq_sent s @ (if fds ! unat (active_node seq) \<noteq> - 1
        then [(fds ! unat (active_node seq), make_packet MSG_SEND_PAGE page_index 0 zero_page)] else []) @
      [(dr_client_fd r, make_packet MSG_SEND_PAGE page_index 0 zero_page)] \<and>
    \<not> transaction_active (sequencer_table s' ! i) \<and> deferred_queue (sequencer_table s' ! i) = rest \<and>
    (\<forall>k. acks_arrive k page_index fds s' = Inr s') \<and>
    process_node_request malloc_ok client_fd later fds s' = Inr s'' \<and>
    gpd_exclusive (sq_gpd s'') i = Some (unat (pkt_sender_node_id later)) \<and>
    deferred_queue (sequencer_table s'' ! i) = rest"
proof -
  let ?fd = "fds ! unat (active_node seq)"
  let ?s1 = "if ?fd \<noteq> - 1 then emit [(?fd, make_packet MSG_SEND_PAGE page_index 0 zero_page)] s else s"
  let ?seq = "seq\<lparr>expected_acks := 0, transaction_active := False, active_node := 0, deferred_queue := rest\<rparr>"
  have start: "process_node_invalidate_ack page_index fds s =
      execute_gpd_transaction i ?seq page_index (dr_node_id r) MSG_REQUEST_PAGE_WRITE (dr_client_fd r) fds ?s1"
    using assms(2-12) by (simp add: process_node_invalidate_ack_def Let_def)
  have g: "sq_gpd ?s1 = sq_gpd s" "sequencer_table ?s1 = sequencer_table s" by simp_all
  obtain s' slots e where r: "execute_gpd_transaction i ?seq page_index (dr_node_id r) MSG_REQUEST_PAGE_WRITE
      (dr_client_fd r) fds ?s1 = Inr s'"
    and slots: "set slots = gpd_holders (sq_gpd ?s1) (unat page_index) - {unat (dr_node_id r)}"
    and d: "sq_gpd s' = (sq_gpd ?s1)[unat page_index := e]" "abs_entry e = OwnedBy (unat (dr_node_id r))" "entry_ok e"
    and t: "sequencer_table s' = (sequencer_table ?s1)[i := ?seq\<lparr>
      transaction_active := slots \<noteq> [], active_node := (if slots = [] then 0 else dr_node_id r),
      expected_acks := of_nat (length slots)\<rparr>]"
    and out: "sq_sent s' = sq_sent ?s1 @ (if slots = []
      then [(dr_client_fd r, make_packet MSG_SEND_PAGE page_index 0 zero_page)]
      else map (\<lambda>m. (fds ! m, make_packet MSG_INVALIDATE page_index 0 zero_page)) (filter (\<lambda>m. fds ! m \<noteq> - 1) slots))"
    using write_transaction [of ?s1 page_index "dr_node_id r" fds i ?seq "dr_client_fd r"] assms(1-3,8,13) g
    by metis
  have "gpd_holders (sq_gpd s) (unat page_index) - {unat (dr_node_id r)} = {}"
    using assms(2,14) by blast
  then have "set slots = {}" using slots g(1) by simp
  then have none: "slots = []" by simp
  have seq': "sequencer_table s' ! i = ?seq" "length (sequencer_table s') = length (sequencer_table s)"
    using t g(2) assms(4) none by simp_all
  have "process_node_invalidate_ack page_index fds s' = Inr s'"
    using assms(2) seq' by (simp add: process_node_invalidate_ack_def Let_def)
  then have idle: "acks_arrive k page_index fds s' = Inr s'" for k by (induction k) simp_all
  have inv': "gpd_inv (sq_gpd s')" "unat page_index < length (sq_gpd s')"
    using d(1,3) g(1) assms(1-3) gpd_inv_update [of "sq_gpd s" e] by simp_all
  have start': "process_node_request malloc_ok client_fd later fds s' = execute_gpd_transaction i ?seq page_index
      (pkt_sender_node_id later) MSG_REQUEST_PAGE_WRITE client_fd fds s'"
    using assms(2,4,15,16) seq' by (simp add: process_node_request_def Let_def)
  obtain s'' e' and slots' :: "nat list" where r': "execute_gpd_transaction i ?seq page_index (pkt_sender_node_id later)
      MSG_REQUEST_PAGE_WRITE client_fd fds s' = Inr s''"
    and d': "sq_gpd s'' = (sq_gpd s')[unat page_index := e']" "abs_entry e' = OwnedBy (unat (pkt_sender_node_id later))"
    and t': "sequencer_table s'' = (sequencer_table s')[i := ?seq\<lparr>
      transaction_active := slots' \<noteq> [], active_node := (if slots' = [] then 0 else pkt_sender_node_id later),
      expected_acks := of_nat (length slots')\<rparr>]"
    by (rule write_transaction [OF inv' assms(17,8), of i ?seq client_fd]) (rule that, assumption+)
  have "gpd_exclusive (sq_gpd s'') i = Some (unat (pkt_sender_node_id later))"
    using d' inv'(2) assms(2) by (cases "state e'") (auto simp: gpd_exclusive_def abs_entry_def)
  moreover have "deferred_queue (sequencer_table s'' ! i) = rest" using t' seq'(2) assms(4) by simp
  moreover have "sq_sent s' = sq_sent s @ (if ?fd \<noteq> - 1
        then [(?fd, make_packet MSG_SEND_PAGE page_index 0 zero_page)] else []) @
      [(dr_client_fd r, make_packet MSG_SEND_PAGE page_index 0 zero_page)]"
    using out none by simp
  ultimately show ?thesis using start r seq' idle start' r' by (intro exI [of _ s'] exI [of _ s'']) simp
qed

theorem deferred_requests_stranded_witness:
  "\<exists>s' s''. process_node_invalidate_ack 0 (replicate 64 8) (busy_sequencer 1
      [\<lparr>dr_node_id = 2, dr_type = MSG_REQUEST_PAGE_WRITE, dr_client_fd = 12, dr_page_index = 0\<rparr>,
       \<lparr>dr_node_id = 3, dr_type = MSG_REQUEST_PAGE_READ, dr_client_fd = 13, dr_page_index = 0\<rparr>]) = Inr s' \<and>
     process_node_request True 14 (make_packet MSG_REQUEST_PAGE_WRITE 0 4 zero_page) (replicate 64 8) s' = Inr s'' \<and>
     gpd_exclusive (sq_gpd s'') 0 = Some 4 \<and> length (deferred_queue (sequencer_table s'' ! 0)) = 1"
proof -
  let ?r = "\<lparr>dr_node_id = 2, dr_type = MSG_REQUEST_PAGE_WRITE, dr_client_fd = 12, dr_page_index = 0\<rparr>"
  let ?rest = "[\<lparr>dr_node_id = 3, dr_type = MSG_REQUEST_PAGE_READ, dr_client_fd = 13, dr_page_index = 0\<rparr>]"
  let ?s = "busy_sequencer 1 (?r # ?rest)" and ?p = "make_packet MSG_REQUEST_PAGE_WRITE 0 4 zero_page"
  have "gpd_inv (sq_gpd ?s)" "gpd_holders (sq_gpd ?s) 0 \<subseteq> {unat (dr_node_id ?r)}"
    by (simp_all add: busy_sequencer_def gpd_inv_def entry_ok_def valid_node_def gpd_holders_def abs_entry_def)
  moreover have "pkt_type ?p = MSG_REQUEST_PAGE_WRITE" "pkt_page_index ?p = 0" "pkt_sender_node_id ?p = 4"
    by (simp_all add: make_packet_def)
  ultimately show ?thesis
    using deferred_requests_stranded [of ?s 0 0 "sequencer_table ?s ! 0" "replicate 64 8" ?r ?rest ?p True 14]
    by (auto simp: busy_sequencer_def valid_node_def)
qed

end
