(* ===== verification/Benchmark.thy ===== *)
theory Benchmark
  imports Dsm_Core "HOL-Library.Multiset"
begin

text \<open>
  The benchmark of \<^verbatim>\<open>benchmark.c\<close>: four threads fill a 64 by 64 matrix of 32-bit words that takes up
  the whole shared region, each measuring its own stores, and the main thread adds up the latencies
  and checks the matrix.
\<close>

section \<open>The workers\<close>

definition MATRIX_DIM :: nat where
  "MATRIX_DIM = 64"

text \<open>Seconds and nanoseconds, as \<open>clock_gettime\<close> gives them.\<close>

type_synonym timespec = "int \<times> int"

definition duration_ns :: "timespec \<Rightarrow> timespec \<Rightarrow> u64" where
  "duration_ns start stop =
     of_int (fst stop - fst start) * 1000000000 + of_int (snd stop - snd start)"

text \<open>The fields of \<open>thread_arg_t\<close> that a worker writes; the matrix is shared by all of them.\<close>

record thread_arg =
  start_row :: nat
  end_row :: nat
  fault_latencies :: "u64 list"
  fault_count :: nat

definition row_indices :: "nat \<Rightarrow> nat \<Rightarrow> nat list" where
  "row_indices r0 r1 = concat (map (\<lambda>i. map (\<lambda>j. i * MATRIX_DIM + j) [0..<MATRIX_DIM]) [r0..<r1])"

text \<open>
  One iteration for the element \<open>k\<close>, between the clock readings \<open>clock k\<close>.
\<close>

definition worker_step ::
  "(nat \<Rightarrow> timespec \<times> timespec) \<Rightarrow> nat \<Rightarrow> u32 list \<times> thread_arg \<Rightarrow> (u32 list \<times> thread_arg) comp" where
  "worker_step clock k s =
     (case s of (matrix, a) \<Rightarrow>
        andthen (put_at matrix k (of_nat (k * 3))) (\<lambda>matrix'.
          let d = duration_ns (fst (clock k)) (snd (clock k)) in
          if d > 500000 \<and> fault_count a < 1024 then
            andthen (put_at (fault_latencies a) (fault_count a) d) (\<lambda>ls.
              Inr (matrix', a\<lparr>fault_latencies := ls, fault_count := fault_count a + 1\<rparr>))
          else Inr (matrix', a)))"

fun worker_loop ::
  "(nat \<Rightarrow> timespec \<times> timespec) \<Rightarrow> nat list \<Rightarrow> u32 list \<times> thread_arg \<Rightarrow> (u32 list \<times> thread_arg) comp" where
  "worker_loop clock [] s = Inr s"
| "worker_loop clock (k # ks) s = andthen (worker_step clock k s) (worker_loop clock ks)"

definition matrix_transform_worker ::
  "(nat \<Rightarrow> timespec \<times> timespec) \<Rightarrow> u32 list \<times> thread_arg \<Rightarrow> (u32 list \<times> thread_arg) comp" where
  "matrix_transform_worker clock s =
     worker_loop clock (row_indices (start_row (snd s)) (end_row (snd s))) s"

section \<open>The whole run\<close>

definition thread_args :: "nat \<Rightarrow> thread_arg" where
  "thread_args i = (let rows_per_thread = MATRIX_DIM div 4 in
     \<lparr>start_row = i * rows_per_thread, end_row = (i + 1) * rows_per_thread,
      fault_latencies = replicate 1024 0, fault_count = 0\<rparr>)"

text \<open>
  The stores of the four threads: \<open>stores_of\<close> is what one thread does, \<open>run_stores\<close> what a list of
  stores leaves in the matrix. \<open>run_threads\<close> executes the iterations of the threads, each given with the
  number of its thread, in the order in which their stores reach the memory.
\<close>

definition stores_of :: "nat \<Rightarrow> nat list" where
  "stores_of i = row_indices (start_row (thread_args i)) (end_row (thread_args i))"

fun run_stores :: "nat list \<Rightarrow> u32 list \<Rightarrow> u32 list comp" where
  "run_stores [] matrix = Inr matrix"
| "run_stores (k # ks) matrix = andthen (put_at matrix k (of_nat (k * 3))) (run_stores ks)"

definition thread_step ::
  "(nat \<Rightarrow> nat \<Rightarrow> timespec \<times> timespec) \<Rightarrow> nat \<times> nat \<Rightarrow> u32 list \<times> thread_arg list \<Rightarrow>
     (u32 list \<times> thread_arg list) comp" where
  "thread_step clock x s =
     (case (x, s) of ((t, k), (matrix, args)) \<Rightarrow>
        andthen (get_at args t) (\<lambda>a.
        andthen (worker_step (clock t) k (matrix, a)) (\<lambda>(matrix', a').
          Inr (matrix', args[t := a']))))"

fun run_threads ::
  "(nat \<Rightarrow> nat \<Rightarrow> timespec \<times> timespec) \<Rightarrow> (nat \<times> nat) list \<Rightarrow> u32 list \<times> thread_arg list \<Rightarrow>
     (u32 list \<times> thread_arg list) comp" where
  "run_threads clock [] s = Inr s"
| "run_threads clock (x # xs) s = andthen (thread_step clock x s) (run_threads clock xs)"

datatype benchmark_result = AssertionFailed | ValidationFailed nat | ValidationSuccess

definition validate :: "u32 list \<Rightarrow> benchmark_result" where
  "validate matrix =
     (case find (\<lambda>i. matrix ! i \<noteq> of_nat (i * 3)) [0..<MATRIX_DIM * MATRIX_DIM] of
        Some i \<Rightarrow> ValidationFailed i
      | None \<Rightarrow> ValidationSuccess)"

text \<open>The average latency that is printed, if any was recorded.\<close>

definition average_latency :: "thread_arg list \<Rightarrow> u64 option" where
  "average_latency args =
     (let total = sum_list (map fault_count args);
          combined = sum_list (map (\<lambda>a. sum_list (take (fault_count a) (fault_latencies a))) args)
      in if total > 0 then Some (combined div of_nat total) else None)"

text \<open>
  The two metrics that are printed, when the assertion holds, and the outcome; \<open>readings\<close> are the two clock
  readings around the run, \<open>schedule\<close> the interleaving of the four threads.
\<close>

definition execute_cluster_benchmark ::
  "nat \<Rightarrow> timespec \<times> timespec \<Rightarrow> (nat \<Rightarrow> nat \<Rightarrow> timespec \<times> timespec) \<Rightarrow> (nat \<times> nat) list \<Rightarrow> u32 list \<Rightarrow>
     ((u64 \<times> u64 option) option \<times> benchmark_result) comp" where
  "execute_cluster_benchmark region_size readings clock schedule matrix =
     (if region_size < MATRIX_DIM * MATRIX_DIM * 4 then Inr (None, AssertionFailed)
      else andthen (run_threads clock schedule (matrix, map thread_args [0..<4])) (\<lambda>(m, args).
        Inr (Some (duration_ns (fst readings) (snd readings), average_latency args), validate m)))"

section \<open>Lemmas\<close>

lemma row_indices_eq: "r0 \<le> r1 \<Longrightarrow> row_indices r0 r1 = [r0 * MATRIX_DIM..<r1 * MATRIX_DIM]"
proof (induction r1)
  case (Suc r1)
  show ?case
  proof (cases "r0 \<le> r1")
    case True
    have "map (\<lambda>j. r1 * MATRIX_DIM + j) [0..<MATRIX_DIM] = [r1 * MATRIX_DIM..<Suc r1 * MATRIX_DIM]"
      by (simp add: map_add_upt [symmetric] add.commute)
    moreover have "row_indices r0 (Suc r1) =
        row_indices r0 r1 @ map (\<lambda>j. r1 * MATRIX_DIM + j) [0..<MATRIX_DIM]"
      using True by (simp add: row_indices_def)
    moreover have "[r0 * MATRIX_DIM..<r1 * MATRIX_DIM] @ [r1 * MATRIX_DIM..<Suc r1 * MATRIX_DIM] =
        [r0 * MATRIX_DIM..<Suc r1 * MATRIX_DIM]"
      using upt_add_eq_append [of "r0 * MATRIX_DIM" "r1 * MATRIX_DIM" MATRIX_DIM] True
      by (simp add: add.commute)
    ultimately show ?thesis using Suc.IH True by simp
  next
    case False
    then have "r0 = Suc r1" using Suc.prems by simp
    then show ?thesis by (simp add: row_indices_def)
  qed
qed (simp add: row_indices_def)

lemma all_stores: "stores_of 0 @ stores_of 1 @ stores_of 2 @ stores_of 3 = [0..<MATRIX_DIM * MATRIX_DIM]"
proof -
  have join: "[i..<j] @ [j..<k] = [i..<k]" if "i \<le> j" "j \<le> k" for i j k :: nat
    using upt_add_eq_append [of i j "k - j"] that by simp
  show ?thesis
    by (simp add: stores_of_def thread_args_def row_indices_eq MATRIX_DIM_def join del: upt_rec_numeral)
qed

lemma run_stores_result:
  "\<forall>k \<in> set ks. k < length matrix \<Longrightarrow>
     \<exists>m. run_stores ks matrix = Inr m \<and> length m = length matrix \<and>
       (\<forall>k < length matrix. m ! k = (if k \<in> set ks then of_nat (k * 3) else matrix ! k))"
proof (induction ks arbitrary: matrix)
  case (Cons k ks)
  then obtain m where "run_stores ks (matrix[k := of_nat (k * 3)]) = Inr m" "length m = length matrix"
    "\<forall>j < length matrix. m ! j = (if j \<in> set ks then of_nat (j * 3) else matrix[k := of_nat (k * 3)] ! j)"
    using Cons.IH [of "matrix[k := of_nat (k * 3)]"] by auto
  then show ?case using Cons.prems by (auto simp: nth_list_update)
qed simp

lemma worker_loop_stores:
  "\<forall>k \<in> set ks. k < length matrix \<Longrightarrow> length (fault_latencies a) = 1024 \<Longrightarrow>
     \<exists>m a'. worker_loop clock ks (matrix, a) = Inr (m, a') \<and> run_stores ks matrix = Inr m \<and>
       fault_count a' \<le> fault_count a + length ks \<and> length (fault_latencies a') = 1024 \<and>
       (fault_count a + length ks \<le> 1024 \<longrightarrow> fault_count a' = fault_count a +
          length (filter (\<lambda>k. duration_ns (fst (clock k)) (snd (clock k)) > 500000) ks))"
proof (induction ks arbitrary: matrix a)
  case (Cons k ks)
  let ?d = "duration_ns (fst (clock k)) (snd (clock k))"
  let ?a = "if ?d > 500000 \<and> fault_count a < 1024
    then a\<lparr>fault_latencies := (fault_latencies a)[fault_count a := ?d], fault_count := fault_count a + 1\<rparr> else a"
  have step: "worker_step clock k (matrix, a) = Inr (matrix[k := of_nat (k * 3)], ?a)"
    using Cons.prems by (simp add: worker_step_def Let_def)
  have "\<forall>j \<in> set ks. j < length (matrix[k := of_nat (k * 3)])" using Cons.prems(1) by simp
  moreover have "length (fault_latencies ?a) = 1024" using Cons.prems(2) by simp
  ultimately obtain m a' where rest: "worker_loop clock ks (matrix[k := of_nat (k * 3)], ?a) = Inr (m, a')"
    "run_stores ks (matrix[k := of_nat (k * 3)]) = Inr m"
    "fault_count a' \<le> fault_count ?a + length ks" "length (fault_latencies a') = 1024"
    "fault_count ?a + length ks \<le> 1024 \<longrightarrow> fault_count a' = fault_count ?a +
          length (filter (\<lambda>k. duration_ns (fst (clock k)) (snd (clock k)) > 500000) ks)"
    using Cons.IH [of "matrix[k := of_nat (k * 3)]" ?a] by blast
  have "worker_loop clock (k # ks) (matrix, a) = Inr (m, a')" "run_stores (k # ks) matrix = Inr m"
    using step rest(1,2) Cons.prems(1) by simp_all
  moreover have "fault_count a' \<le> fault_count a + length (k # ks)"
    using rest(3) by (simp split: if_splits)
  moreover have "fault_count a + length (k # ks) \<le> 1024 \<longrightarrow> fault_count a' = fault_count a +
      length (filter (\<lambda>k. duration_ns (fst (clock k)) (snd (clock k)) > 500000) (k # ks))"
    using rest(5) by (simp split: if_splits)
  ultimately show ?case using rest(4) by blast
qed simp

lemma run_threads_stores:
  "\<forall>(t, k) \<in> set xs. t < length args \<and> k < length matrix \<Longrightarrow> \<forall>a \<in> set args. length (fault_latencies a) = 1024 \<Longrightarrow>
     \<exists>m args'. run_threads clock xs (matrix, args) = Inr (m, args') \<and> run_stores (map snd xs) matrix = Inr m"
proof (induction xs arbitrary: matrix args)
  case (Cons x xs)
  obtain t k where x: "x = (t, k)" by fastforce
  have t: "t < length args" "k < length matrix" using Cons.prems(1) x by auto
  then obtain a' where a': "worker_step (clock t) k (matrix, args ! t) = Inr (matrix[k := of_nat (k * 3)], a')"
    "length (fault_latencies a') = 1024"
    using worker_loop_stores [of "[k]" matrix "args ! t" "clock t"] Cons.prems(2) by auto
  have "thread_step clock x (matrix, args) = Inr (matrix[k := of_nat (k * 3)], args[t := a'])"
    using t a'(1) x by (simp add: thread_step_def)
  moreover have "\<forall>a \<in> set (args[t := a']). length (fault_latencies a) = 1024"
    using Cons.prems(2) a'(2) set_update_subset_insert [of args t a'] by auto
  ultimately show ?case
    using Cons.IH [of "args[t := a']" "matrix[k := of_nat (k * 3)]"] Cons.prems(1) t(2) x by auto
qed simp

section \<open>Properties\<close>

text \<open>C37. Whatever the interleaving of the four threads' iterations and whatever their clocks show, without
  other writers the benchmark never leaves the matrix nor the latency buffers and ends with
  \<open>VALIDATION_STATUS:SUCCESS\<close>: the threads write every element exactly once.\<close>

theorem benchmark_validates:
  assumes "mset schedule = mset (map (Pair 0) (stores_of 0)) + mset (map (Pair 1) (stores_of 1)) +
      mset (map (Pair 2) (stores_of 2)) + mset (map (Pair 3) (stores_of 3))"
    and "length matrix = MATRIX_DIM * MATRIX_DIM"
  shows "\<exists>average. execute_cluster_benchmark REGION_SIZE readings clock schedule matrix =
    Inr (Some (duration_ns (fst readings) (snd readings), average), ValidationSuccess)"
proof -
  have "image_mset snd (mset schedule) = mset [0..<MATRIX_DIM * MATRIX_DIM]"
    unfolding assms(1) all_stores [symmetric] by (simp add: multiset.map_comp comp_def del: upt_rec_numeral)
  then have set: "set (map snd schedule) = {0..<MATRIX_DIM * MATRIX_DIM}"
    by (metis mset_map set_mset_mset set_upt)
  have element: "snd x < MATRIX_DIM * MATRIX_DIM" if "x \<in> set schedule" for x
  proof -
    have "snd x \<in> set (map snd schedule)" using that by simp
    then show ?thesis unfolding set by simp
  qed
  have thread: "fst x < 4" if "x \<in> set schedule" for x
  proof -
    have "x \<in># mset schedule" using that by simp
    then show ?thesis unfolding assms(1) by auto
  qed
  have "\<forall>(t, k) \<in> set schedule. t < length (map thread_args [0..<4]) \<and> k < length matrix"
    using element thread assms(2) by (simp add: case_prod_beta)
  moreover have "\<forall>a \<in> set (map thread_args [0..<4]). length (fault_latencies a) = 1024"
    by (simp add: thread_args_def Let_def del: upt_rec_numeral)
  ultimately obtain m args where run: "run_threads clock schedule (matrix, map thread_args [0..<4]) = Inr (m, args)"
    "run_stores (map snd schedule) matrix = Inr m"
    using run_threads_stores by blast
  have "\<forall>k < MATRIX_DIM * MATRIX_DIM. m ! k = of_nat (k * 3)"
    using run_stores_result [of "map snd schedule" matrix] assms(2) run(2) unfolding set by simp
  then have "validate m = ValidationSuccess"
    by (simp add: validate_def find_None_iff split: option.splits)
  then show ?thesis
    using run(1) by (simp add: execute_cluster_benchmark_def REGION_SIZE_def MATRIX_DIM_def del: upt_rec_numeral)
qed

theorem benchmark_validates_witness:
  "\<exists>average. execute_cluster_benchmark REGION_SIZE ((0, 0), (2, 0)) (\<lambda>t k. ((0, 0), (1, 0)))
     (rev (concat (map (\<lambda>t. map (Pair t) (stores_of t)) [3, 1, 0, 2]))) (replicate (MATRIX_DIM * MATRIX_DIM) 0) =
     Inr (Some (2000000000, average), ValidationSuccess)"
proof -
  let ?s = "rev (concat (map (\<lambda>t. map (Pair t) (stores_of t)) [3, 1, 0, 2]))"
  have "mset ?s = mset (map (Pair 0) (stores_of 0)) + mset (map (Pair 1) (stores_of 1)) +
      mset (map (Pair 2) (stores_of 2)) + mset (map (Pair 3) (stores_of 3))"
    by simp
  from benchmark_validates [OF this, of "replicate (MATRIX_DIM * MATRIX_DIM) 0" "((0, 0), (2, 0))"
      "\<lambda>t k. ((0, 0), (1, 0))"]
  show ?thesis by (simp add: duration_ns_def)
qed

text \<open>C38. A worker stays inside the matrix and inside its latency buffer, performs exactly the stores
  of its rows, and records every store slower than 500 microseconds: with 1024 elements per thread the
  1024 slots are always enough.\<close>

theorem worker_records_all_faults:
  assumes "i < 4" and "length matrix = MATRIX_DIM * MATRIX_DIM"
  shows "\<exists>m a. matrix_transform_worker clock (matrix, thread_args i) = Inr (m, a) \<and>
    run_stores (stores_of i) matrix = Inr m \<and> fault_count a \<le> 1024 \<and>
    fault_count a = length (filter (\<lambda>k. duration_ns (fst (clock k)) (snd (clock k)) > 500000) (stores_of i))"
proof -
  have s: "stores_of i = [i * 1024..<(i + 1) * 1024]"
    by (simp add: stores_of_def thread_args_def row_indices_eq MATRIX_DIM_def Let_def mult.commute)
  then have "\<forall>k \<in> set (stores_of i). k < length matrix" and len: "length (stores_of i) = 1024"
    using assms by (auto simp: MATRIX_DIM_def)
  moreover have "length (fault_latencies (thread_args i)) = 1024" "fault_count (thread_args i) = 0"
    by (simp_all add: thread_args_def Let_def)
  ultimately obtain m a where "worker_loop clock (stores_of i) (matrix, thread_args i) = Inr (m, a)"
    "run_stores (stores_of i) matrix = Inr m" "fault_count a \<le> 1024"
    "fault_count a = length (filter (\<lambda>k. duration_ns (fst (clock k)) (snd (clock k)) > 500000) (stores_of i))"
    using worker_loop_stores [of "stores_of i" matrix "thread_args i" clock] by auto
  then show ?thesis by (auto simp: matrix_transform_worker_def stores_of_def)
qed

theorem worker_records_all_faults_witness:
  "\<exists>m a. matrix_transform_worker (\<lambda>k. ((0, 0), (1, 0))) (replicate (MATRIX_DIM * MATRIX_DIM) 0, thread_args 3) = Inr (m, a) \<and>
     fault_count a = 1024"
proof -
  have slow: "500000 < duration_ns (0, 0) (1, 0)" by (simp add: duration_ns_def)
  have "length (stores_of 3) = 1024"
    by (simp add: stores_of_def thread_args_def row_indices_eq MATRIX_DIM_def Let_def)
  then have "length (filter (\<lambda>k. duration_ns (fst ((0, 0), (1, 0))) (snd ((0, 0), (1, 0))) > 500000) (stores_of 3)) = 1024"
    using slow by (simp del: upt_rec_numeral)
  then show ?thesis
    using worker_records_all_faults [of 3 "replicate (MATRIX_DIM * MATRIX_DIM) 0" "\<lambda>k. ((0, 0), (1, 0))"]
    by fastforce
qed

end
