(* ===== verification/Coherence_Cmd.thy ===== *)
theory Coherence_Cmd
  imports Dsm_Core
begin

text \<open>
  The scripted test loop of \<^verbatim>\<open>coherence_test.c\<close>: one command per input line, read and write of the
  first word of a page. A line is what \<open>sscanf(line, "%15s %lu %lu", ...)\<close> makes of it; the shared
  region is seen through the word at each byte offset.
\<close>

section \<open>Commands\<close>

text \<open>The number of fields that were read, and the fields (0 or empty when they were not).\<close>

record scanned_line =
  sc_fields :: nat
  sc_cmd :: string
  sc_page_idx :: u64
  sc_value :: u64

datatype response =
    WroteValue u64 u32
  | WriteOutOfRange u64
  | ReadValue u64 u32
  | ReadOutOfRange u64
  | Slept u64 u32
  | DoneReading
  | UnknownCommand string

type_synonym words = "u64 \<Rightarrow> u32"

text \<open>\<open>page_idx * 4096 + sizeof(uint32_t) > REGION_SIZE\<close>, in 64-bit arithmetic.\<close>

definition out_of_range :: "u64 \<Rightarrow> bool" where
  "out_of_range page_idx \<longleftrightarrow> page_idx * 4096 + 4 > of_nat REGION_SIZE"

text \<open>
  One pass of the loop: the response that is printed, if any, whether the loop goes on, and the words.
  \<open>Slept\<close> carries the microseconds given to \<open>usleep\<close>, a product of 32-bit integers.
\<close>

definition run_command :: "scanned_line \<Rightarrow> words \<Rightarrow> response option \<times> bool \<times> words" where
  "run_command l mem =
     (if sc_fields l < 1 then (None, True, mem)
      else if sc_cmd l = ''WRITE'' \<and> sc_fields l \<ge> 3 then
        if out_of_range (sc_page_idx l) then (Some (WriteOutOfRange (sc_page_idx l)), True, mem)
        else
          let slot = sc_page_idx l * 4096; mem' = mem(slot := ucast (sc_value l))
          in (Some (WroteValue (sc_page_idx l) (mem' slot)), True, mem')
      else if sc_cmd l = ''READ'' \<and> sc_fields l \<ge> 2 then
        if out_of_range (sc_page_idx l) then (Some (ReadOutOfRange (sc_page_idx l)), True, mem)
        else (Some (ReadValue (sc_page_idx l) (mem (sc_page_idx l * 4096))), True, mem)
      else if sc_cmd l = ''SLEEP'' \<and> sc_fields l \<ge> 2 then
        (Some (Slept (sc_page_idx l) (ucast (sc_page_idx l) * 1000)), True, mem)
      else if sc_cmd l = ''DONE'' then (Some DoneReading, False, mem)
      else (Some (UnknownCommand (sc_cmd l)), True, mem))"

fun run_coherence_test_loop :: "scanned_line list \<Rightarrow> words \<Rightarrow> response list \<times> words" where
  "run_coherence_test_loop [] mem = ([], mem)"
| "run_coherence_test_loop (l # ls) mem =
     (let (r, go_on, mem') = run_command l mem;
          out = (case r of None \<Rightarrow> [] | Some x \<Rightarrow> [x]) in
      if go_on then (let (rs, mem'') = run_coherence_test_loop ls mem' in (out @ rs, mem''))
      else (out, mem'))"

section \<open>The range check\<close>

lemma slot_offset: "unat (p * 4096 :: u64) = unat p mod 2 ^ 52 * 4096"
proof -
  have "unat (p * 4096) = unat p * 4096 mod 2 ^ 64"
    by (simp add: unat_word_ariths)
  also have "\<dots> = unat p * 2 ^ 12 mod (2 ^ 52 * 2 ^ 12)" by simp
  also have "\<dots> = unat p mod 2 ^ 52 * 2 ^ 12" by (simp only: mod_mult_mult2)
  finally show ?thesis by simp
qed

lemma out_of_range_iff: "out_of_range p \<longleftrightarrow> 4 \<le> unat p mod 2 ^ 52"
proof -
  let ?k = "unat p mod 2 ^ 52"
  have "?k < 2 ^ 52" by simp
  then have "?k * 4096 + 4 < 2 ^ 64" by simp
  then have "unat (p * 4096 + 4) = ?k * 4096 + 4"
    using slot_offset [of p] by (simp add: unat_word_ariths(1))
  then have "out_of_range p \<longleftrightarrow> 16384 < ?k * 4096 + 4"
    by (simp add: out_of_range_def word_less_nat_alt REGION_SIZE_def)
  also have "16384 < k * 4096 + 4 \<longleftrightarrow> 4 \<le> k" for k :: nat by linarith
  finally show ?thesis .
qed

lemma same_slot_iff: "p * 4096 = (q * 4096 :: u64) \<longleftrightarrow> unat p mod 2 ^ 52 = unat q mod 2 ^ 52"
  by (simp only: word_unat_eq_iff slot_offset) simp

lemma reads_and_foreign_writes:
  assumes "sc_cmd l \<noteq> ''DONE''"
    and "sc_cmd l = ''WRITE'' \<longrightarrow> unat (sc_page_idx l) mod 2 ^ 52 \<noteq> unat p mod 2 ^ 52"
  obtains r mem' where "run_command l mem = (r, True, mem')" "mem' (p * 4096) = mem (p * 4096)"
  using assms by (cases "run_command l mem")
    (auto simp: run_command_def Let_def same_slot_iff split: if_splits)

lemma loop_through:
  "\<forall>l \<in> set ls. sc_cmd l \<noteq> ''DONE'' \<and>
       (sc_cmd l = ''WRITE'' \<longrightarrow> unat (sc_page_idx l) mod 2 ^ 52 \<noteq> unat p mod 2 ^ 52) \<Longrightarrow>
     \<exists>rs mem'. mem' (p * 4096) = mem (p * 4096) \<and>
       (\<forall>rest. run_coherence_test_loop (ls @ rest) mem =
          (rs @ fst (run_coherence_test_loop rest mem'), snd (run_coherence_test_loop rest mem')))"
proof (induction ls arbitrary: mem)
  case Nil
  then show ?case by (intro exI [of _ "[]"] exI [of _ mem]) simp
next
  case (Cons l ls)
  obtain r mem1 where l: "run_command l mem = (r, True, mem1)" "mem1 (p * 4096) = mem (p * 4096)"
    by (rule reads_and_foreign_writes [of l p mem]) (use Cons.prems in auto)
  obtain rs mem' where rest: "mem' (p * 4096) = mem1 (p * 4096)"
    "\<forall>rest. run_coherence_test_loop (ls @ rest) mem1 =
          (rs @ fst (run_coherence_test_loop rest mem'), snd (run_coherence_test_loop rest mem'))"
    using Cons.IH [of mem1] Cons.prems by auto
  have "\<forall>rest. run_coherence_test_loop ((l # ls) @ rest) mem =
      (((case r of None \<Rightarrow> [] | Some x \<Rightarrow> [x]) @ rs) @ fst (run_coherence_test_loop rest mem'),
       snd (run_coherence_test_loop rest mem'))"
    using l(1) rest(2) by (simp add: Let_def)
  then show ?case using l(2) rest(1) by (metis (no_types, lifting))
qed

section \<open>Properties\<close>

text \<open>C39. A \<open>WRITE\<close> or \<open>READ\<close> is accepted exactly for the page indices that are 0 to 3 modulo
  \<open>2 ^ 52\<close>: an accepted access stays inside the region, but a huge index is not refused, it is the
  page it is congruent to.\<close>

theorem range_check_wraps:
  "(out_of_range p \<longleftrightarrow> 4 \<le> unat p mod 2 ^ 52) \<and>
   (\<not> out_of_range p \<longrightarrow> unat (p * 4096) + 4 \<le> REGION_SIZE)"
  using slot_offset [of p] by (simp add: out_of_range_iff REGION_SIZE_def)

theorem range_check_wraps_witness:
  "\<not> out_of_range (2 ^ 52) \<and> unat ((2 ^ 52 :: u64) * 4096) + 4 \<le> REGION_SIZE"
proof -
  have "unat (2 ^ 52 :: u64) = 2 ^ 52" by simp
  then show ?thesis using range_check_wraps [of "2 ^ 52"] by simp
qed

text \<open>C40. In a process whose pages nobody else writes, a \<open>READ\<close> after an accepted \<open>WRITE\<close> of the same
  page answers the low 32 bits of the value written, whatever commands come in between, as long as they
  are not \<open>DONE\<close> and not writes to that page.\<close>

theorem read_returns_last_write:
  assumes "\<not> out_of_range p"
    and "\<forall>l \<in> set ls. sc_cmd l \<noteq> ''DONE'' \<and>
       (sc_cmd l = ''WRITE'' \<longrightarrow> unat (sc_page_idx l) mod 2 ^ 52 \<noteq> unat p mod 2 ^ 52)"
  shows "\<exists>rs. fst (run_coherence_test_loop
      (\<lparr>sc_fields = 3, sc_cmd = ''WRITE'', sc_page_idx = p, sc_value = v\<rparr> # ls @
       [\<lparr>sc_fields = 2, sc_cmd = ''READ'', sc_page_idx = p, sc_value = 0\<rparr>]) mem) =
    WroteValue p (ucast v) # rs @ [ReadValue p (ucast v)]"
proof -
  obtain rs mem' where "mem' (p * 4096) = ucast v" and rest:
    "\<forall>rest. run_coherence_test_loop (ls @ rest) (mem(p * 4096 := ucast v)) =
          (rs @ fst (run_coherence_test_loop rest mem'), snd (run_coherence_test_loop rest mem'))"
    using loop_through [OF assms(2), of "mem(p * 4096 := ucast v)"] by auto
  then show ?thesis
    using assms(1) by (simp add: run_command_def Let_def)
qed

theorem read_returns_last_write_witness:
  "\<exists>rs. fst (run_coherence_test_loop
      [\<lparr>sc_fields = 3, sc_cmd = ''WRITE'', sc_page_idx = 2, sc_value = 0x100000007\<rparr>,
       \<lparr>sc_fields = 3, sc_cmd = ''WRITE'', sc_page_idx = 1, sc_value = 9\<rparr>,
       \<lparr>sc_fields = 1, sc_cmd = ''PING'', sc_page_idx = 0, sc_value = 0\<rparr>,
       \<lparr>sc_fields = 2, sc_cmd = ''READ'', sc_page_idx = 2, sc_value = 0\<rparr>] (\<lambda>_. 0)) =
    WroteValue 2 7 # rs @ [ReadValue 2 7]"
proof -
  have low: "(0x100000007 :: u32) = 7" by simp
  have "\<not> out_of_range 2" by (simp add: out_of_range_iff)
  then show ?thesis
    using read_returns_last_write [of 2
        "[\<lparr>sc_fields = 3, sc_cmd = ''WRITE'', sc_page_idx = 1, sc_value = 9\<rparr>,
          \<lparr>sc_fields = 1, sc_cmd = ''PING'', sc_page_idx = 0, sc_value = 0\<rparr>]"
        "0x100000007" "\<lambda>_. 0"] by (simp add: low del: run_coherence_test_loop.simps)
qed

end
