(* ===== verification/Spec2Isabelle.thy ===== *)
theory Spec2Isabelle
  imports Main_Init Worker_Pages Cluster_Copies Net_Gaps Sequencer Benchmark Coherence_Cmd
begin

text \<open>
  The distributed shared memory engine of \<^verbatim>\<open>src/\<close>: processes share a small region of memory,
  page by page. A store or load that is not allowed locally raises a user fault; the process asks the
  coordinator, which keeps a directory of owners and sharers, fetches the page from its owner or serves
  its own copy, and invalidates the other copies before it grants a write.

  Parts and their theories, in the order of their dependencies:

    \<^item> \<^verbatim>\<open>Dsm_Prelude\<close>: machine integers, the result type \<open>'a comp\<close> (a value, or the reason why C
      or the kernel does not continue), checked array access, the shift \<open>1ULL << n\<close>, masks as sets.
    \<^item> \<^verbatim>\<open>Request_Queue\<close> (queue.c): the ring between the fault thread and the engine thread, with its
      interface as a locale; histories of pushes and pops are first in, first out.
    \<^item> \<^verbatim>\<open>Dsm_Core\<close> (dsm_core.c, dsm_core.h): page table, address arithmetic, userfaultfd set-up.
    \<^item> \<^verbatim>\<open>Gpd\<close> (gpd.c): the directory, its abstraction to owners and sharers, and the refinement of the
      abstract read and write by the two transitions.
    \<^item> \<^verbatim>\<open>Wire\<close> (network.h and the send and receive loops of network_engine.c, coordinator_sequencer.c
      and eviction.c): packet bytes, partial sends, reassembly of the stream into packets.
    \<^item> \<^verbatim>\<open>Uffd_Kernel\<close>: the kernel's calls on the region, as a parameter with their documented laws.
    \<^item> \<^verbatim>\<open>Eviction\<close> (eviction.c): the clock, the write-back, the local view of the directory.
    \<^item> \<^verbatim>\<open>Fault_Handler\<close> (fault_handler.c): faults become page states and requests.
    \<^item> \<^verbatim>\<open>Node_State\<close>, \<^verbatim>\<open>Net_Handlers\<close> (network_engine.c, packet dispatch and queue drain): the state
      of a process and one definition per packet type and per branch.
    \<^item> \<^verbatim>\<open>Net_Frame\<close>: what every handler keeps on any node and for any packet.
    \<^item> \<^verbatim>\<open>Net_Protocol\<close>, \<^verbatim>\<open>Net_Effects\<close>: the contract of a packet service as a locale, interpreted on
      \<open>dispatch\<close>; what single steps and short runs do to pages, directory and peers.
    \<^item> \<^verbatim>\<open>Net_Grants\<close>: what a coordinator has granted, read off the packets it has sent, against its
      directory; every handler keeps the two together. \<^verbatim>\<open>Net_Gaps\<close>: the two steps of the coordinator
      that do not keep other nodes' copies and data.
    \<^item> \<^verbatim>\<open>Net_Engine\<close> (network_engine.c, connections and event loop): events, sessions, the process as a
      step relation of its threads, and its invariant. \<^verbatim>\<open>Engine_Progress\<close>: every event returns.
      \<^verbatim>\<open>Waiting_Pages\<close>, \<^verbatim>\<open>Worker_Pages\<close>: along the runs of a worker, a page that waits has been asked
      for, and no page is ever in a state that an eviction would write back.
    \<^item> \<^verbatim>\<open>Cluster_Copies\<close>: runs of a coordinator and of a worker that handles what the coordinator sent;
      the directory knows every page that is mapped at the worker.
    \<^item> \<^verbatim>\<open>Main_Init\<close> (main.c, settings of network_engine.c): command line and start-up.
    \<^item> \<^verbatim>\<open>Sequencer\<close> (coordinator_sequencer.c): the per-page sequencer, which nothing calls.
    \<^item> \<^verbatim>\<open>Benchmark\<close> (benchmark.c), \<^verbatim>\<open>Coherence_Cmd\<close> (coherence_test.c): the two programs on top.

  Correspondence. Records carry the fields of the structs and the global variables of the files named
  above; a mutex has no counterpart, since every modelled operation is one step (see below). System and library calls are arguments (results of \<open>malloc\<close>, \<open>bind\<close>,
  \<open>recv\<close>, \<open>read\<close>) or, for the memory of the region, a parameter with named laws. A packet that
  the engine sends is appended to \<open>sent_packets\<close> with its descriptor, because the engine ignores the
  results of its sends; what a send can leave in the stream is treated in \<^verbatim>\<open>Wire\<close>. The pages that
  \<open>UFFDIO_COPY\<close> fills are absent or present; its other errors are excluded by \<open>kernel_ok\<close>, except in
  \<open>failed_copy_marks_valid\<close>.

  Grain of the steps. A step of \<open>engine_step\<close> is one event of the engine (a session's answers may be cut
  into as many events as one likes, down to single packets), one request of the queue, one fault message or
  one call of the eviction thread. Between steps the threads interleave freely. Within the handling of one
  packet or one request they do not, although the code releases the lock of the page there for short
  stretches; and every \<open>send\<close> returns, where a \<open>SIGPIPE\<close> would end the process.

  What the lemmas show. Invariants: \<open>queue_inv\<close>, \<open>gpd_inv\<close> and the weaker \<open>gpd_safe\<close>,
  \<open>session_inv\<close>, \<open>node_inv\<close> and \<open>engine_inv\<close>, each kept by every operation when requests carry the
  identifiers that \<open>main\<close> accepts; \<open>engine_shape\<close>, kept whatever the peers send; \<open>grants_inv\<close>, kept by
  every packet, and by every request of the coordinator except \<open>blind_write\<close>, while the sockets stay
  open and no page is evicted there. Every branch of the
  handlers has its effect stated, the branches after which copies of a page can differ included. This
  theory composes the parts: a fault on one process served by another, over any cutting of the stream, and
  what faults and arrivals do to a page that was evicted.

  Bounds. The drain of the queue has \<open>QUEUE_CAPACITY + 1\<close> iterations of fuel, one more than the queue
  can hold; the clock stops after two turns by itself, as in the code; the receive loop runs over the
  list of answers of \<open>recv\<close>. All other recursions are structural.

  Not modelled: log output, the freeing of memory at exit (\<open>gpd_destroy\<close>,
  \<open>coordinator_sequencer_destroy\<close>), the parsing of a line by \<open>sscanf\<close>, and the Python driver.
\<close>

section \<open>A page fault on one node, served by another\<close>

definition touch :: "u64 \<Rightarrow> nat \<Rightarrow> nat \<Rightarrow> bool \<Rightarrow> fault_read" where
  "touch region i off w =
     MsgRead \<lparr>um_pagefault = True, um_address = region + of_nat (i * 4096 + off), um_write = w\<rparr>"

definition idle_session :: "int \<Rightarrow> 'm engine \<Rightarrow> bool" where
  "idle_session fd s \<longleftrightarrow> (\<exists>ses. e_sessions s fd = Some ses \<and> session_inv ses \<and> bytes_read ses = 0)"

definition after_fault :: "fault_state \<Rightarrow> 'm engine \<Rightarrow> 'm engine" where
  "after_fault f s = s\<lparr>e_queue := ft_queue f, e_node := (e_node s)\<lparr>page_table := ft_table f\<rparr>\<rparr>"

lemma idle_session_reads:
  assumes "idle_session fd s" and "packet_ok pkt" and "concat cs = encode_packet pkt" and "chunks_fit 0 cs"
    and "dispatch K fd (e_node s) pkt = Inr n'"
  obtains s' where "peer_readable K fd (map Chunk cs @ [RecvAgain]) s = Inr s'" and "e_node s' = n'"
    and "e_queue s' = e_queue s" and "idle_session fd s'"
proof -
  obtain ses where ses: "e_sessions s fd = Some ses" "session_inv ses" "bytes_read ses = 0"
    using assms(1) unfolding idle_session_def by blast
  obtain ses' where "peer_readable K fd (map Chunk cs @ [RecvAgain]) s =
      Inr (s\<lparr>e_node := n', e_sessions := (e_sessions s)(fd \<mapsto> ses')\<rparr>)"
    and "session_inv ses'" "bytes_read ses' = 0"
    by (rule peer_reads_packet [OF ses assms(2-5)])
  then show thesis
    using that [of "s\<lparr>e_node := n', e_sessions := (e_sessions s)(fd \<mapsto> ses')\<rparr>"] by (simp add: idle_session_def)
qed

text \<open>The worker's side: the fault becomes one request packet on the coordinator's socket.\<close>

lemma fault_reaches_coordinator:
  assumes "region_ok region (num_pages (e_node s))" and "i < num_pages (e_node s)" and "off < 4096"
    and "queue_inv (e_queue s)" and "queue_contents (e_queue s) = []"
    and "coordinator_fd (e_node s) = up" and "up \<noteq> - 1" and "page = page_table (e_node s) ! i"
    and "pt_status page \<noteq> PAGE_VALID"
  obtains f s2 where "handle_fault region 4096 (touch region i off w)
      \<lparr>ft_table = page_table (e_node s), ft_queue = e_queue s\<rparr> = Inr (True, f)"
    and "queue_ready K True (after_fault f s) = Inr s2" and "e_sessions s2 = e_sessions s"
    and "e_node s2 = (e_node s)\<lparr>page_table := (page_table (e_node s))[i := page\<lparr>pt_status := PAGE_PENDING\<rparr>],
      sent_packets := sent_packets (e_node s) @ [(up, make_packet
        (if w then MSG_REQUEST_PAGE_WRITE else MSG_REQUEST_PAGE_READ) (of_nat i) (local_node_id (e_node s)) zero_page)]\<rparr>"
    and "queue_contents (e_queue s2) = []"
proof -
  let ?fs = "\<lparr>ft_table = page_table (e_node s), ft_queue = e_queue s\<rparr>"
  have room: "q_size (e_queue s) \<noteq> QUEUE_CAPACITY"
    using assms(5) by (auto simp: queue_contents_def QUEUE_CAPACITY_def)
  obtain q where f: "handle_fault region 4096 (touch region i off w) ?fs =
      Inr (True, \<lparr>ft_table = (page_table (e_node s))[i := page\<lparr>pt_status := PAGE_PENDING\<rparr>], ft_queue = q\<rparr>)"
    and q: "queue_inv q" "queue_contents q = [\<lparr>rq_page_index = of_nat i, rq_is_write = w\<rparr>]"
    using fault_queued [of region ?fs i off w] assms room by (auto simp: num_pages_def touch_def)
  let ?f = "\<lparr>ft_table = (page_table (e_node s))[i := page\<lparr>pt_status := PAGE_PENDING\<rparr>], ft_queue = q\<rparr>"
  let ?n = "(e_node s)\<lparr>page_table := ft_table ?f\<rparr>"
  obtain q' where q': "queue_contents q' = []" and run: "drain_queue K q ?n =
      andthen (foldl (\<lambda>c r. andthen c (serve_local_request K r)) (Inr ?n) (queue_contents q)) (\<lambda>n'. Inr (q', n'))"
    using drain_queue_eq [OF q(1), of K ?n] by metis
  have up: "coordinator_fd ?n \<noteq> - 1" using assms(6,7) by simp
  have "queue_ready K True (after_fault ?f s) = Inr ((after_fault ?f s)\<lparr>e_queue := q', e_node :=
      ?n\<lparr>sent_packets := sent_packets ?n @ map (\<lambda>r. (coordinator_fd ?n, local_request_packet ?n r)) (queue_contents q)\<rparr>\<rparr>)"
    using run worker_drain [OF up, of K "queue_contents q"] by (simp add: queue_ready_def after_fault_def)
  then show thesis
    using that [OF f] q(2) q' assms(6) by (simp add: after_fault_def local_request_packet_def)
qed

text \<open>The coordinator's side: a valid copy with no other holder to wait for is sent at once.\<close>

lemma copy_sent_at_once:
  assumes "kernel_ok K" and "node_inv n" and "gpd_pending_reqs n \<noteq> None" and "serves_copy K n req bytes"
    and "pkt_type req = (if w then MSG_REQUEST_PAGE_WRITE else MSG_REQUEST_PAGE_READ)"
    and "i = unat (pkt_page_index req)" and "entry_ok (node_gpd n ! i)"
    and "w \<longrightarrow> live_holders n req down = {}"
  obtains n' where "dispatch K down n req = Inr n'"
    and "sent_packets n' = sent_packets n @ [(down, page_reply n req bytes)]"
    and "abs_entry (node_gpd n' ! i) = (if w then OwnedBy (unat (pkt_sender_node_id req))
      else SharedBy (insert (unat (pkt_sender_node_id req)) (gpd_holders (node_gpd n) i)))"
    and "w \<longrightarrow> view K (node_mem n') (pt_base_addr (page_table n ! i)) = None"
proof (cases w)
  case True
  obtain ps where ps: "gpd_pending_reqs n = Some ps" using assms(3) by blast
  have ty: "pkt_type req = MSG_REQUEST_PAGE_WRITE" using assms(5) True by simp
  have i: "i < length (node_gpd n)" using assms(2,4,6) by (simp add: serves_copy_def node_inv_def)
  obtain n' targets e where r: "dispatch K down n req = Inr n'" "set targets = live_holders n req down"
    "sent_packets n' = sent_packets n @ (if targets = [] then [(down, page_reply n req bytes)]
       else map (\<lambda>m. (learned n req down ! m, make_packet MSG_INVALIDATE (pkt_page_index req) 0 zero_page)) targets)"
    "node_gpd n' = (node_gpd n)[i := e]" "state e = STATE_MODIFIED" "owner_node_id e = pkt_sender_node_id req"
    "view K (node_mem n') = (view K (node_mem n))(pt_base_addr (page_table n ! i) := None)"
    using write_to_valid_copy [OF assms(1,2) ps assms(4) ty, of down] assms(6) by metis
  then show thesis
    using that [of n'] True assms(8) i by (simp add: abs_entry_def)
next
  case False
  have ty: "pkt_type req = MSG_REQUEST_PAGE_READ" using assms(5) False by simp
  have i: "i < length (node_gpd n)" using assms(2,4,6) by (simp add: serves_copy_def node_inv_def)
  obtain n' e where "dispatch K down n req = Inr n'"
    "sent_packets n' = sent_packets n @ [(down, page_reply n req bytes)]" "node_gpd n' = (node_gpd n)[i := e]"
    "abs_entry e = dir_read (unat (pkt_sender_node_id req)) (abs_entry (node_gpd n ! i))"
    using read_of_valid_copy [OF assms(2,4) ty, of down] assms(6,7) by metis
  then show thesis
    using that [of n'] False i by (simp add: gpd_holders_def)
qed

section \<open>Properties\<close>

text \<open>C1. A fault on a worker is served end to end. Suppose the worker does not have the page marked
  \<open>PAGE_VALID\<close> (an evicted page keeps that mark, and then a read fault is ignored), its queue is empty, both
  ends are between packets, the coordinator holds a valid copy and, for a write, knows no third holder to
  invalidate. Then, however the network cuts the two packets into pieces, the worker's fault, the drain of its
  queue, the coordinator's answer and its arrival leave the page mapped on the worker with the coordinator's
  bytes and writable, the worker recorded as owner (write) or as one more sharer (read), and for a write the
  coordinator without a copy.\<close>

theorem remote_fault_served:
  assumes "kernel_ok K"
    and "region_ok region (num_pages (e_node sw))" and "i < num_pages (e_node sw)" and "off < 4096"
    and "queue_inv (e_queue sw)" and "queue_contents (e_queue sw) = []"
    and "coordinator_fd (e_node sw) = up" and "up \<noteq> - 1" and "idle_session up sw"
    and "page = page_table (e_node sw) ! i" and "pt_status page \<noteq> PAGE_VALID"
    and "req = make_packet (if w then MSG_REQUEST_PAGE_WRITE else MSG_REQUEST_PAGE_READ) (of_nat i)
      (local_node_id (e_node sw)) zero_page"
    and "node_inv (e_node sc)" and "gpd_pending_reqs (e_node sc) \<noteq> None" and "idle_session down sc"
    and "serves_copy K (e_node sc) req bytes" and "length bytes = page_bytes"
    and "entry_ok (node_gpd (e_node sc) ! i)" and "w \<longrightarrow> live_holders (e_node sc) req down = {}"
    and "concat cs = encode_packet req" and "chunks_fit 0 cs"
    and "concat cs' = encode_packet (page_reply (e_node sc) req bytes)" and "chunks_fit 0 cs'"
  shows "\<exists>f s2 sc1 s3. handle_fault region 4096 (touch region i off w)
        \<lparr>ft_table = page_table (e_node sw), ft_queue = e_queue sw\<rparr> = Inr (True, f) \<and>
    queue_ready K True (after_fault f sw) = Inr s2 \<and>
    sent_packets (e_node s2) = sent_packets (e_node sw) @ [(up, req)] \<and>
    peer_readable K down (map Chunk cs @ [RecvAgain]) sc = Inr sc1 \<and>
    sent_packets (e_node sc1) = sent_packets (e_node sc) @ [(down, page_reply (e_node sc) req bytes)] \<and>
    peer_readable K up (map Chunk cs' @ [RecvAgain]) s2 = Inr s3 \<and>
    view K (node_mem (e_node s3)) = (view K (node_mem (e_node sw)))(pt_base_addr page \<mapsto> (bytes, False)) \<and>
    pt_status (page_table (e_node s3) ! i) = PAGE_VALID \<and> queue_contents (e_queue s3) = [] \<and>
    abs_entry (node_gpd (e_node sc1) ! i) = (if w then OwnedBy (unat (local_node_id (e_node sw)))
      else SharedBy (insert (unat (local_node_id (e_node sw))) (gpd_holders (node_gpd (e_node sc)) i))) \<and>
    (w \<longrightarrow> view K (node_mem (e_node sc1)) (pt_base_addr (page_table (e_node sc) ! i)) = None)"
proof -
  let ?reply = "page_reply (e_node sc) req bytes"
  have "i < 2 ^ LENGTH(64)" using assms(2,3) by (simp add: region_ok_def)
  then have idx: "unat (pkt_page_index req) = i" and sender: "pkt_sender_node_id req = local_node_id (e_node sw)"
    and ty: "pkt_type req = (if w then MSG_REQUEST_PAGE_WRITE else MSG_REQUEST_PAGE_READ)"
    and ok: "packet_ok req" "packet_ok ?reply"
    using assms(12,17) by (simp_all add: make_packet_def of_nat_inverse page_reply_def packet_ok_def)
  obtain f s2 where f: "handle_fault region 4096 (touch region i off w)
      \<lparr>ft_table = page_table (e_node sw), ft_queue = e_queue sw\<rparr> = Inr (True, f)"
    "queue_ready K True (after_fault f sw) = Inr s2"
    and ses2: "e_sessions s2 = e_sessions sw" and q2: "queue_contents (e_queue s2) = []"
    and n2: "e_node s2 = (e_node sw)\<lparr>page_table := (page_table (e_node sw))[i := page\<lparr>pt_status := PAGE_PENDING\<rparr>],
      sent_packets := sent_packets (e_node sw) @ [(up, req)]\<rparr>"
    using fault_reaches_coordinator [OF assms(2-8,10,11), of w K] assms(12) by metis
  obtain c1 where c1: "dispatch K down (e_node sc) req = Inr c1"
    "sent_packets c1 = sent_packets (e_node sc) @ [(down, ?reply)]"
    "abs_entry (node_gpd c1 ! i) = (if w then OwnedBy (unat (local_node_id (e_node sw)))
      else SharedBy (insert (unat (local_node_id (e_node sw))) (gpd_holders (node_gpd (e_node sc)) i)))"
    "w \<longrightarrow> view K (node_mem c1) (pt_base_addr (page_table (e_node sc) ! i)) = None"
    using copy_sent_at_once [OF assms(1,13,14,16) ty idx [symmetric] assms(18,19)] sender by metis
  obtain sc1 where sc1: "peer_readable K down (map Chunk cs @ [RecvAgain]) sc = Inr sc1" "e_node sc1 = c1"
    using idle_session_reads [OF assms(15) ok(1) assms(20,21) c1(1)] .
  have reply: "unat (pkt_page_index ?reply) = i" "pkt_type ?reply = MSG_SEND_PAGE" "pkt_payload ?reply = bytes"
    using idx by (simp_all add: page_reply_def make_packet_def)
  let ?p = "page\<lparr>pt_status := PAGE_PENDING\<rparr>"
  have w2: "unat (pkt_page_index ?reply) < num_pages (e_node s2)" "coordinator_fd (e_node s2) \<noteq> - 1"
    "?p = page_table (e_node s2) ! unat (pkt_page_index ?reply)"
    using n2 reply(1) assms(3,7,8) by (simp_all add: num_pages_def)
  obtain n3 where n3: "dispatch K up (e_node s2) ?reply = Inr n3" "pt_status (page_table n3 ! i) = PAGE_VALID"
    "view K (node_mem n3) = (view K (node_mem (e_node s2)))(pt_base_addr ?p \<mapsto> (bytes, False))"
    using page_installed [OF assms(1) w2(1) reply(2) w2(2,3)] reply by (metis page_tracker.select_convs(2) page_tracker.surjective page_tracker.update_convs(2))
  have idle2: "idle_session up s2" using assms(9) by (simp add: idle_session_def ses2)
  obtain s3 where s3: "peer_readable K up (map Chunk cs' @ [RecvAgain]) s2 = Inr s3" "e_node s3 = n3"
    "e_queue s3 = e_queue s2"
    using idle_session_reads [OF idle2 ok(2) assms(22,23) n3(1)] .
  show ?thesis
    using f n2 c1 sc1 s3 n3 q2 by (intro exI [of _ f] exI [of _ s2] exI [of _ sc1] exI [of _ s3]) simp
qed

definition served_hub :: "(u64 \<Rightarrow> (page \<times> bool) option) engine" where
  "served_hub = first_engine\<lparr>e_node := hub \<lparr>state = STATE_MODIFIED, owner_node_id = 1, shared_nodes_bitmap = 0\<rparr>
     (replicate 4096 7), e_sessions := [12 \<mapsto> fresh_session 12]\<rparr>"

definition faulting_worker :: "(u64 \<Rightarrow> (page \<times> bool) option) engine" where
  "faulting_worker = first_engine\<lparr>e_node := waiting_worker, e_sessions := [9 \<mapsto> fresh_session 9]\<rparr>"

lemma one_chunk: "packet_ok p \<Longrightarrow> concat [encode_packet p] = encode_packet p \<and> chunks_fit 0 [encode_packet p]"
  using length_encode_packet [of p] by (auto simp: PACKET_SIZE_def)

theorem remote_fault_served_witness:
  "\<exists>f s2 sc1 s3. handle_fault 0x10000 4096 (touch 0x10000 0 8 True)
        \<lparr>ft_table = page_table waiting_worker, ft_queue = blank_queue\<rparr> = Inr (True, f) \<and>
    queue_ready map_kernel True (after_fault f faulting_worker) = Inr s2 \<and>
    peer_readable map_kernel 12 [Chunk (encode_packet (ask MSG_REQUEST_PAGE_WRITE 2)), RecvAgain] served_hub = Inr sc1 \<and>
    peer_readable map_kernel 9 [Chunk (encode_packet (make_packet MSG_SEND_PAGE 0 1 (replicate 4096 7))), RecvAgain] s2 = Inr s3 \<and>
    node_mem (e_node s3) 0x10000 = Some (replicate 4096 7, False) \<and>
    abs_entry (node_gpd (e_node sc1) ! 0) = OwnedBy 2 \<and> node_mem (e_node sc1) 0x10000 = None"
proof -
  let ?e = "\<lparr>state = STATE_MODIFIED, owner_node_id = 1, shared_nodes_bitmap = 0\<rparr> :: gpd_entry"
  let ?req = "ask MSG_REQUEST_PAGE_WRITE 2" and ?page = "\<lparr>pt_base_addr = 0x10000, pt_status = PAGE_PENDING\<rparr>"
  let ?reply = "make_packet MSG_SEND_PAGE 0 1 (replicate 4096 7) :: dsm_packet"
  have e: "entry_ok ?e" by (simp add: entry_ok_def valid_node_def)
  have w: "e_node faulting_worker = waiting_worker" "e_queue faulting_worker = blank_queue"
    "idle_session 9 faulting_worker"
    by (simp_all add: faulting_worker_def first_engine_def idle_session_def) (simp add: fresh_session_def)
  have wn: "num_pages waiting_worker = 1" "page_table waiting_worker = [?page]" "coordinator_fd waiting_worker = 9"
    "local_node_id waiting_worker = 2" "region_ok 0x10000 1"
    by (simp_all add: waiting_worker_def num_pages_def region_ok_def)
  have c: "e_node served_hub = hub ?e (replicate 4096 7)" "idle_session 12 served_hub"
    by (simp_all add: served_hub_def idle_session_def) (simp add: fresh_session_def)
  have cn: "page_reply (hub ?e (replicate 4096 7)) ?req (replicate 4096 7) = ?reply"
    "gpd_pending_reqs (hub ?e (replicate 4096 7)) \<noteq> None" "node_gpd (hub ?e (replicate 4096 7)) = [?e]"
    "page_table (hub ?e (replicate 4096 7)) = [\<lparr>pt_base_addr = 0x10000, pt_status = PAGE_VALID\<rparr>]"
    "live_holders (hub ?e (replicate 4096 7)) ?req 12 = {}"
    by (simp_all add: page_reply_def hub_def live_holders_def gpd_holders_def abs_entry_def)
  have ok: "packet_ok ?req" "packet_ok ?reply"
    by (simp_all add: packet_ok_def ask_def make_packet_def page_bytes_def)
  note req = one_chunk [OF ok(1)] and reply = one_chunk [OF ok(2)]
  have sv: "serves_copy map_kernel (hub ?e (replicate 4096 7)) ?req (replicate 4096 7)"
    by (rule hub_serves) (simp add: valid_node_def)
  have fits: "0 < num_pages (e_node faulting_worker)" "region_ok 0x10000 (num_pages (e_node faulting_worker))"
    "queue_inv (e_queue faulting_worker)" "queue_contents (e_queue faulting_worker) = []"
    "coordinator_fd (e_node faulting_worker) = 9" "?page = page_table (e_node faulting_worker) ! 0"
    by (simp_all add: w wn region_ok_def)
  have req_eq: "?req = make_packet (if True then MSG_REQUEST_PAGE_WRITE else MSG_REQUEST_PAGE_READ) (of_nat 0)
      (local_node_id (e_node faulting_worker)) zero_page"
    by (simp add: w wn ask_def)
  have hub: "node_inv (e_node served_hub)" "gpd_pending_reqs (e_node served_hub) \<noteq> None"
    "serves_copy map_kernel (e_node served_hub) ?req (replicate 4096 7)" "length (replicate 4096 (7 :: u8)) = page_bytes"
    "entry_ok (node_gpd (e_node served_hub) ! 0)" "True \<longrightarrow> live_holders (e_node served_hub) ?req 12 = {}"
    "concat [encode_packet ?reply] = encode_packet (page_reply (e_node served_hub) ?req (replicate 4096 7))"
    using hub_ok [OF e] sv e by (simp_all add: c cn page_bytes_def)
  have "(8 :: nat) < 4096" "(9 :: int) \<noteq> - 1" "pt_status ?page \<noteq> PAGE_VALID"
    by simp_all
  from remote_fault_served [OF map_kernel_ok fits(2,1) this(1) fits(3-5) this(2) w(3) fits(6) this(3) req_eq hub(1,2)
      c(2) hub(3-6) req [THEN conjunct1] req [THEN conjunct2] hub(7) reply [THEN conjunct2]]
  show ?thesis unfolding w c cn wn by auto
qed



definition full_worker :: "(u64 \<Rightarrow> (page \<times> bool) option) node" where
  "full_worker = hub fresh_entry (replicate 4096 7)\<lparr>local_node_id := 2, coordinator_fd := 9\<rparr>"


end
